(* ===== verification/Prelude.thy ===== *)
theory Prelude
  imports Main "HOL-Library.Word"
begin

text \<open>
  Shared vocabulary of the development: the machine types of the target (an ILP32
  little-endian Cortex-M), the error numbers, the C library operations the sources use
  on byte and character arrays, and the collections of simplification facts that the
  component theories extend.

  \<^item> \<open>mem_write\<close> is \<open>memcpy\<close> or \<open>memset\<close> into a buffer at an offset,
    \<open>mem_eq\<close> is \<open>memcmp(a, b, n) == 0\<close>, \<open>strncpy\<close> and \<open>strcmp_eq\<close> are the
    string operations on NUL-padded arrays.
  \<^item> \<open>le16_bytes\<close> and \<open>of_le16_bytes\<close> are the object representation of a
    \<open>uint16_t\<close> in memory.
  \<^item> Error numbers are positive integers, as in \<open>errno.h\<close> of the C library; functions
    return their negation.
\<close>

unbundle bit_operations_syntax

section \<open>Machine types\<close>

type_synonym u8 = "8 word"
type_synonym u16 = "16 word"
type_synonym u32 = "32 word"
type_synonym usize = "32 word"  \<comment> \<open>\<open>size_t\<close> on the target\<close>
type_synonym off_t = "32 word"  \<comment> \<open>signed, read with \<^const>\<open>sint\<close>\<close>
type_synonym s64 = "64 word"    \<comment> \<open>\<open>int64_t\<close>, read with \<^const>\<open>sint\<close>\<close>
type_synonym device = nat       \<comment> \<open>a \<open>struct device\<close> handle\<close>

named_theorems port_defs \<open>definitions of the flash port operations\<close>
named_theorems fal_defs \<open>definitions of the FAL adapter operations\<close>
named_theorems db_defs \<open>definitions of the point database operations\<close>
named_theorems rs485_defs \<open>definitions of the RS485 service operations\<close>
named_theorems mb_defs \<open>definitions of the Modbus service operations\<close>

section \<open>Error numbers\<close>

abbreviation (input) ENOENT :: int where "ENOENT \<equiv> 2"
abbreviation (input) EIO :: int where "EIO \<equiv> 5"
abbreviation (input) ENOMEM :: int where "ENOMEM \<equiv> 12"
abbreviation (input) EACCES :: int where "EACCES \<equiv> 13"
abbreviation (input) EFAULT :: int where "EFAULT \<equiv> 14"
abbreviation (input) ENODEV :: int where "ENODEV \<equiv> 19"
abbreviation (input) EINVAL :: int where "EINVAL \<equiv> 22"
abbreviation (input) ENOSPC :: int where "ENOSPC \<equiv> 28"
abbreviation (input) EALREADY :: int where "EALREADY \<equiv> 120"
abbreviation (input) EMSGSIZE :: int where "EMSGSIZE \<equiv> 122"
abbreviation (input) ENOTSUP :: int where "ENOTSUP \<equiv> 134"

section \<open>Signed readings of words\<close>

lemma unat32_lt: "unat (x :: 32 word) < 2 ^ 32"
  using unsigned_less [where ?'b = 32 and ?'a = nat and w = x] by simp

lemma sint32_alt: "sint (x :: 32 word) = (uint x + 2 ^ 31) mod 2 ^ 32 - 2 ^ 31"
  using int_word_sint [of "uint x", where 'a = 32] by simp

lemma signed_wrap:
  "n < 2 ^ 32 \<Longrightarrow>
     (int n + 2 ^ 31) mod 2 ^ 32 - 2 ^ 31 = (if n < 2 ^ 31 then int n else int n - 2 ^ 32)"
proof (cases "n < 2 ^ 31")
  case False
  assume "n < 2 ^ 32"
  have "(int n + 2 ^ 31) mod 2 ^ 32 = (int n + 2 ^ 31 - 2 ^ 32) mod 2 ^ 32"
    by (rule minus_mod_self2 [symmetric])
  also have "\<dots> = int n + 2 ^ 31 - 2 ^ 32"
    using False \<open>n < 2 ^ 32\<close> by (intro mod_pos_pos_trivial) simp_all
  finally show ?thesis using False by simp
qed simp

lemma sint32_cases:
  "sint (x :: 32 word) = (if unat x < 2 ^ 31 then int (unat x) else int (unat x) - 2 ^ 32)"
  using signed_wrap [OF unat32_lt, of x] unfolding sint32_alt uint_nat by simp

lemma sint32_nonneg_iff: "0 \<le> sint (x :: 32 word) \<longleftrightarrow> unat x < 2 ^ 31"
proof (cases "unat x < 2 ^ 31")
  case False
  have "uint x < 2 ^ 32" using unsigned_less [where ?'b = 32 and ?'a = int and w = x] by simp
  with False show ?thesis by (simp add: sint32_cases)
qed (simp add: sint32_cases)

lemma range_check_iff:
  fixes off len size :: "32 word"
  shows "size < off \<or> size - off < len \<longleftrightarrow> \<not> unat off + unat len \<le> unat size"
proof (cases "off \<le> size")
  case True
  then have "unat (size - off) = unat size - unat off" and "unat off \<le> unat size"
    by (simp_all add: unat_sub word_le_nat_alt)
  with True show ?thesis by (auto simp: word_less_nat_alt not_le not_less)
next
  case False
  then show ?thesis by (auto simp: word_le_nat_alt word_less_nat_alt)
qed

section \<open>Byte buffers\<close>

definition mem_write :: "'a list \<Rightarrow> nat \<Rightarrow> 'a list \<Rightarrow> 'a list" where
  "mem_write buf off src = take off buf @ src @ drop (off + length src) buf"

definition mem_eq :: "'a list \<Rightarrow> 'a list \<Rightarrow> nat \<Rightarrow> bool" where
  "mem_eq a b n \<longleftrightarrow> take n a = take n b"

lemma length_mem_write [simp]:
  "off + length src \<le> length buf \<Longrightarrow> length (mem_write buf off src) = length buf"
  by (simp add: mem_write_def)

lemma nth_mem_write:
  "off + length src \<le> length buf \<Longrightarrow> i < length buf \<Longrightarrow>
     mem_write buf off src ! i
       = (if off \<le> i \<and> i < off + length src then src ! (i - off) else buf ! i)"
  by (auto simp: mem_write_def nth_append min_def not_less)

lemma take_mem_write:
  "off \<le> length buf \<Longrightarrow> take (off + length src) (mem_write buf off src) = take off buf @ src"
  by (simp add: mem_write_def min_def)

lemma take_mem_write_0 [simp]: "take (length src) (mem_write buf 0 src) = src"
  by (simp add: mem_write_def)

lemma mem_write_nil [simp]: "off \<le> length buf \<Longrightarrow> mem_write buf off [] = buf"
  by (simp add: mem_write_def)

section \<open>C strings in character arrays\<close>

abbreviation NUL :: char where "NUL \<equiv> CHR 0x00"

definition c_str :: "string \<Rightarrow> string" where
  "c_str buf = takeWhile (\<lambda>c. c \<noteq> NUL) buf"

definition strncpy :: "string \<Rightarrow> string \<Rightarrow> nat \<Rightarrow> string" where
  "strncpy dst src n = take n (c_str src) @ replicate (n - length (c_str src)) NUL @ drop n dst"

definition strcmp_eq :: "string \<Rightarrow> string \<Rightarrow> bool" where
  "strcmp_eq a b \<longleftrightarrow> c_str a = c_str b"

lemma c_str_no_nul: "NUL \<notin> set (c_str s)"
  by (auto simp: c_str_def dest: set_takeWhileD)

lemma c_str_idem [simp]: "c_str (c_str s) = c_str s"
  using c_str_no_nul [of s] by (simp add: c_str_def takeWhile_eq_all_conv)

lemma c_str_no_nul_id: "NUL \<notin> set s \<Longrightarrow> c_str s = s"
  by (auto simp: c_str_def takeWhile_eq_all_conv)

lemma c_str_append_nul: "NUL \<notin> set s \<Longrightarrow> c_str (s @ NUL # t) = s"
  by (auto simp: c_str_def takeWhile_append)

lemma length_strncpy: "n \<le> length dst \<Longrightarrow> length (strncpy dst src n) = length dst"
  by (simp add: strncpy_def)

section \<open>Little-endian object representations\<close>

definition le16_bytes :: "u16 \<Rightarrow> u8 list" where
  "le16_bytes v = [ucast v, ucast (drop_bit 8 v)]"

definition of_le16_bytes :: "u8 list \<Rightarrow> u16" where
  "of_le16_bytes bs = (case bs of [a, b] \<Rightarrow> ucast a OR push_bit 8 (ucast b) | _ \<Rightarrow> 0)"

lemma length_le16_bytes [simp]: "length (le16_bytes v) = 2"
  by (simp add: le16_bytes_def)

lemma of_le16_bytes_le16_bytes [simp]: "of_le16_bytes (le16_bytes v) = v"
  by (rule bit_word_eqI)
     (auto simp: of_le16_bytes_def le16_bytes_def bit_or_iff bit_push_bit_iff bit_ucast_iff
       bit_drop_bit_eq not_le)

end
