(* ===== verification/Simulation.thy ===== *)
theory Simulation
  imports Main
begin

text \<open>
  Labelled runs of a step relation, and the contract by which a detailed relation refines
  an abstract one: an abstraction function and an invariant of the detailed states such
  that every detailed step keeps the invariant and is an abstract step with the same label.
\<close>

inductive runs :: "('s \<Rightarrow> 'e \<Rightarrow> 's \<Rightarrow> bool) \<Rightarrow> 's \<Rightarrow> 'e list \<Rightarrow> 's \<Rightarrow> bool" for step where
  runs_Nil: "runs step s [] s"
| runs_Cons: "step s e t \<Longrightarrow> runs step t es u \<Longrightarrow> runs step s (e # es) u"

inductive_simps runs_Nil_iff [simp]: "runs step s [] t"
inductive_simps runs_Cons_iff: "runs step s (e # es) t"

lemma runs_two: "step s d t \<Longrightarrow> step t e u \<Longrightarrow> runs step s [d, e] u"
  by (blast intro: runs.intros)

lemma runs_append: "runs step s (es @ fs) t \<longleftrightarrow> (\<exists>u. runs step s es u \<and> runs step u fs t)"
proof (induction es arbitrary: s)
  case (Cons e es)
  have "runs step s ((e # es) @ fs) t \<longleftrightarrow> (\<exists>v. step s e v \<and> runs step v (es @ fs) t)"
    by (simp add: runs_Cons_iff)
  also have "\<dots> \<longleftrightarrow> (\<exists>v. step s e v \<and> (\<exists>u. runs step v es u \<and> runs step u fs t))"
    by (simp only: Cons.IH)
  also have "\<dots> \<longleftrightarrow> (\<exists>u. (\<exists>v. step s e v \<and> runs step v es u) \<and> runs step u fs t)"
    by iprover
  finally show ?case by (simp only: runs_Cons_iff)
qed simp

lemma runs_keep:
  assumes "runs step s es t"
    and "\<And>s e t. P s \<Longrightarrow> e \<in> set es \<Longrightarrow> step s e t \<Longrightarrow> P t" and "P s"
  shows "P t"
  using assms
proof (induction rule: runs.induct)
  case (runs_Cons s e t es u)
  have "P t" by (rule runs_Cons.prems(1) [OF runs_Cons.prems(2) _ runs_Cons.hyps(1)]) simp
  then show ?case using runs_Cons.IH runs_Cons.prems(1) by (meson list.set_intros(2))
qed

locale trace_refinement =
  fixes cstep :: "'c \<Rightarrow> 'e \<Rightarrow> 'c \<Rightarrow> bool"
    and astep :: "'a \<Rightarrow> 'e \<Rightarrow> 'a \<Rightarrow> bool"
    and abs :: "'c \<Rightarrow> 'a"
    and inv :: "'c \<Rightarrow> bool"
  assumes step_inv: "inv c \<Longrightarrow> cstep c e d \<Longrightarrow> inv d"
    and step_sim: "inv c \<Longrightarrow> cstep c e d \<Longrightarrow> astep (abs c) e (abs d)"
begin

lemma runs_inv: "runs cstep c es d \<Longrightarrow> inv c \<Longrightarrow> inv d"
  by (induction rule: runs.induct) (blast intro: step_inv)+

lemma runs_sim: "runs cstep c es d \<Longrightarrow> inv c \<Longrightarrow> runs astep (abs c) es (abs d)"
  by (induction rule: runs.induct) (blast intro: runs.intros step_inv step_sim)+

end

end
