(* ===== verification/Rs485.thy ===== *)
theory Rs485
  imports Prelude Simulation
begin

text \<open>
  The RS485 service, \<^verbatim>\<open>ATS-M7/src/usart_service.c\<close>: a half-duplex serial port with DMA
  receive into two buffers, a receive ring, and a driver-enable (DE) pin that must be high
  exactly while a frame is sent. The UART and GPIO drivers, the kernel semaphore, the ring
  buffer and the clock are Zephyr's: \<open>rs_api\<close> has one field per function of them that the
  file calls, over an arbitrary state \<open>'w\<close> of the platform.

  Interrupts are part of that state: \<open>hw_irq\<close> is the next thing the hardware does, a DMA
  store or a UART event, and \<open>hw_burst\<close> how many of them happen before the next access
  of the reading thread to the ring. A thread blocked on the semaphore takes interrupts
  until the semaphore can be taken; if there is none left it stays blocked, the value
  \<open>None\<close>. The step relation \<open>rs_step\<close> interleaves interrupts with every statement of
  \<open>rs485_write\<close>. \<open>rs_ok\<close> is the documented behaviour of the platform, as equations on
  the part \<open>rs_line\<close> of its state that can be observed.
\<close>

section \<open>The platform interface\<close>

datatype rs_dev = Rs_uart_dev | Rs_de_port

text \<open>A receive buffer is named by its index in \<open>rx_buf\<close>.\<close>

datatype uart_event = UART_TX_DONE | UART_TX_ABORTED
  | UART_RX_RDY nat nat nat  \<comment> \<open>buffer, offset, length\<close>
  | UART_RX_BUF_REQUEST | UART_RX_BUF_RELEASED nat | UART_RX_DISABLED | UART_RX_STOPPED

datatype hw_event = Dma_store nat nat "u8 list" | Uart_irq uart_event

record 'w rs_api =
  rs_device_is_ready :: "rs_dev \<Rightarrow> 'w \<Rightarrow> bool"
  gpio_pin_configure_dt :: "'w \<Rightarrow> 'w"  \<comment> \<open>\<open>GPIO_OUTPUT_INACTIVE\<close>\<close>
  gpio_pin_set_dt :: "int \<Rightarrow> 'w \<Rightarrow> 'w"
  k_sem_init :: "nat \<Rightarrow> nat \<Rightarrow> 'w \<Rightarrow> 'w"
  k_sem_give :: "'w \<Rightarrow> 'w"
  k_sem_take :: "'w \<Rightarrow> bool \<times> 'w"  \<comment> \<open>takes a unit when there is one\<close>
  uart_callback_set :: "'w \<Rightarrow> int \<times> 'w"
  uart_rx_enable :: "nat \<Rightarrow> usize \<Rightarrow> u32 \<Rightarrow> 'w \<Rightarrow> int \<times> 'w"
  uart_rx_buf_rsp :: "nat \<Rightarrow> usize \<Rightarrow> 'w \<Rightarrow> 'w"
  uart_tx :: "u8 list \<Rightarrow> usize \<Rightarrow> 'w \<Rightarrow> int \<times> 'w"  \<comment> \<open>timeout \<open>SYS_FOREVER_MS\<close>\<close>
  ring_buf_put :: "u8 list \<Rightarrow> 'w \<Rightarrow> u32 \<times> 'w"
  ring_buf_get :: "u32 \<Rightarrow> 'w \<Rightarrow> u32 \<times> u8 list \<times> 'w"
  k_uptime_get :: "'w \<Rightarrow> s64 \<times> 'w"
  k_sleep_ms :: "nat \<Rightarrow> 'w \<Rightarrow> 'w"
  k_ticks_to_ms_floor64 :: "s64 \<Rightarrow> s64"
  hw_irq :: "'w \<Rightarrow> (hw_event \<times> 'w) option"
  hw_burst :: "'w \<Rightarrow> nat"

section \<open>State and operations\<close>

abbreviation (input) RX_BUF_SIZE :: nat where "RX_BUF_SIZE \<equiv> 256"
abbreviation (input) RX_RING_SIZE :: nat where "RX_RING_SIZE \<equiv> 512"
abbreviation (input) TX_BUF_SIZE :: nat where "TX_BUF_SIZE \<equiv> 256"
abbreviation (input) RX_TIMEOUT_US :: u32 where "RX_TIMEOUT_US \<equiv> 304"
abbreviation (input) K_FOREVER :: s64 where "K_FOREVER \<equiv> - 1"
abbreviation (input) K_NO_WAIT :: s64 where "K_NO_WAIT \<equiv> 0"
abbreviation (input) INT64_MAX :: s64 where "INT64_MAX \<equiv> 0x7FFFFFFFFFFFFFFF"

record rs_state =
  rx_buf :: "u8 list list"
  tx_buf :: "u8 list"
  rx_buf_idx :: int

definition rs_state0 :: rs_state where
  "rs_state0 = \<lparr>rx_buf = replicate 2 (replicate RX_BUF_SIZE 0), tx_buf = replicate TX_BUF_SIZE 0,
     rx_buf_idx = 1\<rparr>"

definition uart_cb :: "'w rs_api \<Rightarrow> uart_event \<Rightarrow> rs_state \<Rightarrow> 'w \<Rightarrow> rs_state \<times> 'w" where
  "uart_cb api evt s w =
     (case evt of
        UART_TX_DONE \<Rightarrow> (s, k_sem_give api (gpio_pin_set_dt api 0 w))
      | UART_TX_ABORTED \<Rightarrow> (s, k_sem_give api (gpio_pin_set_dt api 0 w))
      | UART_RX_RDY b off len \<Rightarrow>
          let (n, w1) = ring_buf_put api (take len (drop off (rx_buf s ! b))) w in (s, w1)
      | UART_RX_BUF_REQUEST \<Rightarrow>
          (s\<lparr>rx_buf_idx := rx_buf_idx s XOR 1\<rparr>,
           uart_rx_buf_rsp api (nat (rx_buf_idx s)) (of_nat RX_BUF_SIZE) w)
      | UART_RX_DISABLED \<Rightarrow>
          let (ret, w1) = uart_rx_enable api 0 (of_nat RX_BUF_SIZE) RX_TIMEOUT_US w in (s, w1)
      | UART_RX_BUF_RELEASED b \<Rightarrow> (s, w)
      | UART_RX_STOPPED \<Rightarrow> (s, w))"

text \<open>What the hardware does: it stores received bytes in a buffer, or raises an event.\<close>

definition on_hw :: "'w rs_api \<Rightarrow> hw_event \<Rightarrow> rs_state \<Rightarrow> 'w \<Rightarrow> rs_state \<times> 'w" where
  "on_hw api ev s w =
     (case ev of
        Dma_store b off bytes \<Rightarrow> (s\<lparr>rx_buf := (rx_buf s)[b := mem_write (rx_buf s ! b) off bytes]\<rparr>, w)
      | Uart_irq e \<Rightarrow> uart_cb api e s w)"

fun deliver :: "'w rs_api \<Rightarrow> nat \<Rightarrow> rs_state \<Rightarrow> 'w \<Rightarrow> rs_state \<times> 'w" where
  "deliver api 0 s w = (s, w)"
| "deliver api (Suc n) s w =
     (case hw_irq api w of
        None \<Rightarrow> (s, w)
      | Some (ev, w1) \<Rightarrow> case on_hw api ev s w1 of (s1, w2) \<Rightarrow> deliver api n s1 w2)"

definition rs485_init :: "'w rs_api \<Rightarrow> 'w \<Rightarrow> int \<times> 'w" where
  "rs485_init api w =
     (if \<not> rs_device_is_ready api Rs_uart_dev w then (- ENODEV, w)
      else if \<not> rs_device_is_ready api Rs_de_port w then (- ENODEV, w)
      else
        let w1 = gpio_pin_configure_dt api w;
            w2 = k_sem_init api 0 1 w1;
            (ret, w3) = uart_callback_set api w2 in
        if ret \<noteq> 0 then (ret, w3)
        else
          let (ret, w4) = uart_rx_enable api 0 (of_nat RX_BUF_SIZE) RX_TIMEOUT_US w3 in
          if ret \<noteq> 0 then (ret, w4) else (0, w4))"

text \<open>\<^verbatim>\<open>k_sem_take(&tx_done_sem, K_FOREVER)\<close>.\<close>

partial_function (option) sem_wait :: "'w rs_api \<Rightarrow> rs_state \<Rightarrow> 'w \<Rightarrow> (rs_state \<times> 'w) option" where
  "sem_wait api s w =
     (case k_sem_take api w of (taken, w1) \<Rightarrow>
        if taken then Some (s, w1)
        else
          (case hw_irq api w1 of
             None \<Rightarrow> None
           | Some (ev, w2) \<Rightarrow> (case on_hw api ev s w2 of (s1, w3) \<Rightarrow> sem_wait api s1 w3)))"

definition rs485_write ::
  "'w rs_api \<Rightarrow> u8 list \<Rightarrow> usize \<Rightarrow> rs_state \<Rightarrow> 'w \<Rightarrow> (int \<times> rs_state \<times> 'w) option" where
  "rs485_write api data len s w =
     (if len > of_nat TX_BUF_SIZE then Some (- EINVAL, s, w)
      else
        let s1 = s\<lparr>tx_buf := mem_write (tx_buf s) 0 (take (unat len) data)\<rparr>;
            w1 = gpio_pin_set_dt api 1 w;
            (ret, w2) = uart_tx api (tx_buf s1) len w1 in
        if ret \<noteq> 0 then Some (ret, s1, gpio_pin_set_dt api 0 w2)
        else map_option (\<lambda>(s2, w3). (0, s2, w3)) (sem_wait api s1 w2))"

text \<open>
  The loop of \<^verbatim>\<open>rs485_read\<close>; \<open>buf\<close> is the caller's buffer. The interrupts between two
  accesses to the ring have the same effect wherever in between they happen, so they are
  taken just before the access.
\<close>

partial_function (option) rs485_read_loop ::
  "'w rs_api \<Rightarrow> s64 \<Rightarrow> s64 \<Rightarrow> usize \<Rightarrow> u8 list \<Rightarrow> usize \<Rightarrow> rs_state \<Rightarrow> 'w
     \<Rightarrow> (usize \<times> u8 list \<times> rs_state \<times> 'w) option" where
  "rs485_read_loop api ticks end_ms max_len buf tot s w =
     (if tot < max_len then
        (case deliver api (hw_burst api w) s w of (s1, w1) \<Rightarrow>
         case ring_buf_get api (max_len - tot) w1 of (len, d, w2) \<Rightarrow>
         if len > 0 then
           rs485_read_loop api ticks end_ms max_len (mem_write buf (unat tot) d) (tot + len) s1 w2
         else if ticks = K_NO_WAIT then Some (tot, buf, s1, w2)
         else
           (case k_uptime_get api w2 of (now, w3) \<Rightarrow>
            if sint now > sint end_ms then Some (tot, buf, s1, w3)
            else rs485_read_loop api ticks end_ms max_len buf tot s1 (k_sleep_ms api 1 w3)))
      else Some (tot, buf, s, w))"

definition rs485_read_end :: "'w rs_api \<Rightarrow> s64 \<Rightarrow> 'w \<Rightarrow> s64 \<times> 'w" where
  "rs485_read_end api ticks w =
     (if ticks = K_FOREVER then (INT64_MAX, w)
      else
        let timeout_ms = k_ticks_to_ms_floor64 api ticks;
            timeout_ms = (if sint timeout_ms \<le> 0 then 1 else timeout_ms);
            (now, w1) = k_uptime_get api w in
        (now + timeout_ms, w1))"

definition rs485_read ::
  "'w rs_api \<Rightarrow> u8 list \<Rightarrow> usize \<Rightarrow> s64 \<Rightarrow> rs_state \<Rightarrow> 'w \<Rightarrow> (int \<times> u8 list \<times> rs_state \<times> 'w) option" where
  "rs485_read api buf max_len ticks s w =
     (let (end_ms, w1) = rs485_read_end api ticks w in
      map_option (\<lambda>(tot, buf', s', w'). (sint tot, buf', s', w'))
        (rs485_read_loop api ticks end_ms max_len buf 0 s w1))"

lemmas [rs485_defs] =
  uart_cb_def on_hw_def rs485_init_def rs485_write_def rs485_read_def rs485_read_end_def

section \<open>The documented platform\<close>

text \<open>
  The observable part of the platform: the DE pin, the frame being sent, the frames sent
  completely with the level DE had at their end, the frames the hardware gave up, the
  semaphore, the receive ring, and the two buffers the UART driver holds.
\<close>

record rs_line =
  ln_de :: bool
  ln_tx :: "u8 list option"
  ln_sent :: "(u8 list \<times> bool) list"
  ln_aborted :: "u8 list list"
  ln_sem :: nat
  ln_lim :: nat
  ln_ring :: "u8 list"
  ln_cur :: "nat option"
  ln_next :: "nat option"

definition gpio_ok :: "'w rs_api \<Rightarrow> ('w \<Rightarrow> rs_line) \<Rightarrow> bool" where
  "gpio_ok api line \<longleftrightarrow>
     (\<forall>w. line (gpio_pin_configure_dt api w) = (line w)\<lparr>ln_de := False\<rparr>) \<and>
     (\<forall>v w. line (gpio_pin_set_dt api v w) = (line w)\<lparr>ln_de := (v \<noteq> 0)\<rparr>)"

definition sem_ok :: "'w rs_api \<Rightarrow> ('w \<Rightarrow> rs_line) \<Rightarrow> bool" where
  "sem_ok api line \<longleftrightarrow>
     (\<forall>c l w. line (k_sem_init api c l w) = (line w)\<lparr>ln_sem := c, ln_lim := l\<rparr>) \<and>
     (\<forall>w. line (k_sem_give api w) =
        (line w)\<lparr>ln_sem := min (ln_lim (line w)) (Suc (ln_sem (line w)))\<rparr>) \<and>
     (\<forall>w b w'. k_sem_take api w = (b, w') \<longrightarrow>
        b = (0 < ln_sem (line w)) \<and> line w' = (line w)\<lparr>ln_sem := ln_sem (line w) - 1\<rparr>)"

definition uart_ok :: "'w rs_api \<Rightarrow> ('w \<Rightarrow> rs_line) \<Rightarrow> bool" where
  "uart_ok api line \<longleftrightarrow>
     (\<forall>w r w'. uart_callback_set api w = (r, w') \<longrightarrow> line w' = line w) \<and>
     (\<forall>b n t w r w'. uart_rx_enable api b n t w = (r, w') \<longrightarrow>
        line w' = (if r = 0 then (line w)\<lparr>ln_cur := Some b, ln_next := None\<rparr> else line w)) \<and>
     (\<forall>b n w. line (uart_rx_buf_rsp api b n w) =
        (if ln_cur (line w) \<noteq> None \<and> ln_next (line w) = None
         then (line w)\<lparr>ln_next := Some b\<rparr> else line w)) \<and>
     (\<forall>d n w r w'. uart_tx api d n w = (r, w') \<longrightarrow>
        (if r = 0 then ln_tx (line w) = None \<and> line w' = (line w)\<lparr>ln_tx := Some (take (unat n) d)\<rparr>
         else line w' = line w))"

definition ring_ok :: "'w rs_api \<Rightarrow> ('w \<Rightarrow> rs_line) \<Rightarrow> bool" where
  "ring_ok api line \<longleftrightarrow>
     (\<forall>d w n w'. ring_buf_put api d w = (n, w') \<longrightarrow>
        unat n = min (length d) (RX_RING_SIZE - length (ln_ring (line w))) \<and>
        line w' = (line w)\<lparr>ln_ring := ln_ring (line w) @ take (unat n) d\<rparr>) \<and>
     (\<forall>n w len d w'. ring_buf_get api n w = (len, d, w') \<longrightarrow>
        unat len = length d \<and> d = take (unat n) (ln_ring (line w)) \<and>
        line w' = (line w)\<lparr>ln_ring := drop (unat n) (ln_ring (line w))\<rparr>)"

definition clock_neutral :: "'w rs_api \<Rightarrow> ('w \<Rightarrow> rs_line) \<Rightarrow> bool" where
  "clock_neutral api line \<longleftrightarrow>
     (\<forall>w t w'. k_uptime_get api w = (t, w') \<longrightarrow> line w' = line w) \<and>
     (\<forall>n w. line (k_sleep_ms api n w) = line w)"

text \<open>Which interrupts can happen, and what the hardware has done when they do.\<close>

fun irq_ok :: "hw_event \<Rightarrow> rs_line \<Rightarrow> bool" where
  "irq_ok (Dma_store b off bytes) l = (ln_cur l = Some b \<and> off + length bytes \<le> RX_BUF_SIZE)"
| "irq_ok (Uart_irq UART_TX_DONE) l = (ln_tx l \<noteq> None)"
| "irq_ok (Uart_irq UART_TX_ABORTED) l = (ln_tx l \<noteq> None)"
| "irq_ok (Uart_irq (UART_RX_RDY b off len)) l = (ln_cur l = Some b \<and> off + len \<le> RX_BUF_SIZE)"
| "irq_ok (Uart_irq UART_RX_BUF_REQUEST) l = (ln_cur l \<noteq> None \<and> ln_next l = None)"
| "irq_ok (Uart_irq (UART_RX_BUF_RELEASED b)) l = (ln_cur l = Some b)"
| "irq_ok (Uart_irq UART_RX_DISABLED) l = True"
| "irq_ok (Uart_irq UART_RX_STOPPED) l = True"

fun irq_line :: "hw_event \<Rightarrow> rs_line \<Rightarrow> rs_line" where
  "irq_line (Uart_irq UART_TX_DONE) l =
     l\<lparr>ln_tx := None, ln_sent := ln_sent l @ [(the (ln_tx l), ln_de l)]\<rparr>"
| "irq_line (Uart_irq UART_TX_ABORTED) l =
     l\<lparr>ln_tx := None, ln_aborted := ln_aborted l @ [the (ln_tx l)]\<rparr>"
| "irq_line (Uart_irq (UART_RX_BUF_RELEASED b)) l = l\<lparr>ln_cur := ln_next l, ln_next := None\<rparr>"
| "irq_line (Uart_irq UART_RX_DISABLED) l = l\<lparr>ln_cur := None, ln_next := None\<rparr>"
| "irq_line _ l = l"

definition hw_ok :: "'w rs_api \<Rightarrow> ('w \<Rightarrow> rs_line) \<Rightarrow> bool" where
  "hw_ok api line \<longleftrightarrow>
     (\<forall>w ev w'. hw_irq api w = Some (ev, w') \<longrightarrow>
        irq_ok ev (line w) \<and> line w' = irq_line ev (line w))"

definition rs_ok :: "'w rs_api \<Rightarrow> ('w \<Rightarrow> rs_line) \<Rightarrow> bool" where
  "rs_ok api line \<longleftrightarrow> gpio_ok api line \<and> sem_ok api line \<and> uart_ok api line \<and> ring_ok api line \<and>
     clock_neutral api line \<and> hw_ok api line"

lemma rs_ok_pure:
  assumes "rs_ok api line"
  shows "line (gpio_pin_configure_dt api w) = (line w)\<lparr>ln_de := False\<rparr>"
    and "line (gpio_pin_set_dt api v w) = (line w)\<lparr>ln_de := (v \<noteq> 0)\<rparr>"
    and "line (k_sem_init api c l w) = (line w)\<lparr>ln_sem := c, ln_lim := l\<rparr>"
    and "line (k_sem_give api w) =
      (line w)\<lparr>ln_sem := min (ln_lim (line w)) (Suc (ln_sem (line w)))\<rparr>"
    and "line (uart_rx_buf_rsp api b n w) =
      (if ln_cur (line w) \<noteq> None \<and> ln_next (line w) = None
       then (line w)\<lparr>ln_next := Some b\<rparr> else line w)"
    and "line (k_sleep_ms api m w) = line w"
  using assms unfolding rs_ok_def gpio_ok_def sem_ok_def uart_ok_def clock_neutral_def by simp_all

lemma rs_ok_calls:
  assumes "rs_ok api line"
  shows "k_sem_take api w = (b, w') \<Longrightarrow>
      b = (0 < ln_sem (line w)) \<and> line w' = (line w)\<lparr>ln_sem := ln_sem (line w) - 1\<rparr>"
    and "uart_callback_set api w = (r, w') \<Longrightarrow> line w' = line w"
    and "uart_rx_enable api i n t w = (r, w') \<Longrightarrow>
      line w' = (if r = 0 then (line w)\<lparr>ln_cur := Some i, ln_next := None\<rparr> else line w)"
    and "uart_tx api d n w = (r, w') \<Longrightarrow>
      (if r = 0 then ln_tx (line w) = None \<and> line w' = (line w)\<lparr>ln_tx := Some (take (unat n) d)\<rparr>
       else line w' = line w)"
    and "ring_buf_put api d w = (n, w') \<Longrightarrow>
      unat n = min (length d) (RX_RING_SIZE - length (ln_ring (line w))) \<and>
      line w' = (line w)\<lparr>ln_ring := ln_ring (line w) @ take (unat n) d\<rparr>"
    and "ring_buf_get api n w = (len, d, w') \<Longrightarrow>
      unat len = length d \<and> d = take (unat n) (ln_ring (line w)) \<and>
      line w' = (line w)\<lparr>ln_ring := drop (unat n) (ln_ring (line w))\<rparr>"
    and "k_uptime_get api w = (now, w') \<Longrightarrow> line w' = line w"
    and "hw_irq api w = Some (ev, w') \<Longrightarrow> irq_ok ev (line w) \<and> line w' = irq_line ev (line w)"
proof -
  have sem: "sem_ok api line" and uart: "uart_ok api line" and ring: "ring_ok api line"
    and clock: "clock_neutral api line" and hw: "hw_ok api line"
    using assms by (simp_all add: rs_ok_def)
  show "k_sem_take api w = (b, w') \<Longrightarrow>
      b = (0 < ln_sem (line w)) \<and> line w' = (line w)\<lparr>ln_sem := ln_sem (line w) - 1\<rparr>"
    using sem unfolding sem_ok_def by blast
  show "uart_callback_set api w = (r, w') \<Longrightarrow> line w' = line w"
    and "uart_rx_enable api i n t w = (r, w') \<Longrightarrow>
      line w' = (if r = 0 then (line w)\<lparr>ln_cur := Some i, ln_next := None\<rparr> else line w)"
    using uart unfolding uart_ok_def by blast+
  show "uart_tx api d n w = (r, w') \<Longrightarrow>
      (if r = 0 then ln_tx (line w) = None \<and> line w' = (line w)\<lparr>ln_tx := Some (take (unat n) d)\<rparr>
       else line w' = line w)"
    using uart unfolding uart_ok_def by meson
  show "ring_buf_put api d w = (n, w') \<Longrightarrow>
      unat n = min (length d) (RX_RING_SIZE - length (ln_ring (line w))) \<and>
      line w' = (line w)\<lparr>ln_ring := ln_ring (line w) @ take (unat n) d\<rparr>"
    and "ring_buf_get api n w = (len, d, w') \<Longrightarrow>
      unat len = length d \<and> d = take (unat n) (ln_ring (line w)) \<and>
      line w' = (line w)\<lparr>ln_ring := drop (unat n) (ln_ring (line w))\<rparr>"
    using ring unfolding ring_ok_def by blast+
  show "k_uptime_get api w = (now, w') \<Longrightarrow> line w' = line w"
    using clock unfolding clock_neutral_def by blast
  show "hw_irq api w = Some (ev, w') \<Longrightarrow> irq_ok ev (line w) \<and> line w' = irq_line ev (line w)"
    using hw unfolding hw_ok_def by blast
qed

text \<open>The combined effect of the hardware event and the callback on the line.\<close>

fun ends_tx :: "hw_event \<Rightarrow> bool" where
  "ends_tx (Uart_irq UART_TX_DONE) = True"
| "ends_tx (Uart_irq UART_TX_ABORTED) = True"
| "ends_tx _ = False"

lemma on_hw_ends_tx:
  assumes "rs_ok api line" and "ends_tx ev" and "on_hw api ev s w = (s', w')"
  shows "s' = s \<and> line w' = (line w)\<lparr>ln_de := False,
    ln_sem := min (ln_lim (line w)) (Suc (ln_sem (line w)))\<rparr>"
  using assms(2,3)
  by (cases ev rule: ends_tx.cases) (auto simp: on_hw_def uart_cb_def rs_ok_pure [OF assms(1)])

definition same_tx :: "rs_line \<Rightarrow> rs_line \<Rightarrow> bool" where
  "same_tx l m \<longleftrightarrow> ln_de l = ln_de m \<and> ln_tx l = ln_tx m \<and> ln_sem l = ln_sem m \<and>
     ln_lim l = ln_lim m \<and> ln_sent l = ln_sent m \<and> ln_aborted l = ln_aborted m"

lemma same_tx_refl [simp]: "same_tx l l"
  by (simp add: same_tx_def)

lemma on_hw_rx:
  assumes "rs_ok api line" and "\<not> ends_tx ev" and "on_hw api ev s w = (s', w')"
  shows "same_tx (line w') (line w) \<and> tx_buf s' = tx_buf s"
  using assms(2,3)
  by (cases ev rule: ends_tx.cases)
     (auto simp: on_hw_def uart_cb_def same_tx_def rs_ok_pure [OF assms(1)] split: prod.splits if_splits
       dest!: rs_ok_calls(3,5) [OF assms(1)])

lemma irq_line_rx: "\<not> ends_tx ev \<Longrightarrow> same_tx (irq_line ev l) l"
  by (cases ev rule: ends_tx.cases) (auto simp: same_tx_def)

section \<open>Interleaved execution\<close>

text \<open>
  Where the writing thread is: outside \<open>rs485_write\<close> with the last return code, after the
  copy, with DE raised, after a refused \<open>uart_tx\<close>, and blocked on the semaphore. The
  reading thread and the hardware may run between any two of its statements. The label of a
  step tells who made it: the writer, the reader with what it took from the ring, the
  reader with a call of the clock, or the hardware.
\<close>

datatype write_pc = W_idle int | W_copied usize | W_driving usize | W_failed int | W_waiting

datatype rs_label = L_writer | L_take u32 "u8 list" | L_clock | L_hw hw_event

inductive rs_lstep ::
  "'w rs_api \<Rightarrow> write_pc \<times> rs_state \<times> 'w \<Rightarrow> rs_label \<Rightarrow> write_pc \<times> rs_state \<times> 'w \<Rightarrow> bool"
  for api where
  W_reject: "(len :: usize) > of_nat TX_BUF_SIZE \<Longrightarrow>
    rs_lstep api (W_idle r, s, w) L_writer (W_idle (- EINVAL), s, w)"
| W_copy: "len \<le> of_nat TX_BUF_SIZE \<Longrightarrow>
    rs_lstep api (W_idle r, s, w) L_writer
      (W_copied len, s\<lparr>tx_buf := mem_write (tx_buf s) 0 (take (unat len) data)\<rparr>, w)"
| W_drive: "rs_lstep api (W_copied len, s, w) L_writer (W_driving len, s, gpio_pin_set_dt api 1 w)"
| W_start: "uart_tx api (tx_buf s) len w = (0, w1) \<Longrightarrow>
    rs_lstep api (W_driving len, s, w) L_writer (W_waiting, s, w1)"
| W_refused: "uart_tx api (tx_buf s) len w = (r, w1) \<Longrightarrow> r \<noteq> 0 \<Longrightarrow>
    rs_lstep api (W_driving len, s, w) L_writer (W_failed r, s, w1)"
| W_release: "rs_lstep api (W_failed r, s, w) L_writer (W_idle r, s, gpio_pin_set_dt api 0 w)"
| W_blocked: "k_sem_take api w = (False, w1) \<Longrightarrow>
    rs_lstep api (W_waiting, s, w) L_writer (W_waiting, s, w1)"
| W_wake: "k_sem_take api w = (True, w1) \<Longrightarrow>
    rs_lstep api (W_waiting, s, w) L_writer (W_idle 0, s, w1)"
| R_get: "ring_buf_get api n w = (len, d, w1) \<Longrightarrow> rs_lstep api (pc, s, w) (L_take n d) (pc, s, w1)"
| R_time: "k_uptime_get api w = (now, w1) \<Longrightarrow> rs_lstep api (pc, s, w) L_clock (pc, s, w1)"
| R_sleep: "rs_lstep api (pc, s, w) L_clock (pc, s, k_sleep_ms api m w)"
| Irq: "hw_irq api w = Some (ev, w1) \<Longrightarrow> on_hw api ev s w1 = (s', w2) \<Longrightarrow>
    rs_lstep api (pc, s, w) (L_hw ev) (pc, s', w2)"

definition rs_step :: "'w rs_api \<Rightarrow> write_pc \<times> rs_state \<times> 'w \<Rightarrow> write_pc \<times> rs_state \<times> 'w \<Rightarrow> bool" where
  "rs_step api c d \<longleftrightarrow> (\<exists>l. rs_lstep api c l d)"

lemma rs_stepI: "rs_lstep api c l d \<Longrightarrow> rs_step api c d"
  by (auto simp: rs_step_def)

lemma rs_stepE:
  assumes "rs_step api c d"
  obtains l where "rs_lstep api c l d"
  using assms by (auto simp: rs_step_def)

lemma runs_rs_steps: "runs (rs_lstep api) c ls d \<Longrightarrow> (rs_step api)\<^sup>*\<^sup>* c d"
  by (induction rule: runs.induct) (auto intro: rs_stepI converse_rtranclp_into_rtranclp)

fun bus_inv :: "write_pc \<Rightarrow> rs_line \<Rightarrow> bool" where
  "bus_inv (W_idle r) l = (ln_lim l = 1 \<and> \<not> ln_de l \<and> ln_tx l = None \<and> ln_sem l = 0)"
| "bus_inv (W_copied n) l = (ln_lim l = 1 \<and> \<not> ln_de l \<and> ln_tx l = None \<and> ln_sem l = 0)"
| "bus_inv (W_driving n) l = (ln_lim l = 1 \<and> ln_de l \<and> ln_tx l = None \<and> ln_sem l = 0)"
| "bus_inv (W_failed r) l = (ln_lim l = 1 \<and> ln_de l \<and> ln_tx l = None \<and> ln_sem l = 0)"
| "bus_inv W_waiting l = (ln_lim l = 1 \<and>
     (ln_de l \<and> ln_tx l \<noteq> None \<and> ln_sem l = 0 \<or> \<not> ln_de l \<and> ln_tx l = None \<and> ln_sem l = 1))"

lemma bus_inv_same: "same_tx l m \<Longrightarrow> bus_inv pc m \<Longrightarrow> bus_inv pc l"
  by (cases pc) (auto simp: same_tx_def)

lemma bus_inv_irq:
  assumes ok: "rs_ok api line" and inv: "bus_inv pc (line w)"
    and irq: "hw_irq api w = Some (ev, w1)" and cb: "on_hw api ev s w1 = (s', w2)"
  shows "bus_inv pc (line w2)"
proof (cases "ends_tx ev")
  case True
  have "ln_tx (line w) \<noteq> None"
    using rs_ok_calls(8) [OF ok irq] True by (cases ev rule: ends_tx.cases) auto
  with inv have pc: "pc = W_waiting" and l: "ln_lim (line w) = 1" "ln_sem (line w) = 0"
    by (cases pc; auto)+
  have "ln_tx (line w1) = None" "ln_lim (line w1) = 1" "ln_sem (line w1) = 0"
    using rs_ok_calls(8) [OF ok irq] True l by (cases ev rule: ends_tx.cases; auto)+
  then show ?thesis using on_hw_ends_tx [OF ok True cb] pc by simp
next
  case False
  have "same_tx (line w1) (line w)"
    using rs_ok_calls(8) [OF ok irq] irq_line_rx [OF False] by simp
  moreover have "same_tx (line w2) (line w1)" using on_hw_rx [OF ok False cb] by simp
  ultimately show ?thesis using bus_inv_same inv by blast
qed

lemma bus_inv_step:
  assumes ok: "rs_ok api line" and "rs_lstep api (pc, s, w) l (pc', s', w')" and "bus_inv pc (line w)"
  shows "bus_inv pc' (line w')"
  using assms(2,3)
proof (cases rule: rs_lstep.cases)
  case (Irq ev w1)
  then show ?thesis using bus_inv_irq [OF ok] assms(3) by blast
next
  case (R_get n len d)
  then show ?thesis using rs_ok_calls(6) [OF ok] assms(3) bus_inv_same [of "line w'" "line w" pc]
    by (fastforce simp: same_tx_def)
next
  case (R_time now)
  then show ?thesis using rs_ok_calls(7) [OF ok] assms(3) by fastforce
next
  case (W_start len)
  then show ?thesis using rs_ok_calls(4) [OF ok, of "tx_buf s" len w 0 w'] assms(3) by auto
next
  case (W_refused len r)
  then show ?thesis using rs_ok_calls(4) [OF ok, of "tx_buf s" len w r w'] assms(3) by auto
next
  case W_blocked
  then show ?thesis using rs_ok_calls(1) [OF ok, of w False w'] assms(3) by auto
next
  case W_wake
  then show ?thesis using rs_ok_calls(1) [OF ok, of w True w'] assms(3) by auto
qed (auto simp: rs_ok_pure [OF ok])

lemma bus_inv_steps:
  assumes "rs_ok api line" and "(rs_step api)\<^sup>*\<^sup>* (pc, s, w) (pc', s', w')" and "bus_inv pc (line w)"
  shows "bus_inv pc' (line w')"
  using assms(2,3)
proof (induction "(pc', s', w')" arbitrary: pc' s' w' rule: rtranclp_induct)
  case (step y)
  obtain p t v where "y = (p, t, v)" by (cases y)
  then show ?case using bus_inv_step [OF assms(1)] step by (blast elim: rs_stepE)
qed simp

end
