(* ===== verification/Rs485Write.thy ===== *)
theory Rs485Write
  imports Rs485
begin

text \<open>
  Sending on the half-duplex bus: the interleaved execution of \<open>rs485_write\<close> keeps DE high
  exactly while a frame is sent, the function is a run of the step relation, what it
  transmits is the caller's data, and it returns whenever the hardware ends its
  transmissions. \<open>sim_rs\<close> is a concrete platform on which the hypotheses hold.
\<close>

section \<open>The wait for the end of a transmission\<close>

lemma sem_wait_induct [consumes 1, case_names wake irq]:
  assumes run: "sem_wait api s w = Some r"
    and wake: "\<And>s w w1. k_sem_take api w = (True, w1) \<Longrightarrow> P s w (s, w1)"
    and irq: "\<And>s w w1 ev w2 s1 w3 r. k_sem_take api w = (False, w1) \<Longrightarrow>
      hw_irq api w1 = Some (ev, w2) \<Longrightarrow> on_hw api ev s w2 = (s1, w3) \<Longrightarrow> P s1 w3 r \<Longrightarrow> P s w r"
  shows "P s w r"
proof -
  have "api = api \<longrightarrow> P s w r"
  proof (rule sem_wait.raw_induct [where P = "\<lambda>a s w r. a = api \<longrightarrow> P s w r", OF _ run], goal_cases)
    case (1 f a s w r)
    obtain b w1 where take: "k_sem_take a w = (b, w1)" by (cases "k_sem_take a w")
    show ?case
    proof (intro impI)
      assume a: "a = api"
      show "P s w r"
      proof (cases b)
        case True
        then have "r = (s, w1)" "k_sem_take api w = (True, w1)" using 1(2) take a by auto
        then show ?thesis using wake by simp
      next
        case False
        with 1(2) take obtain ev w2 s1 w3 where "hw_irq a w1 = Some (ev, w2)"
          and "on_hw a ev s w2 = (s1, w3)" and f: "f a s1 w3 = Some r"
          by (auto split: option.splits prod.splits)
        then show ?thesis using irq take False 1(1) [OF f] a by simp
      qed
    qed
  qed
  then show ?thesis by simp
qed

lemma sem_wait_run:
  assumes "sem_wait api s w = Some r"
  shows "\<exists>ls. runs (rs_lstep api) (W_waiting, s, w) ls (W_idle 0, r) \<and> (\<forall>n d. L_take n d \<notin> set ls)"
  using assms
proof (induction rule: sem_wait_induct)
  case (wake s w w1)
  have "runs (rs_lstep api) (W_waiting, s, w) [L_writer] (W_idle 0, s, w1)"
    using W_wake [OF wake] by (simp add: runs_Cons_iff)
  then show ?case by force
next
  case (irq s w w1 ev w2 s1 w3 r)
  from irq(4) obtain ls where "runs (rs_lstep api) (W_waiting, s1, w3) ls (W_idle 0, r)"
    "\<forall>n d. L_take n d \<notin> set ls" by blast
  moreover have "rs_lstep api (W_waiting, s, w1) (L_hw ev) (W_waiting, s1, w3)" using irq(2,3) by (rule Irq)
  ultimately have "runs (rs_lstep api) (W_waiting, s, w) (L_writer # L_hw ev # ls) (W_idle 0, r) \<and>
      (\<forall>n d. L_take n d \<notin> set (L_writer # L_hw ev # ls))"
    using W_blocked [OF irq(1)] by (auto intro: runs_Cons)
  then show ?case by blast
qed

text \<open>A completed call is a run of the writer and the hardware, without the reader.\<close>

lemma rs485_write_run:
  assumes "rs485_write api data len s w = Some (r, s', w')"
  shows "\<exists>ls. runs (rs_lstep api) (W_idle q, s, w) ls (W_idle r, s', w') \<and> (\<forall>n d. L_take n d \<notin> set ls)"
proof (cases "len > of_nat TX_BUF_SIZE")
  case True
  then have "runs (rs_lstep api) (W_idle q, s, w) [L_writer] (W_idle r, s', w')"
    using assms W_reject [OF True, of api q s w] by (auto simp: rs485_write_def runs_Cons_iff)
  then show ?thesis by force
next
  case False
  let ?s = "s\<lparr>tx_buf := mem_write (tx_buf s) 0 (take (unat len) data)\<rparr>"
  obtain ret w2 where tx: "uart_tx api (tx_buf ?s) len (gpio_pin_set_dt api 1 w) = (ret, w2)"
    by (cases "uart_tx api (tx_buf ?s) len (gpio_pin_set_dt api 1 w)")
  have "rs_lstep api (W_idle q, s, w) L_writer (W_copied len, ?s, w)"
    using False by (intro W_copy) simp
  then have start: "runs (rs_lstep api) (W_idle q, s, w) [L_writer, L_writer]
      (W_driving len, ?s, gpio_pin_set_dt api 1 w)"
    using W_drive by (rule runs_two)
  show ?thesis
  proof (cases "ret = 0")
    case True
    with False assms tx have wait: "sem_wait api ?s w2 = Some (s', w')" and r: "r = 0"
      by (auto simp: rs485_write_def Let_def split: prod.splits)
    from sem_wait_run [OF wait] obtain ls where
      ls: "runs (rs_lstep api) (W_waiting, ?s, w2) ls (W_idle 0, s', w')" "\<forall>n d. L_take n d \<notin> set ls" by blast
    have "rs_lstep api (W_driving len, ?s, gpio_pin_set_dt api 1 w) L_writer (W_waiting, ?s, w2)"
      using tx True by (intro W_start) simp
    then have "runs (rs_lstep api) (W_idle q, s, w) ([L_writer, L_writer] @ L_writer # ls) (W_idle r, s', w')"
      using start ls(1) r unfolding runs_append runs_Cons_iff [of _ _ L_writer ls] by blast
    then show ?thesis using ls(2) by force
  next
    case ret: False
    with False assms tx have r: "r = ret" "s' = ?s" "w' = gpio_pin_set_dt api 0 w2"
      by (auto simp: rs485_write_def Let_def split: prod.splits)
    have "runs (rs_lstep api) (W_driving len, ?s, gpio_pin_set_dt api 1 w) [L_writer, L_writer]
        (W_idle ret, ?s, gpio_pin_set_dt api 0 w2)"
      using W_refused [OF tx ret] W_release by (rule runs_two)
    then have "runs (rs_lstep api) (W_idle q, s, w) ([L_writer, L_writer] @ [L_writer, L_writer]) (W_idle r, s', w')"
      using start r unfolding runs_append by blast
    then show ?thesis by force
  qed
qed

lemma rs485_write_steps:
  "rs485_write api data len s w = Some (r, s', w') \<Longrightarrow> (rs_step api)\<^sup>*\<^sup>* (W_idle q, s, w) (W_idle r, s', w')"
  by (drule rs485_write_run [where q = q]) (auto dest: runs_rs_steps)

text \<open>
  What the wait transmits: the pending frame, with DE high, unless the hardware gives it up.
  \<open>goes_out l m f\<close> says that from \<open>l\<close> to \<open>m\<close> frame \<open>f\<close> met one of the two ends, once, and no
  other frame did.
\<close>

definition goes_out :: "rs_line \<Rightarrow> rs_line \<Rightarrow> u8 list \<Rightarrow> bool" where
  "goes_out l m f \<longleftrightarrow>
     ln_sent m = ln_sent l @ [(f, True)] \<and> ln_aborted m = ln_aborted l \<or>
     ln_sent m = ln_sent l \<and> ln_aborted m = ln_aborted l @ [f]"

definition stays_silent :: "rs_line \<Rightarrow> rs_line \<Rightarrow> bool" where
  "stays_silent l m \<longleftrightarrow> ln_sent m = ln_sent l \<and> ln_aborted m = ln_aborted l"

definition wait_sent :: "rs_line \<Rightarrow> rs_line \<Rightarrow> bool" where
  "wait_sent l m \<longleftrightarrow> (case ln_tx l of None \<Rightarrow> stays_silent l m | Some f \<Rightarrow> goes_out l m f)"

lemmas wait_simps = wait_sent_def goes_out_def stays_silent_def

lemma sem_wait_sent:
  assumes ok: "rs_ok api line" and run: "sem_wait api s w = Some r"
    and inv: "bus_inv W_waiting (line w)"
  shows "wait_sent (line w) (line (snd r))"
  using run inv
proof (induction rule: sem_wait_induct)
  case (wake s w w1)
  then show ?case using rs_ok_calls(1) [OF ok wake(1)] by (auto simp: wait_simps)
next
  case (irq s w w1 ev w2 s1 w3 r)
  have l1: "line w1 = line w" using rs_ok_calls(1) [OF ok irq(1)] by simp
  note i = rs_ok_calls(8) [OF ok irq(2), unfolded l1]
  have "bus_inv W_waiting (line w3)" using bus_inv_irq [OF ok _ irq(2,3)] irq.prems l1 by metis
  then have rest: "wait_sent (line w3) (line (snd r))" by (rule irq.IH)
  show ?case
  proof (cases "ends_tx ev")
    case True
    obtain f where "ln_tx (line w) = Some f" using i True by (cases ev rule: ends_tx.cases) auto
    moreover from this have "ln_tx (line w3) = None" "goes_out (line w) (line w3) f"
      using on_hw_ends_tx [OF ok True irq(3)] i True irq.prems
      by (cases ev rule: ends_tx.cases; auto simp: goes_out_def)+
    ultimately show ?thesis using rest by (auto simp: wait_simps)
  next
    case False
    then have "same_tx (line w3) (line w)"
      using on_hw_rx [OF ok False irq(3)] i irq_line_rx [OF False, of "line w"]
      by (simp add: same_tx_def)
    then show ?thesis using rest by (simp add: wait_simps same_tx_def split: option.splits)
  qed
qed

text \<open>The UART ends every transmission it starts: \<open>rem\<close> counts what can happen before.\<close>

definition tx_completes :: "'w rs_api \<Rightarrow> ('w \<Rightarrow> rs_line) \<Rightarrow> ('w \<Rightarrow> nat) \<Rightarrow> bool" where
  "tx_completes api line rem \<longleftrightarrow>
     (\<forall>w w1. ln_tx (line w) \<noteq> None \<and> k_sem_take api w = (False, w1) \<longrightarrow>
        (\<exists>ev w2. hw_irq api w1 = Some (ev, w2) \<and>
           (ends_tx ev \<or> (\<forall>s. rem (snd (on_hw api ev s w2)) < rem w))))"

lemma sem_wait_signalled:
  assumes "rs_ok api line" and "0 < ln_sem (line w)"
  shows "\<exists>w'. sem_wait api s w = Some (s, w')"
proof -
  obtain b w1 where take: "k_sem_take api w = (b, w1)" by (cases "k_sem_take api w")
  then show ?thesis
    using rs_ok_calls(1) [OF assms(1) take] assms(2) by (simp add: sem_wait.simps)
qed

lemma sem_wait_returns:
  assumes ok: "rs_ok api line" and completes: "tx_completes api line rem"
    and inv: "bus_inv W_waiting (line w)"
  shows "\<exists>s' w'. sem_wait api s w = Some (s', w')"
  using inv
proof (induction "rem w" arbitrary: s w rule: less_induct)
  case less
  show ?case
  proof (cases "0 < ln_sem (line w)")
    case True
    then show ?thesis using sem_wait_signalled [OF ok] by blast
  next
    case False
    obtain b w1 where take: "k_sem_take api w = (b, w1)" by (cases "k_sem_take api w")
    have b: "b = False" and l1: "line w1 = line w"
      using rs_ok_calls(1) [OF ok take] False by simp_all
    have "ln_tx (line w) \<noteq> None" using less.prems False by auto
    with completes take b obtain ev w2 where irq: "hw_irq api w1 = Some (ev, w2)"
      and step: "ends_tx ev \<or> (\<forall>s. rem (snd (on_hw api ev s w2)) < rem w)"
      unfolding tx_completes_def by blast
    obtain s1 w3 where cb: "on_hw api ev s w2 = (s1, w3)" by (cases "on_hw api ev s w2")
    have unfold: "sem_wait api s w = sem_wait api s1 w3"
      using take b irq cb by (subst sem_wait.simps) simp
    have inv3: "bus_inv W_waiting (line w3)"
      using bus_inv_irq [OF ok _ irq cb] less.prems l1 by metis
    show ?thesis
    proof (cases "ends_tx ev")
      case True
      have "ln_lim (line w) = 1" "ln_lim (line w2) = ln_lim (line w)"
        using less.prems rs_ok_calls(8) [OF ok irq] l1 True
        by (cases ev rule: ends_tx.cases; auto)+
      then have "0 < ln_sem (line w3)" using on_hw_ends_tx [OF ok True cb] by simp
      then show ?thesis using sem_wait_signalled [OF ok, of w3 s1] unfold by auto
    next
      case False
      then have "rem w3 < rem w" using step cb by (metis snd_conv)
      then show ?thesis using less.hyps inv3 unfold by simp
    qed
  qed
qed

lemma rs485_init_bus:
  assumes ok: "rs_ok api line" and init: "rs485_init api w = (0, w')" and "ln_tx (line w) = None"
  shows "bus_inv (W_idle q) (line w') \<and> ln_cur (line w') = Some 0 \<and> ln_next (line w') = None \<and>
    ln_ring (line w') = ln_ring (line w)"
proof -
  let ?w2 = "k_sem_init api 0 1 (gpio_pin_configure_dt api w)"
  obtain w3 where cb: "uart_callback_set api ?w2 = (0, w3)"
    and rx: "uart_rx_enable api 0 (of_nat RX_BUF_SIZE) RX_TIMEOUT_US w3 = (0, w')"
    using init by (auto simp: rs485_init_def Let_def split: prod.splits if_splits)
  show ?thesis
    using rs_ok_calls(2) [OF ok cb] rs_ok_calls(3) [OF ok rx] assms(3)
    by (simp add: rs_ok_pure [OF ok])
qed

section \<open>Properties\<close>

text \<open>
  C4. Whatever the order in which interrupts, the reading thread and the statements of
  \<open>rs485_write\<close> execute after a successful \<open>rs485_init\<close>: while a frame is on the line DE is
  high, whenever the writer is outside \<open>rs485_write\<close> DE is low, nothing is being sent and no
  stale completion is left in the semaphore, whatever the function returned.
\<close>

theorem rs485_bus_discipline:
  assumes "rs_ok api line" and "rs485_init api w = (0, w0)" and "ln_tx (line w) = None"
    and "(rs_step api)\<^sup>*\<^sup>* (W_idle q, s0, w0) (pc, s, w1)"
  shows "(ln_tx (line w1) \<noteq> None \<longrightarrow> ln_de (line w1) \<and> pc = W_waiting) \<and>
    (\<forall>r. pc = W_idle r \<longrightarrow> \<not> ln_de (line w1) \<and> ln_tx (line w1) = None \<and> ln_sem (line w1) = 0)"
proof -
  have "bus_inv (W_idle q) (line w0)" using rs485_init_bus [OF assms(1-3)] by simp
  then have "bus_inv pc (line w1)" by (rule bus_inv_steps [OF assms(1,4)])
  then show ?thesis by (cases pc) auto
qed

lemma rs485_write_cases:
  assumes "rs485_write api data len s w = Some (r, s', w')" and "unat len \<le> TX_BUF_SIZE"
  obtains (refused) w2 where "uart_tx api (mem_write (tx_buf s) 0 (take (unat len) data)) len
      (gpio_pin_set_dt api 1 w) = (r, w2)" "r \<noteq> 0" "w' = gpio_pin_set_dt api 0 w2"
  | (sent) w2 s1 where "uart_tx api (mem_write (tx_buf s) 0 (take (unat len) data)) len
      (gpio_pin_set_dt api 1 w) = (0, w2)" "r = 0" "sem_wait api s1 w2 = Some (s', w')"
  using assms
  by (auto simp: rs485_write_def Let_def word_less_nat_alt split: prod.splits if_splits)

lemma rs485_write_sent:
  assumes ok: "rs_ok api line" and inv: "bus_inv (W_idle q) (line w)"
    and run: "rs485_write api data len s w = Some (r, s', w')" and len: "unat len \<le> length data"
    and True: "unat len \<le> TX_BUF_SIZE"
  shows "if r = 0 then goes_out (line w) (line w') (take (unat len) data)
     else stays_silent (line w) (line w')"
  using run True
proof (cases rule: rs485_write_cases)
  case (refused w2)
  then show ?thesis
    using rs_ok_calls(4) [OF ok refused(1)] by (simp add: rs_ok_pure [OF ok] stays_silent_def)
next
  case (sent w2 s1)
  note tx = rs_ok_calls(4) [OF ok sent(1)]
  have "take (unat len) (mem_write (tx_buf s) 0 (take (unat len) data)) = take (unat len) data"
    using len take_mem_write_0 [of "take (unat len) data" "tx_buf s"] by (simp add: min_absorb2)
  then have l2: "line w2 = (line w)\<lparr>ln_de := True, ln_tx := Some (take (unat len) data)\<rparr>"
    using tx by (simp add: rs_ok_pure [OF ok])
  then have "bus_inv W_waiting (line w2)" using inv by simp
  from sem_wait_sent [OF ok sent(3) this] l2 sent(2) show ?thesis by (auto simp: wait_simps)
qed

lemma rs485_write_code:
  assumes "rs485_write api data len s w = Some (r, s', w')" and "unat len \<le> TX_BUF_SIZE"
  shows "r = fst (uart_tx api (mem_write (tx_buf s) 0 (take (unat len) data)) len (gpio_pin_set_dt api 1 w))"
  by (rule rs485_write_cases [OF assms]) simp_all

text \<open>
  C8. What \<open>rs485_write\<close> puts on the bus. A frame longer than the transmit buffer is refused
  with \<open>-EINVAL\<close> and nothing is touched. Otherwise the caller's bytes are handed to the
  driver with DE high, its code is returned, and the bus is released on return. A code other
  than 0 means that no frame was sent and none given up. 0 means that exactly the caller's
  bytes were sent, once, completely and with DE high, or that the hardware gave up exactly
  this frame (\<^verbatim>\<open>UART_TX_ABORTED\<close>), which the code does not tell from a completion: nothing was
  sent then.
\<close>

theorem rs485_write_outcome:
  assumes ok: "rs_ok api line" and inv: "bus_inv (W_idle q) (line w)"
    and run: "rs485_write api data len s w = Some (r, s', w')" and len: "unat len \<le> length data"
  shows "(TX_BUF_SIZE < unat len \<longrightarrow> r = - EINVAL \<and> s' = s \<and> w' = w) \<and>
    (unat len \<le> TX_BUF_SIZE \<longrightarrow>
      \<not> ln_de (line w') \<and> ln_tx (line w') = None \<and> ln_sem (line w') = 0 \<and>
      r = fst (uart_tx api (mem_write (tx_buf s) 0 (take (unat len) data)) len (gpio_pin_set_dt api 1 w)) \<and>
      (if r = 0 then
         ln_sent (line w') = ln_sent (line w) @ [(take (unat len) data, True)] \<and>
           ln_aborted (line w') = ln_aborted (line w) \<or>
         ln_sent (line w') = ln_sent (line w) \<and>
           ln_aborted (line w') = ln_aborted (line w) @ [take (unat len) data]
       else ln_sent (line w') = ln_sent (line w) \<and> ln_aborted (line w') = ln_aborted (line w)))"
proof (cases "unat len \<le> TX_BUF_SIZE")
  case False
  then show ?thesis using run by (simp add: rs485_write_def word_less_nat_alt)
next
  case True
  have "bus_inv (W_idle r) (line w')" using bus_inv_steps [OF ok rs485_write_steps [OF run] inv] .
  then have released: "\<not> ln_de (line w') \<and> ln_tx (line w') = None \<and> ln_sem (line w') = 0" by simp
  then show ?thesis
    using True rs485_write_code [OF run True] rs485_write_sent [OF ok inv run len True]
    by (simp add: goes_out_def stays_silent_def split: if_splits)
qed

lemma rs485_write_total:
  assumes ok: "rs_ok api line" and "tx_completes api line rem" and inv: "bus_inv (W_idle q) (line w)"
  shows "\<exists>r s' w'. rs485_write api data len s w = Some (r, s', w')"
proof (cases "len > of_nat TX_BUF_SIZE")
  case False
  let ?s = "s\<lparr>tx_buf := mem_write (tx_buf s) 0 (take (unat len) data)\<rparr>"
  obtain ret w2 where tx: "uart_tx api (tx_buf ?s) len (gpio_pin_set_dt api 1 w) = (ret, w2)"
    by (cases "uart_tx api (tx_buf ?s) len (gpio_pin_set_dt api 1 w)")
  show ?thesis
  proof (cases "ret = 0")
    case True
    have "bus_inv W_waiting (line w2)"
      using rs_ok_calls(4) [OF ok tx] True inv by (simp add: rs_ok_pure [OF ok])
    from sem_wait_returns [OF ok assms(2) this, of ?s] show ?thesis
      using False tx True by (auto simp: rs485_write_def Let_def)
  qed (use False tx in \<open>simp add: rs485_write_def Let_def\<close>)
qed (simp add: rs485_write_def)

text \<open>
  A UART that accepts a transmission when none is running, ends it, and never aborts it.
\<close>

definition tx_reliable :: "'w rs_api \<Rightarrow> ('w \<Rightarrow> rs_line) \<Rightarrow> ('w \<Rightarrow> nat) \<Rightarrow> bool" where
  "tx_reliable api line rem \<longleftrightarrow> tx_completes api line rem \<and>
     (\<forall>w ev w1. hw_irq api w = Some (ev, w1) \<longrightarrow> ev \<noteq> Uart_irq UART_TX_ABORTED) \<and>
     (\<forall>d n w. ln_tx (line w) = None \<longrightarrow> fst (uart_tx api d n w) = 0)"

lemma tx_reliableD:
  assumes "tx_reliable api line rem"
  shows "tx_completes api line rem" and "hw_irq api w = Some (ev, w1) \<Longrightarrow> ev \<noteq> Uart_irq UART_TX_ABORTED"
    and "ln_tx (line w) = None \<Longrightarrow> uart_tx api d n w = (r, w1) \<Longrightarrow> r = 0"
  using assms unfolding tx_reliable_def by (blast, blast, metis fst_conv)

lemma sem_wait_sends:
  assumes ok: "rs_ok api line" and tx: "tx_reliable api line rem" and run: "sem_wait api s w = Some r"
    and inv: "bus_inv W_waiting (line w)"
  shows "ln_sent (line (snd r)) =
    ln_sent (line w) @ (case ln_tx (line w) of None \<Rightarrow> [] | Some f \<Rightarrow> [(f, True)])"
  using run inv
proof (induction rule: sem_wait_induct)
  case (wake s w w1)
  then show ?case using rs_ok_calls(1) [OF ok wake(1)] by auto
next
  case (irq s w w1 ev w2 s1 w3 r)
  have l1: "line w1 = line w" using rs_ok_calls(1) [OF ok irq(1)] by simp
  note i = rs_ok_calls(8) [OF ok irq(2), unfolded l1]
  have "bus_inv W_waiting (line w3)" using bus_inv_irq [OF ok _ irq(2,3)] irq.prems l1 by metis
  note rest = irq.IH [OF this]
  show ?case
  proof (cases "ends_tx ev")
    case True
    then have "ev = Uart_irq UART_TX_DONE"
      using tx_reliableD(2) [OF tx irq(2)] by (cases ev rule: ends_tx.cases) auto
    then show ?thesis using on_hw_ends_tx [OF ok True irq(3)] i irq.prems rest by auto
  next
    case False
    then have "same_tx (line w3) (line w)"
      using on_hw_rx [OF ok False irq(3)] i irq_line_rx [OF False, of "line w"]
      by (simp add: same_tx_def)
    then show ?thesis using rest by (simp add: same_tx_def)
  qed
qed

text \<open>On such a UART a frame that fits the transmit buffer is always sent.\<close>

lemma rs485_write_sends:
  assumes ok: "rs_ok api line" and tx: "tx_reliable api line rem" and inv: "bus_inv (W_idle q) (line w)"
    and len: "unat len \<le> length data" "unat len \<le> TX_BUF_SIZE"
  obtains s' w' where "rs485_write api data len s w = Some (0, s', w')"
    and "ln_sent (line w') = ln_sent (line w) @ [(take (unat len) data, True)]"
proof -
  obtain r s' w' where run: "rs485_write api data len s w = Some (r, s', w')"
    using rs485_write_total [OF ok tx_reliableD(1) [OF tx] inv] by blast
  have idle: "ln_tx (line (gpio_pin_set_dt api 1 w)) = None" using inv by (simp add: rs_ok_pure [OF ok])
  show thesis
    using run len(2)
  proof (cases rule: rs485_write_cases)
    case (refused w2)
    then show ?thesis using tx_reliableD(3) [OF tx idle refused(1)] by simp
  next
    case (sent w2 s1)
    note start = rs_ok_calls(4) [OF ok sent(1)]
    have "take (unat len) (mem_write (tx_buf s) 0 (take (unat len) data)) = take (unat len) data"
      using len(1) take_mem_write_0 [of "take (unat len) data" "tx_buf s"] by (simp add: min_absorb2)
    then have l2: "line w2 = (line w)\<lparr>ln_de := True, ln_tx := Some (take (unat len) data)\<rparr>"
      using start by (simp add: rs_ok_pure [OF ok])
    then have "bus_inv W_waiting (line w2)" using inv by simp
    from sem_wait_sends [OF ok tx sent(3) this] show ?thesis using that run sent(2) l2 by simp
  qed
qed

text \<open>
  C22. \<open>rs485_write\<close> waits without a timeout, and still always returns when the UART ends
  every transmission it starts: a signalled completion is never lost. When the UART also
  accepts a transmission while none is running and aborts none, a frame that fits the
  transmit buffer is sent: the call returns 0 and the caller's bytes went out with DE high.
\<close>

theorem rs485_write_returns:
  assumes ok: "rs_ok api line" and "tx_completes api line rem" and inv: "bus_inv (W_idle q) (line w)"
  shows "\<exists>r s' w'. rs485_write api data len s w = Some (r, s', w') \<and>
    (tx_reliable api line rem \<and> unat len \<le> length data \<and> unat len \<le> TX_BUF_SIZE \<longrightarrow>
      r = 0 \<and> ln_sent (line w') = ln_sent (line w) @ [(take (unat len) data, True)])"
proof (cases "tx_reliable api line rem \<and> unat len \<le> length data \<and> unat len \<le> TX_BUF_SIZE")
  case True
  then show ?thesis using rs485_write_sends [OF ok _ inv] by metis
qed (use rs485_write_total [OF assms] in blast)

section \<open>Witnesses\<close>

text \<open>
  A platform that raises the queued events in order when they are possible, ends a
  transmission with \<open>UART_TX_DONE\<close> when nothing else is queued, and aborts none.
\<close>

record rs_sim =
  sm_line :: rs_line
  sm_evs :: "hw_event list"
  sm_ms :: nat

definition idle_line :: rs_line where
  "idle_line = \<lparr>ln_de = True, ln_tx = None, ln_sent = [], ln_aborted = [], ln_sem = 1, ln_lim = 7, ln_ring = [],
     ln_cur = None, ln_next = None\<rparr>"

definition sim_irq :: "rs_sim \<Rightarrow> (hw_event \<times> rs_sim) option" where
  "sim_irq w =
     (case sm_evs w of
        ev # evs \<Rightarrow>
          if irq_ok ev (sm_line w) \<and> ev \<noteq> Uart_irq UART_TX_ABORTED then Some (ev, w\<lparr>sm_line := irq_line ev (sm_line w), sm_evs := evs\<rparr>)
          else if ln_tx (sm_line w) \<noteq> None then
            Some (Uart_irq UART_TX_DONE, w\<lparr>sm_line := irq_line (Uart_irq UART_TX_DONE) (sm_line w)\<rparr>)
          else None
      | [] \<Rightarrow>
          if ln_tx (sm_line w) \<noteq> None then
            Some (Uart_irq UART_TX_DONE, w\<lparr>sm_line := irq_line (Uart_irq UART_TX_DONE) (sm_line w)\<rparr>)
          else None)"

definition sim_rs :: "rs_sim rs_api" where
  "sim_rs =
     \<lparr>rs_device_is_ready = (\<lambda>d w. True),
      gpio_pin_configure_dt = (\<lambda>w. w\<lparr>sm_line := (sm_line w)\<lparr>ln_de := False\<rparr>\<rparr>),
      gpio_pin_set_dt = (\<lambda>v w. w\<lparr>sm_line := (sm_line w)\<lparr>ln_de := (v \<noteq> 0)\<rparr>\<rparr>),
      k_sem_init = (\<lambda>c l w. w\<lparr>sm_line := (sm_line w)\<lparr>ln_sem := c, ln_lim := l\<rparr>\<rparr>),
      k_sem_give = (\<lambda>w. w\<lparr>sm_line := (sm_line w)\<lparr>
        ln_sem := min (ln_lim (sm_line w)) (Suc (ln_sem (sm_line w)))\<rparr>\<rparr>),
      k_sem_take = (\<lambda>w. (0 < ln_sem (sm_line w),
        w\<lparr>sm_line := (sm_line w)\<lparr>ln_sem := ln_sem (sm_line w) - 1\<rparr>\<rparr>)),
      uart_callback_set = (\<lambda>w. (0, w)),
      uart_rx_enable = (\<lambda>b n t w. (0, w\<lparr>sm_line := (sm_line w)\<lparr>ln_cur := Some b, ln_next := None\<rparr>\<rparr>)),
      uart_rx_buf_rsp = (\<lambda>b n w. if ln_cur (sm_line w) \<noteq> None \<and> ln_next (sm_line w) = None
        then w\<lparr>sm_line := (sm_line w)\<lparr>ln_next := Some b\<rparr>\<rparr> else w),
      uart_tx = (\<lambda>d n w. if ln_tx (sm_line w) = None
        then (0, w\<lparr>sm_line := (sm_line w)\<lparr>ln_tx := Some (take (unat n) d)\<rparr>\<rparr>) else (- 16, w)),
      ring_buf_put = (\<lambda>d w.
        let n = min (length d) (RX_RING_SIZE - length (ln_ring (sm_line w)))
        in (of_nat n, w\<lparr>sm_line := (sm_line w)\<lparr>ln_ring := ln_ring (sm_line w) @ take n d\<rparr>\<rparr>)),
      ring_buf_get = (\<lambda>n w.
        let d = take (unat n) (ln_ring (sm_line w))
        in (of_nat (length d), d,
            w\<lparr>sm_line := (sm_line w)\<lparr>ln_ring := drop (unat n) (ln_ring (sm_line w))\<rparr>\<rparr>)),
      k_uptime_get = (\<lambda>w. (of_nat (min (sm_ms w) (2 ^ 63 - 1)), w)),
      k_sleep_ms = (\<lambda>n w. w\<lparr>sm_ms := sm_ms w + n\<rparr>),
      k_ticks_to_ms_floor64 = (\<lambda>t. t div 10),
      hw_irq = sim_irq,
      hw_burst = (\<lambda>w. length (sm_evs w))\<rparr>"

lemma sim_irq_ok: "sim_irq w = Some (ev, w') \<Longrightarrow>
    irq_ok ev (sm_line w) \<and> sm_line w' = irq_line ev (sm_line w) \<and> length (sm_evs w') \<le> length (sm_evs w) \<and>
    (length (sm_evs w') < length (sm_evs w) \<or> ends_tx ev)"
  by (auto simp: sim_irq_def split: list.splits if_splits)

lemma unat_of_small: "n < 2 ^ 32 \<Longrightarrow> unat (of_nat n :: 32 word) = n"
  by (simp add: unsigned_of_nat take_bit_nat_eq_self)

lemma sim_rs_ok: "rs_ok sim_rs sm_line"
proof -
  have "unat (of_nat (min a (512 - b)) :: 32 word) = min a (512 - b)" for a b
    by (intro unat_of_small le_less_trans [OF min.cobounded2]) simp
  moreover have "unat (of_nat (min a (unat (n :: 32 word))) :: 32 word) = min a (unat n)" for a n
    using unat32_lt [of n] by (intro unat_of_small) (simp add: min_def)
  ultimately show ?thesis
    by (auto simp: rs_ok_def gpio_ok_def sem_ok_def uart_ok_def ring_ok_def clock_neutral_def hw_ok_def
        sim_rs_def Let_def dest: sim_irq_ok)
qed

lemma sim_on_hw_evs: "sm_evs (snd (on_hw sim_rs ev s w)) = sm_evs w"
  by (simp add: on_hw_def uart_cb_def sim_rs_def Let_def split: hw_event.split uart_event.split)

lemma sim_tx_completes: "tx_completes sim_rs sm_line (length \<circ> sm_evs)"
proof -
  have "\<exists>ev w2. sim_irq w = Some (ev, w2)" if "ln_tx (sm_line w) \<noteq> None" for w
    using that by (auto simp: sim_irq_def split: list.splits)
  moreover have "ends_tx ev \<or> length (sm_evs (snd (on_hw sim_rs ev s w2))) < length (sm_evs w)"
    if "sim_irq w = Some (ev, w2)" for w ev w2 s
    using sim_irq_ok [OF that] sim_on_hw_evs [of ev s w2] by auto
  ultimately have step: "\<exists>ev w2. sim_irq w1 = Some (ev, w2) \<and>
      (ends_tx ev \<or> (\<forall>s. length (sm_evs (snd (on_hw sim_rs ev s w2))) < length (sm_evs w)))"
    if "ln_tx (sm_line w1) \<noteq> None" and "sm_evs w1 = sm_evs w" for w w1
    using that by metis
  show ?thesis
    unfolding tx_completes_def
  proof (intro allI impI)
    fix w w1
    assume a: "ln_tx (sm_line w) \<noteq> None \<and> k_sem_take sim_rs w = (False, w1)"
    then have "ln_tx (sm_line w1) \<noteq> None" "sm_evs w1 = sm_evs w" by (auto simp: sim_rs_def)
    from step [OF this] show "\<exists>ev w2. hw_irq sim_rs w1 = Some (ev, w2) \<and>
        (ends_tx ev \<or> (\<forall>s. (length \<circ> sm_evs) (snd (on_hw sim_rs ev s w2)) < (length \<circ> sm_evs) w))"
      by (simp add: sim_rs_def)
  qed
qed

lemma sim_tx_reliable: "tx_reliable sim_rs sm_line (length \<circ> sm_evs)"
  using sim_tx_completes
  by (auto simp: tx_reliable_def) (auto simp: sim_rs_def sim_irq_def split: list.splits if_splits)

definition sim_boot :: rs_sim where
  "sim_boot = \<lparr>sm_line = idle_line, sm_evs = [Uart_irq UART_RX_BUF_REQUEST], sm_ms = 0\<rparr>"

definition sim_up :: rs_sim where
  "sim_up = sim_boot\<lparr>sm_line := idle_line\<lparr>ln_de := False, ln_sem := 0, ln_lim := 1, ln_cur := Some 0\<rparr>\<rparr>"

lemma sim_rs_init: "rs485_init sim_rs sim_boot = (0, sim_up)"
  by (simp add: rs485_init_def sim_rs_def sim_boot_def sim_up_def idle_line_def)

lemma sim_boot_quiet: "ln_tx (sm_line sim_boot) = None"
  by (simp add: sim_boot_def idle_line_def)

lemma sim_up_bus: "bus_inv (W_idle 0) (sm_line sim_up)"
  by (simp add: sim_up_def idle_line_def)

lemma sim_write_returns_0:
  "\<exists>s' w'. rs485_write sim_rs [0x11, 0x22] 2 rs_state0 sim_up = Some (0, s', w')"
proof -
  have "\<exists>s' w'. sem_wait sim_rs s (sim_up\<lparr>sm_line := (sm_line sim_up)\<lparr>ln_de := True, ln_tx := Some f\<rparr>\<rparr>)
    = Some (s', w')" for s f
    by (rule sem_wait_returns [OF sim_rs_ok sim_tx_completes]) (simp add: sim_up_def idle_line_def)
  then show ?thesis
    by (auto simp: rs485_write_def Let_def sim_rs_def sim_up_def idle_line_def)
qed

theorem rs485_bus_discipline_witness:
  "\<exists>s w1. (rs_step sim_rs)\<^sup>*\<^sup>* (W_idle 0, rs_state0, sim_up) (W_idle 0, s, w1) \<and>
    \<not> ln_de (sm_line w1) \<and> ln_tx (sm_line w1) = None \<and> ln_sem (sm_line w1) = 0"
proof -
  obtain s w1 where run: "rs485_write sim_rs [0x11, 0x22] 2 rs_state0 sim_up = Some (0, s, w1)"
    using sim_write_returns_0 by blast
  note steps = rs485_write_steps [OF run, of 0]
  show ?thesis using rs485_bus_discipline [OF sim_rs_ok sim_rs_init sim_boot_quiet steps] steps by blast
qed

theorem rs485_write_outcome_witness:
  "\<exists>s w1. rs485_write sim_rs [0x11, 0x22] 2 rs_state0 sim_up = Some (0, s, w1) \<and>
    (ln_sent (sm_line w1), ln_aborted (sm_line w1)) \<in> {([([0x11, 0x22], True)], []), ([], [[0x11, 0x22]])}"
proof -
  obtain s w1 where run: "rs485_write sim_rs [0x11, 0x22] 2 rs_state0 sim_up = Some (0, s, w1)"
    using sim_write_returns_0 by blast
  have "ln_sent (sm_line sim_up) = []" "ln_aborted (sm_line sim_up) = []" by (simp_all add: sim_up_def idle_line_def)
  with rs485_write_outcome [OF sim_rs_ok sim_up_bus run] run show ?thesis by auto
qed

theorem rs485_write_returns_witness:
  "\<exists>s' w'. rs485_write sim_rs [0x11] 1 rs_state0 sim_up = Some (0, s', w') \<and>
    ln_sent (sm_line w') = [([0x11], True)]"
proof -
  have "ln_sent (sm_line sim_up) = []" by (simp add: sim_up_def idle_line_def)
  then show ?thesis
    using rs485_write_returns [OF sim_rs_ok sim_tx_completes sim_up_bus, of "[0x11]" 1 rs_state0] sim_tx_reliable
    by auto
qed

end
