(* ===== verification/ByteSource.thy ===== *)
theory ByteSource
  imports Prelude
begin

text \<open>
  The interface between the frame assembly of the Modbus service and the RS485 service: a
  non-blocking read that fills the front of a buffer. \<open>queue\<close> is what has been received and
  not read, \<open>left\<close> bounds what can still arrive; neither is visible to the client.
  \<open>drain\<close> is the polling loop of the client: read until nothing is left, handing every
  chunk to a loop body.
\<close>

partial_function (option) drain ::
  "('s \<Rightarrow> (int \<times> u8 list \<times> 's) option) \<Rightarrow> ('m \<Rightarrow> int \<Rightarrow> u8 list \<Rightarrow> 's \<Rightarrow> 'm \<times> 's) \<Rightarrow> 'm \<Rightarrow> 's
     \<Rightarrow> ('m \<times> 's) option" where
  "drain rd body m s =
     (case rd s of
        None \<Rightarrow> None
      | Some (r, tmp, s1) \<Rightarrow>
          if r \<le> 0 then Some (m, s1)
          else (case body m r tmp s1 of (m2, s2) \<Rightarrow> drain rd body m2 s2))"

lemma drain_induct [consumes 1, case_names stop step]:
  assumes run: "drain rd body m s = Some r"
    and stop: "\<And>m s n tmp s1. rd s = Some (n, tmp, s1) \<Longrightarrow> n \<le> 0 \<Longrightarrow> P m s (m, s1)"
    and step: "\<And>m s n tmp s1 m2 s2 r. rd s = Some (n, tmp, s1) \<Longrightarrow> 0 < n \<Longrightarrow>
      body m n tmp s1 = (m2, s2) \<Longrightarrow> P m2 s2 r \<Longrightarrow> P m s r"
  shows "P m s r"
proof -
  have "rd = rd \<longrightarrow> body = body \<longrightarrow> P m s r"
  proof (rule drain.raw_induct
      [where P = "\<lambda>a b m s r. a = rd \<longrightarrow> b = body \<longrightarrow> P m s r", OF _ run], goal_cases)
    case (1 f a b m s r)
    show ?case
    proof (intro impI)
      assume eqs: "a = rd" "b = body"
      obtain n tmp s1 where rd: "rd s = Some (n, tmp, s1)"
        using 1(2) eqs by (auto split: option.splits)
      obtain m2 s2 where body: "body m n tmp s1 = (m2, s2)" by (cases "body m n tmp s1")
      show "P m s r"
      proof (cases "n \<le> 0")
        case True
        then have "r = (m, s1)" using 1(2) rd eqs by simp
        then show ?thesis using stop [OF rd True] by simp
      next
        case False
        then have "f a b m2 s2 = Some r" using 1(2) rd body eqs by simp
        from 1(1) [OF this] show ?thesis using step [OF rd _ body] False eqs by simp
      qed
    qed
  qed
  then show ?thesis by simp
qed

locale byte_source =
  fixes rd :: "'s \<Rightarrow> usize \<Rightarrow> (int \<times> u8 list \<times> 's) option"
    and queue :: "'s \<Rightarrow> u8 list"
    and left :: "'s \<Rightarrow> nat"
    and inv :: "'s \<Rightarrow> bool"
  assumes rd_returns: "inv s \<Longrightarrow> unat n < 2 ^ 31 \<Longrightarrow> \<exists>r b t. rd s n = Some (r, b, t)"
    and rd_count: "inv s \<Longrightarrow> unat n < 2 ^ 31 \<Longrightarrow> rd s n = Some (r, b, t) \<Longrightarrow>
      0 \<le> r \<and> r \<le> int (unat n) \<and> length b = unat n"
    and rd_fifo: "inv s \<Longrightarrow> unat n < 2 ^ 31 \<Longrightarrow> rd s n = Some (r, b, t) \<Longrightarrow>
      \<exists>arrived. queue s @ arrived = take (nat r) b @ queue t \<and> length arrived + left t \<le> left s"
    and rd_drains: "inv s \<Longrightarrow> unat n < 2 ^ 31 \<Longrightarrow> rd s n = Some (r, b, t) \<Longrightarrow>
      queue t = [] \<or> r = int (unat n)"
    and rd_inv: "inv s \<Longrightarrow> unat n < 2 ^ 31 \<Longrightarrow> rd s n = Some (r, b, t) \<Longrightarrow> inv t"
begin

lemma rd_measure:
  assumes "inv s" and "unat n < 2 ^ 31" and "rd s n = Some (r, b, t)"
  shows "length (queue t) + left t + nat r \<le> length (queue s) + left s"
proof -
  obtain arrived where q: "queue s @ arrived = take (nat r) b @ queue t"
    and l: "length arrived + left t \<le> left s" using rd_fifo [OF assms] by blast
  have "length (take (nat r) b) = nat r" using rd_count [OF assms] by (simp add: nat_le_iff)
  with arg_cong [OF q, of length] l show ?thesis by simp
qed

text \<open>What the loop body keeps, the polling loop keeps.\<close>

lemma drain_keeps:
  assumes n: "unat n < 2 ^ 31"
    and body: "\<And>m r b s m' s'. inv s \<Longrightarrow> P m s \<Longrightarrow> 0 < r \<Longrightarrow> nat r \<le> length b \<Longrightarrow>
      body m r b s = (m', s') \<Longrightarrow> inv s' \<and> P m' s'"
    and read: "\<And>m s r b s'. inv s \<Longrightarrow> P m s \<Longrightarrow> rd s n = Some (r, b, s') \<Longrightarrow> P m s'"
    and "inv s" and "P m s" and "drain (\<lambda>s. rd s n) body m s = Some (m', s')"
  shows "inv s' \<and> P m' s'"
proof -
  have "inv s \<longrightarrow> P m s \<longrightarrow> inv (snd (m', s')) \<and> P (fst (m', s')) (snd (m', s'))"
    using assms(6)
  proof (induction rule: drain_induct)
    case (stop m s k tmp s1)
    then show ?case using rd_inv [OF _ n] read by simp
  next
    case (step m s k tmp s1 m2 s2 r)
    have "inv s2 \<and> P m2 s2" if i: "inv s" "P m s"
    proof -
      have "nat k \<le> length tmp" using rd_count [OF i(1) n step(1)] by (simp add: nat_le_iff)
      then show ?thesis using body [OF rd_inv [OF i(1) n step(1)] read [OF i step(1)] step(2) _ step(3)] by blast
    qed
    then show ?case using step.IH by blast
  qed
  then show ?thesis using assms(4,5) by simp
qed

text \<open>The polling loop ends when finitely many bytes can arrive.\<close>

lemma drain_returns:
  assumes n: "unat n < 2 ^ 31"
    and body: "\<And>m r b s. inv s \<Longrightarrow> inv (snd (body m r b s)) \<and>
      queue (snd (body m r b s)) = queue s \<and> left (snd (body m r b s)) = left s"
    and "inv s"
  shows "\<exists>m' t. drain (\<lambda>s. rd s n) body m s = Some (m', t)"
  using assms(3)
proof (induction "length (queue s) + left s" arbitrary: m s rule: less_induct)
  case less
  obtain r b t where r: "rd s n = Some (r, b, t)" using rd_returns [OF less.prems n] by blast
  show ?case
  proof (cases "r \<le> 0")
    case True
    then show ?thesis using r by (subst drain.simps) simp
  next
    case False
    obtain m2 t2 where b: "body m r b t = (m2, t2)" by (cases "body m r b t")
    have t: "inv t" using rd_inv [OF less.prems n r] .
    have t2: "inv t2" "queue t2 = queue t" "left t2 = left t" using body [OF t, of m r b] b by simp_all
    have "length (queue t2) + left t2 < length (queue s) + left s"
      using rd_measure [OF less.prems n r] False t2 by simp
    from less.hyps [OF this t2(1)] show ?thesis using r False b by (subst drain.simps) simp
  qed
qed

text \<open>
  Whatever arrives meanwhile: when the loop body appends its chunk to an accumulator and
  then drops some of the front at most, the accumulator and the queue together stay a
  suffix of all the bytes there have been.
\<close>

lemma drain_suffix:
  assumes n: "unat n < 2 ^ 31"
    and body: "\<And>m r b s. inv s \<Longrightarrow> inv (snd (body m r b s)) \<and>
      queue (snd (body m r b s)) = queue s \<and> left (snd (body m r b s)) = left s"
    and acc: "\<And>m r b s. P m \<Longrightarrow> 0 < r \<Longrightarrow> nat r \<le> length b \<Longrightarrow>
      P (fst (body m r b s)) \<and> (\<exists>pre. acc m @ take (nat r) b = pre @ acc (fst (body m r b s)))"
    and "drain (\<lambda>s. rd s n) body m s = Some (m', t)" and "inv s" and "P m"
  shows "P m' \<and> inv t \<and> (\<exists>arrived pre. acc m @ queue s @ arrived = pre @ acc m' @ queue t)"
proof -
  have "inv s \<longrightarrow> P m \<longrightarrow> P (fst (m', t)) \<and> inv (snd (m', t)) \<and>
      (\<exists>arrived pre. acc m @ queue s @ arrived = pre @ acc (fst (m', t)) @ queue (snd (m', t)))"
    using assms(4)
  proof (induction rule: drain_induct)
    case (stop m s k tmp s1)
    have "\<exists>arrived. queue s @ arrived = queue s1" if "inv s"
      using rd_fifo [OF that n stop(1)] stop(2) by auto
    then show ?case using rd_inv [OF _ n stop(1)] by (metis append_Nil fst_conv snd_conv)
  next
    case (step m s k tmp s1 m2 s2 r)
    show ?case
    proof (intro impI)
      assume i: "inv s" "P m"
      note s1 = rd_inv [OF i(1) n step(1)]
      obtain a1 where a1: "queue s @ a1 = take (nat k) tmp @ queue s1"
        using rd_fifo [OF i(1) n step(1)] by blast
      have s2: "inv s2" "queue s2 = queue s1" using body [OF s1, of m k tmp] step(3) by simp_all
      have "nat k \<le> length tmp" using rd_count [OF i(1) n step(1)] by (simp add: nat_le_iff)
      then obtain p1 where p1: "P m2" "acc m @ take (nat k) tmp = p1 @ acc m2"
        using acc [OF i(2) step(2), of tmp s1] step(3) by auto
      obtain a2 p2 where r: "P (fst r)" "inv (snd r)" "acc m2 @ queue s2 @ a2 = p2 @ acc (fst r) @ queue (snd r)"
        using step.IH s2(1) p1(1) by blast
      have "acc m @ queue s @ (a1 @ a2) = (acc m @ take (nat k) tmp) @ queue s1 @ a2"
        using a1 by (simp flip: append_assoc)
      also have "\<dots> = (p1 @ p2) @ acc (fst r) @ queue (snd r)" using p1(2) r(3) s2(2) by simp
      finally show "P (fst r) \<and> inv (snd r) \<and>
          (\<exists>arrived pre. acc m @ queue s @ arrived = pre @ acc (fst r) @ queue (snd r))"
        using r by blast
    qed
  qed
  then show ?thesis using assms(5,6) by simp
qed

text \<open>
  With nothing more to arrive, a loop body that appends its chunk to an accumulator, as
  long as it fits, has appended exactly what was queued.
\<close>

lemma drain_collects:
  assumes n: "0 < unat n" "unat n < 2 ^ 31"
    and body: "\<And>m r b s. inv s \<Longrightarrow> inv (snd (body m r b s)) \<and>
      queue (snd (body m r b s)) = queue s \<and> left (snd (body m r b s)) = left s"
    and app: "\<And>m r b s. P m \<Longrightarrow> 0 < r \<Longrightarrow> nat r \<le> length b \<Longrightarrow> length (acc m) + nat r \<le> cap \<Longrightarrow>
      P (fst (body m r b s)) \<and> acc (fst (body m r b s)) = acc m @ take (nat r) b"
    and "inv s" and "left s = 0" and "length (acc m) + length (queue s) \<le> cap" and "P m"
    and "drain (\<lambda>s. rd s n) body m s = Some (m', t)"
  shows "acc m' = acc m @ queue s \<and> P m' \<and> queue t = [] \<and> inv t \<and> left t = 0"
  using assms(5-)
proof (induction "length (queue s)" arbitrary: m s rule: less_induct)
  case less
  obtain r b u where r: "rd s n = Some (r, b, u)" using rd_returns [OF less.prems(1) n(2)] by blast
  note count = rd_count [OF less.prems(1) n(2) r]
  have u: "inv u" using rd_inv [OF less.prems(1) n(2) r] .
  have q: "queue s = take (nat r) b @ queue u" and l: "left u = 0"
    using rd_fifo [OF less.prems(1) n(2) r] less.prems(2) by auto
  show ?case
  proof (cases "r \<le> 0")
    case True
    have "r \<noteq> int (unat n)" using True n(1) by linarith
    then have "queue u = []" using rd_drains [OF less.prems(1) n(2) r] by blast
    moreover have "m' = m" "t = u" using less.prems(5) r True by (subst (asm) drain.simps; simp)+
    ultimately show ?thesis using q True less.prems(4) u l by simp
  next
    case False
    obtain m2 u2 where b: "body m r b u = (m2, u2)" by (cases "body m r b u")
    have u2: "inv u2" "queue u2 = queue u" "left u2 = left u" using body [OF u, of m r b] b by simp_all
    have len: "length (queue s) = nat r + length (queue u)"
      using q count by (simp add: nat_le_iff)
    have m2: "P m2 \<and> acc m2 = acc m @ take (nat r) b"
      using app [OF less.prems(4), of r b u] False count len less.prems(3) b by (simp add: nat_le_iff)
    have "drain (\<lambda>s. rd s n) body m2 u2 = Some (m', t)"
      using less.prems(5) r False b by (subst (asm) drain.simps) simp
    moreover have "length (queue u2) < length (queue s)" using len u2 False by simp
    moreover have "length (acc m2) + length (queue u2) \<le> cap"
      using m2 len u2 less.prems(3) count by (simp add: nat_le_iff)
    ultimately show ?thesis using less.hyps [of u2 m2] u2 l m2 q by simp
  qed
qed

end

end
