(* ===== verification/Rs485Read.thy ===== *)
theory Rs485Read
  imports Rs485Write ByteSource
begin

text \<open>
  Receiving: the reading thread takes bytes from the ring in the order in which the UART
  callback put them there, a non-blocking read always returns, a timed read returns when
  the clock advances, and the two DMA buffers alternate until the driver disables
  reception. The interpretation \<open>rs485\<close> shows that the non-blocking read is a
  \<open>byte_source\<close>.
\<close>

section \<open>The read loop\<close>

lemma read_loop_induct [consumes 1, case_names full get empty expired sleep]:
  assumes run: "rs485_read_loop api ticks end_ms max_len buf tot s w = Some r"
    and full: "\<And>buf tot s w. \<not> tot < max_len \<Longrightarrow> P buf tot s w (tot, buf, s, w)"
    and get: "\<And>buf tot s w s1 w1 len d w2 r. tot < max_len \<Longrightarrow>
      deliver api (hw_burst api w) s w = (s1, w1) \<Longrightarrow>
      ring_buf_get api (max_len - tot) w1 = (len, d, w2) \<Longrightarrow> 0 < len \<Longrightarrow>
      P (mem_write buf (unat tot) d) (tot + len) s1 w2 r \<Longrightarrow> P buf tot s w r"
    and empty: "\<And>buf tot s w s1 w1 d w2. tot < max_len \<Longrightarrow>
      deliver api (hw_burst api w) s w = (s1, w1) \<Longrightarrow>
      ring_buf_get api (max_len - tot) w1 = (0, d, w2) \<Longrightarrow> ticks = K_NO_WAIT \<Longrightarrow>
      P buf tot s w (tot, buf, s1, w2)"
    and expired: "\<And>buf tot s w s1 w1 d w2 now w3. tot < max_len \<Longrightarrow>
      deliver api (hw_burst api w) s w = (s1, w1) \<Longrightarrow>
      ring_buf_get api (max_len - tot) w1 = (0, d, w2) \<Longrightarrow> ticks \<noteq> K_NO_WAIT \<Longrightarrow>
      k_uptime_get api w2 = (now, w3) \<Longrightarrow> P buf tot s w (tot, buf, s1, w3)"
    and sleep: "\<And>buf tot s w s1 w1 d w2 now w3 r. tot < max_len \<Longrightarrow>
      deliver api (hw_burst api w) s w = (s1, w1) \<Longrightarrow>
      ring_buf_get api (max_len - tot) w1 = (0, d, w2) \<Longrightarrow> ticks \<noteq> K_NO_WAIT \<Longrightarrow>
      k_uptime_get api w2 = (now, w3) \<Longrightarrow>
      P buf tot s1 (k_sleep_ms api 1 w3) r \<Longrightarrow> P buf tot s w r"
  shows "P buf tot s w r"
proof -
  let ?P = "\<lambda>a ti e m b to s w r. a = api \<longrightarrow> ti = ticks \<longrightarrow> m = max_len \<longrightarrow> P b to s w r"
  have "api = api \<longrightarrow> ticks = ticks \<longrightarrow> max_len = max_len \<longrightarrow> P buf tot s w r"
  proof (rule rs485_read_loop.raw_induct [where P = ?P, OF _ run], goal_cases)
    case (1 f a ti e m b to s w r)
    obtain s1 w1 len d w2 where del: "deliver a (hw_burst a w) s w = (s1, w1)"
      and ring: "ring_buf_get a (m - to) w1 = (len, d, w2)"
      by (cases "deliver a (hw_burst a w) s w", cases "ring_buf_get a (m - to) (snd (deliver a (hw_burst a w) s w))") auto
    obtain now w3 where up: "k_uptime_get a w2 = (now, w3)" by (cases "k_uptime_get a w2")
    show ?case
    proof (intro impI)
      assume eqs: "a = api" "ti = ticks" "m = max_len"
      consider "\<not> to < m" "r = (to, b, s, w)"
        | "to < m" "0 < len" "f a ti e m (mem_write b (unat to) d) (to + len) s1 w2 = Some r"
        | "to < m" "len = 0" "ti = K_NO_WAIT" "r = (to, b, s1, w2)"
        | "to < m" "len = 0" "ti \<noteq> K_NO_WAIT" "r = (to, b, s1, w3)"
        | "to < m" "len = 0" "ti \<noteq> K_NO_WAIT" "f a ti e m b to s1 (k_sleep_ms a 1 w3) = Some r"
      proof -
        have "(if to < m then
            if len > 0 then f a ti e m (mem_write b (unat to) d) (to + len) s1 w2
            else if ti = K_NO_WAIT then Some (to, b, s1, w2)
            else if sint now > sint e then Some (to, b, s1, w3)
            else f a ti e m b to s1 (k_sleep_ms a 1 w3)
          else Some (to, b, s, w)) = Some r"
          using 1(2) unfolding del ring up prod.case .
        then show thesis
          using that unfolding word_gt_0 by (metis option.inject)
      qed
      then show "P b to s w r"
      proof cases
        case 1
        then show ?thesis using full eqs by simp
      next
        case 2
        then show ?thesis using get [OF _ del [unfolded eqs] ring [unfolded eqs]] 1(1) [OF 2(3)] eqs by simp
      next
        case 3
        then show ?thesis using empty [OF _ del [unfolded eqs]] ring eqs by simp
      next
        case 4
        then show ?thesis using expired [OF _ del [unfolded eqs]] ring up eqs by simp
      next
        case 5
        then show ?thesis using sleep [OF _ del [unfolded eqs]] ring up 1(1) [OF 5(4)] eqs by simp
      qed
    qed
  qed
  then show ?thesis by simp
qed

lemma on_hw_ring:
  assumes ok: "rs_ok api line" and cb: "on_hw api ev s w = (s', w')"
  shows "\<exists>arrived. ln_ring (line w') = ln_ring (line w) @ arrived"
  using cb
  by (auto simp: on_hw_def uart_cb_def Let_def rs_ok_pure [OF ok] split: hw_event.splits uart_event.splits prod.splits
      if_splits dest!: rs_ok_calls(3,5) [OF ok])

lemma irq_line_ring [simp]: "ln_ring (irq_line ev l) = ln_ring l"
  by (cases "(ev, l)" rule: irq_line.cases) simp_all

lemma deliver_ring:
  assumes ok: "rs_ok api line"
  shows "deliver api n s w = (s', w') \<Longrightarrow> \<exists>arrived. ln_ring (line w') = ln_ring (line w) @ arrived"
proof (induction n arbitrary: s w)
  case (Suc n)
  show ?case
  proof (cases "hw_irq api w")
    case (Some p)
    obtain ev w1 s1 w2 where irq: "hw_irq api w = Some (ev, w1)" and cb: "on_hw api ev s w1 = (s1, w2)"
      using Some by (cases p, cases "on_hw api (fst p) s (snd p)") auto
    have "deliver api n s1 w2 = (s', w')" using Suc.prems irq cb by simp
    from Suc.IH [OF this] on_hw_ring [OF ok cb] rs_ok_calls(8) [OF ok irq]
    show ?thesis by auto
  qed (use Suc.prems in simp)
qed simp

lemma ring_get_word:
  assumes ok: "rs_ok api line" and get: "ring_buf_get api (m - t) w = (len, d, w')" and "t < m"
  shows "unat (t + len) = unat t + length d \<and> unat t + length d \<le> unat m \<and>
    ln_ring (line w) = d @ ln_ring (line w') \<and>
    (length d < unat m - unat t \<longrightarrow> ln_ring (line w') = [])"
proof -
  have mt: "unat (m - t) = unat m - unat t" using assms(3) by (simp add: unat_sub word_le_nat_alt word_less_nat_alt)
  note g = rs_ok_calls(6) [OF ok get, unfolded mt]
  have "length d \<le> unat m - unat t" using g by simp
  moreover have "unat t < unat m" using assms(3) by (simp add: word_less_nat_alt)
  ultimately have le: "unat t + length d \<le> unat m" by simp
  then have "unat t + unat len < 2 ^ 32" using g unat32_lt [of m] by simp
  then have "unat (t + len) = unat t + unat len" by (simp add: unat_word_ariths)
  then show ?thesis using g le by auto
qed

text \<open>
  What one execution of the loop does to the caller's buffer and to the ring; \<open>t\<close> bytes were
  in the buffer before.
\<close>

definition read_post ::
  "('w \<Rightarrow> rs_line) \<Rightarrow> usize \<Rightarrow> bool \<Rightarrow> u8 list \<Rightarrow> nat \<Rightarrow> 'w \<Rightarrow> usize \<times> u8 list \<times> rs_state \<times> 'w \<Rightarrow> bool" where
  "read_post line max_len nowait buf t w r \<longleftrightarrow>
     (case r of (t', buf', s', w') \<Rightarrow>
        t \<le> unat t' \<and> unat t' \<le> unat max_len \<and> length buf' = length buf \<and>
        take t buf' = take t buf \<and> drop (unat t') buf' = drop (unat t') buf \<and>
        (\<exists>arrived. ln_ring (line w) @ arrived = drop t (take (unat t') buf') @ ln_ring (line w')) \<and>
        (nowait \<longrightarrow> ln_ring (line w') = [] \<or> t' = max_len))"

lemma read_postI:
  "t \<le> unat t' \<Longrightarrow> unat t' \<le> unat max_len \<Longrightarrow> length buf' = length buf \<Longrightarrow> take t buf' = take t buf \<Longrightarrow>
   drop (unat t') buf' = drop (unat t') buf \<Longrightarrow>
   ln_ring (line w) @ arrived = drop t (take (unat t') buf') @ ln_ring (line w') \<Longrightarrow>
   (nowait \<Longrightarrow> ln_ring (line w') = [] \<or> t' = max_len) \<Longrightarrow>
   read_post line max_len nowait buf t w (t', buf', s', w')"
  by (auto simp: read_post_def)

lemma read_post_arrive:
  assumes "ln_ring (line w1) = ln_ring (line w) @ arrived" and "read_post line m nw buf t w1 r"
  shows "read_post line m nw buf t w r"
  using assms by (cases r) (auto simp: read_post_def)

lemma mem_write_more:
  assumes "take (t + length d) b' = take (t + length d) (mem_write buf t d)" and "t + length d \<le> k"
    and "t + length d \<le> length buf"
  shows "take t b' = take t buf \<and> drop t (take k b') = d @ drop (t + length d) (take k b')"
proof -
  let ?n = "t + length d" and ?x = "drop (t + length d) (take k b')"
  have w: "take ?n b' = take t buf @ d"
    using assms(1,3) by (simp add: take_mem_write)
  have "take t b' = take t (take ?n b')" by simp
  also have "\<dots> = take t buf" using w assms(3) by simp
  finally have front: "take t b' = take t buf" .
  have "take k b' = (take t buf @ d) @ ?x"
    using append_take_drop_id [of ?n "take k b'"] w assms(2) by (simp add: min_absorb1)
  then have "drop t (take k b') = drop t ((take t buf @ d) @ ?x)" by (rule arg_cong)
  also have "\<dots> = d @ ?x" using assms(3) by simp
  finally show ?thesis using front by blast
qed

lemma read_loop_post:
  assumes ok: "rs_ok api line"
    and run: "rs485_read_loop api ticks end_ms max_len buf tot s w = Some r"
    and "unat tot \<le> unat max_len" and "unat max_len \<le> length buf"
  shows "read_post line max_len (ticks = K_NO_WAIT) buf (unat tot) w r"
  using run assms(3,4)
proof (induction rule: read_loop_induct)
  case (full buf tot s w)
  then have "tot = max_len" by (simp add: word_less_nat_alt word_unat_eq_iff)
  with full show ?case by (auto intro!: read_postI [where arrived = "[]"])
next
  case (get buf tot s w s1 w1 len d w2 r)
  obtain arrived where arr: "ln_ring (line w1) = ln_ring (line w) @ arrived"
    using deliver_ring [OF ok get(2)] by blast
  note g = ring_get_word [OF ok get(3,1)]
  have len: "unat tot + length d \<le> length buf" using g get.prems by simp
  have rest: "read_post line max_len (ticks = K_NO_WAIT) (mem_write buf (unat tot) d)
      (unat tot + length d) w2 r"
    using get.IH g get.prems len by simp
  obtain t' buf' s' w' where r: "r = (t', buf', s', w')" by (cases r)
  have lt: "unat tot + length d \<le> unat t'" using rest by (simp add: r read_post_def)
  have tb: "take (unat tot + length d) buf' = take (unat tot + length d) (mem_write buf (unat tot) d)"
    using rest by (simp add: r read_post_def)
  note m = mem_write_more [OF tb lt len]
  have dr: "drop (unat t') (mem_write buf (unat tot) d) = drop (unat t') buf"
    using lt len by (simp add: mem_write_def)
  from rest obtain more where
    "ln_ring (line w2) @ more = drop (unat tot + length d) (take (unat t') buf') @ ln_ring (line w')"
    by (auto simp: r read_post_def)
  then have "ln_ring (line w1) @ more = drop (unat tot) (take (unat t') buf') @ ln_ring (line w')"
    using g m by simp
  then have "read_post line max_len (ticks = K_NO_WAIT) buf (unat tot) w1 r"
    using rest m dr len unfolding r
    by (intro read_postI) (auto simp: read_post_def)
  with arr show ?case by (rule read_post_arrive)
next
  case (empty buf tot s w s1 w1 d w2)
  obtain arrived where arr: "ln_ring (line w1) = ln_ring (line w) @ arrived"
    using deliver_ring [OF ok empty(2)] by blast
  note g = ring_get_word [OF ok empty(3,1)]
  have "d = []" using g by simp
  then have "ln_ring (line w2) = []" "ln_ring (line w1) = ln_ring (line w2)"
    using g empty(1) by (auto simp: word_less_nat_alt)
  then show ?case using empty arr by (auto intro!: read_postI [where arrived = "[]"])
next
  case (expired buf tot s w s1 w1 d w2 now w3)
  obtain arrived where arr: "ln_ring (line w1) = ln_ring (line w) @ arrived"
    using deliver_ring [OF ok expired(2)] by blast
  have "ln_ring (line w1) = ln_ring (line w3)"
    using ring_get_word [OF ok expired(3,1)] rs_ok_calls(7) [OF ok expired(5)] by simp
  then show ?case using expired arr by (intro read_postI [where arrived = arrived]) auto
next
  case (sleep buf tot s w s1 w1 d w2 now w3 r)
  obtain arrived where arr: "ln_ring (line w1) = ln_ring (line w) @ arrived"
    using deliver_ring [OF ok sleep(2)] by blast
  have "ln_ring (line (k_sleep_ms api 1 w3)) = ln_ring (line w) @ arrived"
    using ring_get_word [OF ok sleep(3,1)] rs_ok_calls(7) [OF ok sleep(5)] arr
    by (simp add: rs_ok_pure [OF ok])
  then show ?case using sleep.IH [OF sleep.prems] by (rule read_post_arrive)
qed

text \<open>Termination: without waiting always, with a timeout when the clock advances.\<close>

definition clock_runs :: "'w rs_api \<Rightarrow> ('w \<Rightarrow> int) \<Rightarrow> bool" where
  "clock_runs api now \<longleftrightarrow>
     (\<forall>w t w'. k_uptime_get api w = (t, w') \<longrightarrow> sint t = min (now w) (2 ^ 63 - 1) \<and> now w \<le> now w') \<and>
     (\<forall>w. now w + 1 \<le> now (k_sleep_ms api 1 w)) \<and>
     (\<forall>n s w. now w \<le> now (snd (deliver api n s w))) \<and>
     (\<forall>n w. now w \<le> now (snd (snd (ring_buf_get api n w))))"

lemma read_loop_returns:
  assumes ok: "rs_ok api line"
    and wait: "ticks = K_NO_WAIT \<or> clock_runs api now \<and> sint end_ms < 2 ^ 63 - 1"
  shows "\<exists>r. rs485_read_loop api ticks end_ms max_len buf tot s w = Some r"
proof (induction "unat max_len - unat tot" arbitrary: buf tot s w rule: less_induct)
  case (less tot)
  note more = less
  show ?case
  proof (induction "nat (sint end_ms + 1 - now w)" arbitrary: s w rule: less_induct)
    case (less w)
  show ?case
  proof (cases "tot < max_len")
    case True
    obtain s1 w1 where del: "deliver api (hw_burst api w) s w = (s1, w1)"
      by (cases "deliver api (hw_burst api w) s w")
    obtain len d w2 where get: "ring_buf_get api (max_len - tot) w1 = (len, d, w2)"
      by (cases "ring_buf_get api (max_len - tot) w1")
    obtain t w3 where up: "k_uptime_get api w2 = (t, w3)" by (cases "k_uptime_get api w2")
    note g = ring_get_word [OF ok get True]
    have lt: "unat tot < unat max_len" using True by (simp add: word_less_nat_alt)
    show ?thesis
    proof (cases "len > 0")
      case pos: True
      then have "0 < length d" using rs_ok_calls(6) [OF ok get] by (simp add: word_less_nat_alt)
      then have "unat max_len - unat (tot + len) < unat max_len - unat tot"
        using conjunct1 [OF g] lt \<open>0 < length d\<close> by linarith
      then show ?thesis using more True del get pos
        by (subst rs485_read_loop.simps) simp
    next
      case False
      consider "ticks = K_NO_WAIT" | "ticks \<noteq> K_NO_WAIT" "sint t > sint end_ms"
        | "ticks \<noteq> K_NO_WAIT" "\<not> sint t > sint end_ms" by blast
      then show ?thesis
      proof cases
        case 3
        then have clk: "clock_runs api now" and e: "sint end_ms < 2 ^ 63 - 1" using wait by simp_all
        have "now w \<le> now w2" using clk del get unfolding clock_runs_def by (metis snd_conv order_trans)
        moreover have "sint t = min (now w2) (2 ^ 63 - 1)" "now w2 \<le> now w3"
          "now w3 + 1 \<le> now (k_sleep_ms api 1 w3)"
          using clk up unfolding clock_runs_def by blast+
        ultimately have "nat (sint end_ms + 1 - now (k_sleep_ms api 1 w3)) < nat (sint end_ms + 1 - now w)"
          using 3 e by (simp add: min_def split: if_splits)
        then show ?thesis using less True del get False up 3
          by (subst rs485_read_loop.simps) simp
      qed (use True del get False up in \<open>subst rs485_read_loop.simps, simp\<close>)+
    qed
  qed (subst rs485_read_loop.simps, simp)
  qed
qed

section \<open>The service as a byte source\<close>

text \<open>A read that does not wait, into a buffer of its own, on the pair of both states.\<close>

definition rs485_read_nowait ::
  "'w rs_api \<Rightarrow> rs_state \<times> 'w \<Rightarrow> usize \<Rightarrow> (int \<times> u8 list \<times> rs_state \<times> 'w) option" where
  "rs485_read_nowait api sw n =
     rs485_read api (replicate (unat n) 0) n K_NO_WAIT (fst sw) (snd sw)"

definition rs_queue :: "('w \<Rightarrow> rs_line) \<Rightarrow> rs_state \<times> 'w \<Rightarrow> u8 list" where
  "rs_queue line sw = ln_ring (line (snd sw))"

text \<open>At most \<open>left w\<close> further bytes enter the ring.\<close>

definition arrivals :: "'w rs_api \<Rightarrow> ('w \<Rightarrow> rs_line) \<Rightarrow> ('w \<Rightarrow> nat) \<Rightarrow> bool" where
  "arrivals api line left \<longleftrightarrow>
     (\<forall>n s w s' w'. deliver api n s w = (s', w') \<longrightarrow>
        length (ln_ring (line w')) + left w' \<le> length (ln_ring (line w)) + left w) \<and>
     (\<forall>n w. left (snd (snd (ring_buf_get api n w))) = left w) \<and>
     (\<forall>w. left (snd (k_uptime_get api w)) = left w)"

lemma read_end_line:
  assumes "rs_ok api line" and "rs485_read_end api ticks w = (e, w')"
  shows "line w' = line w"
  using assms(2) rs_ok_calls(7) [OF assms(1)]
  by (fastforce simp: rs485_read_end_def Let_def split: if_splits prod.splits)

lemma sint_unat_small: "unat (x :: 32 word) < 2 ^ 31 \<Longrightarrow> sint x = int (unat x)"
  by (simp add: sint32_cases)

lemma rs485_read_post:
  assumes ok: "rs_ok api line" and "unat max_len < 2 ^ 31" and "unat max_len \<le> length buf"
    and run: "rs485_read api buf max_len ticks s w = Some (r, buf', s', w')"
  shows "0 \<le> r \<and> nat r \<le> unat max_len \<and> length buf' = length buf \<and>
    drop (nat r) buf' = drop (nat r) buf \<and>
    (\<exists>arrived. ln_ring (line w) @ arrived = take (nat r) buf' @ ln_ring (line w')) \<and>
    (ticks = K_NO_WAIT \<longrightarrow> ln_ring (line w') = [] \<or> r = int (unat max_len))"
proof -
  obtain e w1 t where e: "rs485_read_end api ticks w = (e, w1)"
    and loop: "rs485_read_loop api ticks e max_len buf 0 s w1 = Some (t, buf', s', w')" and r: "r = sint t"
    using run by (auto simp: rs485_read_def split: prod.splits)
  have post: "read_post line max_len (ticks = K_NO_WAIT) buf 0 w1 (t, buf', s', w')"
    using read_loop_post [OF ok loop] assms(3) by simp
  then have "unat t < 2 ^ 31" using assms(2) by (simp add: read_post_def)
  then have "r = int (unat t)" using r by (simp add: sint_unat_small)
  then show ?thesis using post read_end_line [OF ok e] by (auto simp: read_post_def)
qed

lemma read_loop_left:
  assumes arr: "arrivals api line left" and ok: "rs_ok api line" and nw: "ticks = K_NO_WAIT"
    and run: "rs485_read_loop api ticks e max_len buf tot s w = Some r"
  shows "length (ln_ring (line (snd (snd (snd r))))) + left (snd (snd (snd r))) + unat (fst r)
    \<le> length (ln_ring (line w)) + left w + unat tot"
  using run
proof (induction rule: read_loop_induct)
  case (get buf tot s w s1 w1 len d w2 r)
  have "length (ln_ring (line w1)) + left w1 \<le> length (ln_ring (line w)) + left w"
    using arr get(2) unfolding arrivals_def by blast
  moreover have "left w2 = left w1" using arr get(3) unfolding arrivals_def by (metis snd_conv)
  ultimately show ?case using get.IH ring_get_word [OF ok get(3,1)] by simp
next
  case (empty buf tot s w s1 w1 d w2)
  have "length (ln_ring (line w1)) + left w1 \<le> length (ln_ring (line w)) + left w"
    using arr empty(2) unfolding arrivals_def by blast
  moreover have "left w2 = left w1" using arr empty(3) unfolding arrivals_def by (metis snd_conv)
  ultimately show ?case using ring_get_word [OF ok empty(3,1)] by simp
qed (simp_all add: nw)

lemma rs485_read_nowait_post:
  assumes arr: "arrivals api line left" and ok: "rs_ok api line" and n: "unat n < 2 ^ 31"
    and run: "rs485_read_nowait api sw n = Some (r, b, sw')"
  shows "0 \<le> r \<and> r \<le> int (unat n) \<and> length b = unat n \<and>
    (\<exists>arrived. rs_queue line sw @ arrived = take (nat r) b @ rs_queue line sw' \<and>
       length arrived + left (snd sw') \<le> left (snd sw)) \<and>
    (rs_queue line sw' = [] \<or> r = int (unat n))"
proof -
  obtain s' w' where sw': "sw' = (s', w')" by (cases sw')
  have run': "rs485_read api (replicate (unat n) 0) n K_NO_WAIT (fst sw) (snd sw) = Some (r, b, s', w')"
    using run by (simp add: rs485_read_nowait_def sw')
  note post = rs485_read_post [OF ok n _ run', simplified]
  obtain e w1 t where e: "rs485_read_end api K_NO_WAIT (snd sw) = (e, w1)"
    and loop: "rs485_read_loop api K_NO_WAIT e n (replicate (unat n) 0) 0 (fst sw) w1 = Some (t, b, s', w')"
    and r: "r = sint t"
    using run' by (auto simp: rs485_read_def split: prod.splits)
  have "unat t \<le> unat n" using read_loop_post [OF ok loop] by (simp add: read_post_def)
  then have t: "nat r = unat t" using r n by (simp add: sint_unat_small)
  have left1: "left w1 = left (snd sw)"
    using arr e unfolding arrivals_def rs485_read_end_def
    by (auto simp: Let_def split: prod.splits) (metis snd_conv)
  have le: "length (ln_ring (line w')) + left w' + nat r \<le> length (ln_ring (line (snd sw))) + left (snd sw)"
    using read_loop_left [OF arr ok refl loop] t left1 read_end_line [OF ok e] by simp
  obtain arrived where q: "ln_ring (line (snd sw)) @ arrived = take (nat r) b @ ln_ring (line w')"
    using post by blast
  have "length (take (nat r) b) = nat r" using post by simp
  then have "length arrived + left w' \<le> left (snd sw)"
    using arg_cong [OF q, of length] le by simp
  then show ?thesis using post q unfolding rs_queue_def sw' by (auto simp: nat_le_iff)
qed

interpretation rs485: byte_source "rs485_read_nowait api" "rs_queue line" "left \<circ> snd"
    "\<lambda>sw. rs_ok api line \<and> arrivals api line left"
  for api :: "'w rs_api" and line and left
proof (unfold_locales, goal_cases)
  case (1 s n)
  then show ?case
    using read_loop_returns [of api line K_NO_WAIT]
    by (force simp: rs485_read_nowait_def rs485_read_def split: prod.splits)
qed (use rs485_read_nowait_post in \<open>fastforce simp: nat_le_iff\<close>)+

end
