(* ===== verification/PointBank.thy ===== *)
theory PointBank
  imports Prelude
begin

text \<open>
  The interface between the Modbus callbacks and the point database: a bank of points
  addressed by a 16-bit address, of which the first \<open>count\<close> exist. A point holds a value
  or is unreadable (\<open>None\<close>). The point database has two banks, the holding registers and
  the coils; both are shown to satisfy the laws below, and the facts proved from the laws
  hold for both.
\<close>

text \<open>
  A bank as an array \<open>f\<close> of \<open>n\<close> points: what a read may return, and what a write may do.
  A write that fails may leave its own point in any state.
\<close>

definition bank_read :: "(nat \<Rightarrow> 'v option) \<Rightarrow> nat \<Rightarrow> u16 \<Rightarrow> int \<Rightarrow> 'v option \<Rightarrow> bool" where
  "bank_read f n a r x \<longleftrightarrow>
     (if n \<le> unat a then r = - ENOTSUP \<and> x = None
      else x = f (unat a) \<and> r = (if x = None then - ENOENT else 0))"

definition bank_write ::
  "(nat \<Rightarrow> 'v option) \<Rightarrow> nat \<Rightarrow> u16 \<Rightarrow> 'v \<Rightarrow> int \<Rightarrow> (nat \<Rightarrow> 'v option) \<Rightarrow> bool" where
  "bank_write f n a v r g \<longleftrightarrow>
     (if n \<le> unat a then r = - ENOTSUP \<and> g = f
      else (\<forall>i. i \<noteq> unat a \<longrightarrow> g i = f i) \<and> (r = 0 \<longrightarrow> g = f(unat a := Some v)))"

locale point_bank =
  fixes get :: "'s \<Rightarrow> u16 \<Rightarrow> int \<times> 'v option \<times> 's"
    and put :: "'s \<Rightarrow> u16 \<Rightarrow> 'v \<Rightarrow> int \<times> 's"
    and count :: nat
    and point :: "'s \<Rightarrow> nat \<Rightarrow> 'v option"
    and inv :: "'s \<Rightarrow> bool"
  assumes get_absent: "inv s \<Longrightarrow> count \<le> unat a \<Longrightarrow> get s a = (- ENOTSUP, None, s)"
    and put_absent: "inv s \<Longrightarrow> count \<le> unat a \<Longrightarrow> put s a v = (- ENOTSUP, s)"
    and get_point: "inv s \<Longrightarrow> unat a < count \<Longrightarrow> get s a = (r, x, t) \<Longrightarrow>
      x = point s (unat a) \<and> r = (if x = None then - ENOENT else 0)"
    and get_frame: "inv s \<Longrightarrow> get s a = (r, x, t) \<Longrightarrow> inv t \<and> point t = point s"
    and put_inv: "inv s \<Longrightarrow> put s a v = (r, t) \<Longrightarrow> inv t"
    and put_point: "inv s \<Longrightarrow> put s a v = (0, t) \<Longrightarrow> point t (unat a) = Some v"
    and put_frame: "inv s \<Longrightarrow> put s a v = (r, t) \<Longrightarrow> i \<noteq> unat a \<Longrightarrow> point t i = point s i"
begin

lemma put_ok_in_range: "inv s \<Longrightarrow> put s a v = (0, t) \<Longrightarrow> unat a < count"
  using put_absent [of s a v] by (cases "unat a < count") auto

lemma get_after_put:
  assumes "inv s" and "put s a v = (0, t)"
  shows "fst (get t a) = 0 \<and> fst (snd (get t a)) = Some v"
proof -
  obtain r x u where g: "get t a = (r, x, u)" by (cases "get t a")
  have "inv t" using assms by (rule put_inv)
  then show ?thesis
    using get_point [OF _ put_ok_in_range [OF assms] g] put_point [OF assms] g by simp
qed

lemma get_after_other_put:
  assumes "inv s" and "put s a v = (r, t)" and "b \<noteq> a"
  shows "fst (get t b) = fst (get s b) \<and> fst (snd (get t b)) = fst (snd (get s b))"
proof -
  have inv: "inv t" using assms(1,2) by (rule put_inv)
  have b: "unat b \<noteq> unat a" using assms(3) by (simp add: word_unat_eq_iff)
  show ?thesis
  proof (cases "unat b < count")
    case True
    obtain r1 x1 u1 r2 x2 u2 where g: "get s b = (r1, x1, u1)" "get t b = (r2, x2, u2)"
      by (cases "get s b", cases "get t b")
    show ?thesis
      using get_point [OF assms(1) True g(1)] get_point [OF inv True g(2)]
        put_frame [OF assms(1,2) b] g by simp
  next
    case False
    then show ?thesis using get_absent [OF assms(1)] get_absent [OF inv] by (simp add: not_less)
  qed
qed

text \<open>The bank as an array: a successful write is an update of the abstract points.\<close>

lemma put_refines_update:
  assumes "inv s" and "put s a v = (0, t)"
  shows "point t = (point s)(unat a := Some v)"
  using put_point [OF assms] put_frame [OF assms] by auto

lemma get_refines_read:
  assumes "inv s" and "get s a = (r, x, t)"
  shows "bank_read (point s) count a r x \<and> point t = point s"
  using get_absent [OF assms(1), of a] get_point [OF assms(1) _ assms(2)] get_frame [OF assms] assms(2)
  by (auto simp: bank_read_def not_le)

lemma put_refines_write:
  assumes "inv s" and "put s a v = (r, t)"
  shows "bank_write (point s) count a v r (point t)"
  using put_absent [OF assms(1), of a v] put_frame [OF assms] put_refines_update [OF assms(1), of a v t] assms(2)
  by (auto simp: bank_write_def)

end

end
