(* ===== verification/PointsDb.thy ===== *)
theory PointsDb
  imports PointBank
begin

text \<open>
  The point database, \<^verbatim>\<open>ATS-M7/src/modbus_points_db.c\<close>: the Modbus holding
  registers and coils as keys of a FlashDB key-value store. FlashDB and the kernel mutex
  are not part of the repository: \<open>fdb_api\<close> has one field per function of them that the
  file calls, over an arbitrary state \<open>'w\<close> of everything below, and \<open>fdb_ok\<close> is the
  documented behaviour of the store. The interpretations \<open>holding\<close> and \<open>coil\<close> show
  that the two banks are \<open>point_bank\<close>s.
\<close>

section \<open>The platform interface\<close>

text \<open>FlashDB's result codes, those the source distinguishes by name and the others.\<close>

datatype fdb_err = FDB_NO_ERR | FDB_ERASE_ERR | FDB_READ_ERR | FDB_WRITE_ERR | FDB_PART_NOT_FOUND
  | FDB_KV_NAME_ERR | FDB_KV_NAME_EXIST | FDB_SAVED_FULL | FDB_INIT_FAILED | FDB_OTHER_ERR

datatype kvdb_ctrl = FDB_KVDB_CTRL_SET_LOCK | FDB_KVDB_CTRL_SET_UNLOCK

record 'w fdb_api =
  k_mutex_init :: "'w \<Rightarrow> 'w"
  k_mutex_lock :: "'w \<Rightarrow> 'w"
  k_mutex_unlock :: "'w \<Rightarrow> 'w"
  fdb_kvdb_control :: "kvdb_ctrl \<Rightarrow> ('w \<Rightarrow> 'w) \<Rightarrow> 'w \<Rightarrow> 'w"
  fdb_kvdb_init :: "string \<Rightarrow> string \<Rightarrow> (string \<times> u8 list) list \<Rightarrow> 'w \<Rightarrow> fdb_err \<times> 'w"
  fdb_kv_get_blob :: "string \<Rightarrow> usize \<Rightarrow> 'w \<Rightarrow> usize \<times> u8 list \<times> 'w"
    \<comment> \<open>length read, bytes stored at the blob's start\<close>
  fdb_kv_set_blob :: "string \<Rightarrow> u8 list \<Rightarrow> 'w \<Rightarrow> fdb_err \<times> 'w"

section \<open>Addresses, keys and defaults\<close>

abbreviation (input) MODBUS_POINT_HR_COUNT :: nat where "MODBUS_POINT_HR_COUNT \<equiv> 4"
abbreviation (input) MODBUS_POINT_COIL_COUNT :: nat where "MODBUS_POINT_COIL_COUNT \<equiv> 2"

definition g_holding_keys :: "string list" where
  "g_holding_keys = [''hr0'', ''hr1'', ''hr2'', ''hr3'']"

definition g_coil_keys :: "string list" where
  "g_coil_keys = [''coil0'', ''coil1'']"

definition g_default_nodes :: "(string \<times> u8 list) list" where
  "g_default_nodes =
     [(''hr0'', le16_bytes 1), (''hr1'', le16_bytes 100), (''hr2'', le16_bytes 500),
      (''hr3'', le16_bytes 0x1234), (''coil0'', [1]), (''coil1'', [0])]"

section \<open>Operations\<close>

record db_state =
  g_db_ready :: bool

definition kvdb_lock :: "'w fdb_api \<Rightarrow> 'w \<Rightarrow> 'w" where
  "kvdb_lock api w = k_mutex_lock api w"

definition kvdb_unlock :: "'w fdb_api \<Rightarrow> 'w \<Rightarrow> 'w" where
  "kvdb_unlock api w = k_mutex_unlock api w"

definition fdb_to_errno :: "fdb_err \<Rightarrow> int" where
  "fdb_to_errno err =
     (case err of
        FDB_NO_ERR \<Rightarrow> 0
      | FDB_PART_NOT_FOUND \<Rightarrow> - ENOENT
      | FDB_SAVED_FULL \<Rightarrow> - ENOSPC
      | FDB_ERASE_ERR \<Rightarrow> - EIO
      | FDB_READ_ERR \<Rightarrow> - EIO
      | FDB_WRITE_ERR \<Rightarrow> - EIO
      | FDB_KV_NAME_ERR \<Rightarrow> - EINVAL
      | FDB_KV_NAME_EXIST \<Rightarrow> - EINVAL
      | FDB_INIT_FAILED \<Rightarrow> - EFAULT
      | FDB_OTHER_ERR \<Rightarrow> - EFAULT)"

definition modbus_points_db_init :: "'w fdb_api \<Rightarrow> db_state \<Rightarrow> 'w \<Rightarrow> int \<times> db_state \<times> 'w" where
  "modbus_points_db_init api s w =
     (if g_db_ready s then (0, s, w)
      else
        let w1 = k_mutex_init api w;
            w2 = fdb_kvdb_control api FDB_KVDB_CTRL_SET_LOCK (kvdb_lock api) w1;
            w3 = fdb_kvdb_control api FDB_KVDB_CTRL_SET_UNLOCK (kvdb_unlock api) w2;
            (ret, w4) = fdb_kvdb_init api ''modbus'' ''flashdb'' g_default_nodes w3 in
        if ret \<noteq> FDB_NO_ERR then (fdb_to_errno ret, s, w4)
        else (0, s\<lparr>g_db_ready := True\<rparr>, w4))"

text \<open>
  The getters return the value they store through the out parameter; \<open>nonnull\<close> is the
  caller's pointer being non-null.
\<close>

definition modbus_points_db_get_holding ::
  "'w fdb_api \<Rightarrow> db_state \<Rightarrow> u16 \<Rightarrow> bool \<Rightarrow> 'w \<Rightarrow> int \<times> u16 option \<times> 'w" where
  "modbus_points_db_get_holding api s addr nonnull w =
     (if \<not> g_db_ready s then (- EACCES, None, w)
      else if \<not> nonnull then (- EINVAL, None, w)
      else if addr \<ge> of_nat MODBUS_POINT_HR_COUNT then (- ENOTSUP, None, w)
      else
        let (rd_len, data, w1) = fdb_kv_get_blob api (g_holding_keys ! unat addr) 2 w;
            tmp = mem_write (le16_bytes 0) 0 data in
        if rd_len \<noteq> 2 then (- ENOENT, None, w1)
        else (0, Some (of_le16_bytes tmp), w1))"

definition modbus_points_db_set_holding ::
  "'w fdb_api \<Rightarrow> db_state \<Rightarrow> u16 \<Rightarrow> u16 \<Rightarrow> 'w \<Rightarrow> int \<times> 'w" where
  "modbus_points_db_set_holding api s addr v w =
     (if \<not> g_db_ready s then (- EACCES, w)
      else if addr \<ge> of_nat MODBUS_POINT_HR_COUNT then (- ENOTSUP, w)
      else
        let (ret, w1) = fdb_kv_set_blob api (g_holding_keys ! unat addr) (le16_bytes v) w in
        (fdb_to_errno ret, w1))"

definition modbus_points_db_get_coil ::
  "'w fdb_api \<Rightarrow> db_state \<Rightarrow> u16 \<Rightarrow> bool \<Rightarrow> 'w \<Rightarrow> int \<times> bool option \<times> 'w" where
  "modbus_points_db_get_coil api s addr nonnull w =
     (if \<not> g_db_ready s then (- EACCES, None, w)
      else if \<not> nonnull then (- EINVAL, None, w)
      else if addr \<ge> of_nat MODBUS_POINT_COIL_COUNT then (- ENOTSUP, None, w)
      else
        let (rd_len, data, w1) = fdb_kv_get_blob api (g_coil_keys ! unat addr) 1 w;
            tmp = mem_write [0] 0 data in
        if rd_len \<noteq> 1 then (- ENOENT, None, w1)
        else (0, Some (hd tmp \<noteq> 0), w1))"

definition modbus_points_db_set_coil ::
  "'w fdb_api \<Rightarrow> db_state \<Rightarrow> u16 \<Rightarrow> bool \<Rightarrow> 'w \<Rightarrow> int \<times> 'w" where
  "modbus_points_db_set_coil api s addr st w =
     (let v = (if st then 1 else 0) in
      if \<not> g_db_ready s then (- EACCES, w)
      else if addr \<ge> of_nat MODBUS_POINT_COIL_COUNT then (- ENOTSUP, w)
      else
        let (ret, w1) = fdb_kv_set_blob api (g_coil_keys ! unat addr) [v] w in
        (fdb_to_errno ret, w1))"

section \<open>The documented store\<close>

definition fdb_get_ok :: "'w fdb_api \<Rightarrow> ('w \<Rightarrow> string \<rightharpoonup> u8 list) \<Rightarrow> bool" where
  "fdb_get_ok api kv \<longleftrightarrow>
     (\<forall>key n w len d w'. fdb_kv_get_blob api key n w = (len, d, w') \<longrightarrow>
        kv w' = kv w \<and>
        d = (case kv w key of None \<Rightarrow> [] | Some v \<Rightarrow> take (unat n) v) \<and> unat len = length d)"

definition fdb_set_ok :: "'w fdb_api \<Rightarrow> ('w \<Rightarrow> string \<rightharpoonup> u8 list) \<Rightarrow> bool" where
  "fdb_set_ok api kv \<longleftrightarrow>
     (\<forall>key v w e w'. fdb_kv_set_blob api key v w = (e, w') \<longrightarrow>
        (\<forall>k. k \<noteq> key \<longrightarrow> kv w' k = kv w k) \<and> (e = FDB_NO_ERR \<longrightarrow> kv w' key = Some v))"

definition fdb_init_ok :: "'w fdb_api \<Rightarrow> ('w \<Rightarrow> string \<rightharpoonup> u8 list) \<Rightarrow> bool" where
  "fdb_init_ok api kv \<longleftrightarrow>
     (\<forall>w. kv (k_mutex_init api w) = kv w) \<and>
     (\<forall>c f w. kv (fdb_kvdb_control api c f w) = kv w) \<and>
     (\<forall>nm path defaults w w'. fdb_kvdb_init api nm path defaults w = (FDB_NO_ERR, w') \<longrightarrow>
        kv w' = (if kv w = Map.empty then map_of defaults else kv w))"

definition fdb_ok :: "'w fdb_api \<Rightarrow> ('w \<Rightarrow> string \<rightharpoonup> u8 list) \<Rightarrow> bool" where
  "fdb_ok api kv \<longleftrightarrow> fdb_get_ok api kv \<and> fdb_set_ok api kv \<and> fdb_init_ok api kv"

lemma fdb_ok_get:
  assumes "fdb_ok api kv" and "fdb_kv_get_blob api key n w = (len, d, w')"
  shows "kv w' = kv w" and "d = (case kv w key of None \<Rightarrow> [] | Some v \<Rightarrow> take (unat n) v)"
    and "unat len = length d"
  using assms unfolding fdb_ok_def fdb_get_ok_def by blast+

lemma fdb_ok_set:
  assumes "fdb_ok api kv" and "fdb_kv_set_blob api key v w = (e, w')"
  shows "k \<noteq> key \<Longrightarrow> kv w' k = kv w k" and "e = FDB_NO_ERR \<Longrightarrow> kv w' key = Some v"
  using assms unfolding fdb_ok_def fdb_set_ok_def by blast+

section \<open>The two banks\<close>

record 'w db_env =
  de_api :: "'w fdb_api"
  de_kv :: "'w \<Rightarrow> string \<rightharpoonup> u8 list"
  de_db :: db_state
  de_w :: 'w

definition de_inv :: "'w db_env \<Rightarrow> bool" where
  "de_inv e \<longleftrightarrow> fdb_ok (de_api e) (de_kv e) \<and> g_db_ready (de_db e)"

definition hr_get :: "'w db_env \<Rightarrow> u16 \<Rightarrow> int \<times> u16 option \<times> 'w db_env" where
  "hr_get e a = (case modbus_points_db_get_holding (de_api e) (de_db e) a True (de_w e) of
     (r, x, w) \<Rightarrow> (r, x, e\<lparr>de_w := w\<rparr>))"

definition hr_put :: "'w db_env \<Rightarrow> u16 \<Rightarrow> u16 \<Rightarrow> int \<times> 'w db_env" where
  "hr_put e a v = (case modbus_points_db_set_holding (de_api e) (de_db e) a v (de_w e) of
     (r, w) \<Rightarrow> (r, e\<lparr>de_w := w\<rparr>))"

definition co_get :: "'w db_env \<Rightarrow> u16 \<Rightarrow> int \<times> bool option \<times> 'w db_env" where
  "co_get e a = (case modbus_points_db_get_coil (de_api e) (de_db e) a True (de_w e) of
     (r, x, w) \<Rightarrow> (r, x, e\<lparr>de_w := w\<rparr>))"

definition co_put :: "'w db_env \<Rightarrow> u16 \<Rightarrow> bool \<Rightarrow> int \<times> 'w db_env" where
  "co_put e a v = (case modbus_points_db_set_coil (de_api e) (de_db e) a v (de_w e) of
     (r, w) \<Rightarrow> (r, e\<lparr>de_w := w\<rparr>))"

definition hr_point :: "('k \<rightharpoonup> u8 list) \<Rightarrow> 'k list \<Rightarrow> nat \<Rightarrow> u16 option" where
  "hr_point kv keys i =
     (if i < length keys then
        case kv (keys ! i) of
          Some [] \<Rightarrow> None | Some [b] \<Rightarrow> None
        | Some (b # c # v) \<Rightarrow> Some (of_le16_bytes [b, c]) | None \<Rightarrow> None
      else None)"

definition co_point :: "('k \<rightharpoonup> u8 list) \<Rightarrow> 'k list \<Rightarrow> nat \<Rightarrow> bool option" where
  "co_point kv keys i =
     (if i < length keys then
        case kv (keys ! i) of Some (b # v) \<Rightarrow> Some (b \<noteq> 0) | _ \<Rightarrow> None
      else None)"

definition hr_points :: "'w db_env \<Rightarrow> nat \<Rightarrow> u16 option" where
  "hr_points e = hr_point (de_kv e (de_w e)) g_holding_keys"

definition co_points :: "'w db_env \<Rightarrow> nat \<Rightarrow> bool option" where
  "co_points e = co_point (de_kv e (de_w e)) g_coil_keys"

lemma keys_simps [simp]:
  "length g_holding_keys = 4" "length g_coil_keys = 2"
  by (simp_all add: g_holding_keys_def g_coil_keys_def)

lemma keys_distinct: "distinct (g_holding_keys @ g_coil_keys)"
  by (simp add: g_holding_keys_def g_coil_keys_def)

lemma hr_key_inj: "i < 4 \<Longrightarrow> j < 4 \<Longrightarrow> g_holding_keys ! i = g_holding_keys ! j \<longleftrightarrow> i = j"
  using keys_distinct by (auto simp: nth_eq_iff_index_eq)

lemma co_key_inj: "i < 2 \<Longrightarrow> j < 2 \<Longrightarrow> g_coil_keys ! i = g_coil_keys ! j \<longleftrightarrow> i = j"
  using keys_distinct by (auto simp: nth_eq_iff_index_eq)

lemma hr_co_keys: "i < 4 \<Longrightarrow> j < 2 \<Longrightarrow> g_holding_keys ! i \<noteq> g_coil_keys ! j"
  by (auto simp: g_holding_keys_def g_coil_keys_def numeral_eq_Suc less_Suc_eq)

lemma addr_range:
  "(4 :: u16) \<le> a \<longleftrightarrow> 4 \<le> unat a" "(2 :: u16) \<le> a \<longleftrightarrow> 2 \<le> unat a"
  by (simp_all add: word_le_nat_alt)

lemma fdb_to_errno_0 [simp]: "fdb_to_errno e = 0 \<longleftrightarrow> e = FDB_NO_ERR"
  by (cases e) (simp_all add: fdb_to_errno_def)

text \<open>The getters and setters on a ready database, as store operations.\<close>

lemma get_holding_point:
  assumes ok: "fdb_ok api kv" and ready: "g_db_ready s" and a: "unat a < 4"
    and run: "modbus_points_db_get_holding api s a True w = (r, x, w')"
  shows "x = hr_point (kv w) g_holding_keys (unat a) \<and> r = (if x = None then - ENOENT else 0) \<and>
    kv w' = kv w"
proof -
  let ?key = "g_holding_keys ! unat a"
  obtain len d w1 where g: "fdb_kv_get_blob api ?key 2 w = (len, d, w1)"
    by (cases "fdb_kv_get_blob api ?key 2 w")
  note get = fdb_ok_get [OF ok g]
  have len: "len = 2 \<longleftrightarrow> length d = 2" using get(3) by (simp add: word_unat_eq_iff)
  have tmp: "mem_write (le16_bytes 0) 0 d = d" if "length d = 2"
    using that by (simp add: mem_write_def)
  have run': "(r, x, w') = (if len \<noteq> 2 then (- ENOENT, None, w1)
      else (0, Some (of_le16_bytes (mem_write (le16_bytes 0) 0 d)), w1))"
    using run ready a g by (simp add: modbus_points_db_get_holding_def addr_range not_le)
  show ?thesis
  proof (cases "kv w ?key")
    case None
    with get run' len show ?thesis using a by (simp add: hr_point_def)
  next
    case (Some v)
    show ?thesis
    proof (cases "2 \<le> length v")
      case True
      then obtain b c v' where v: "v = b # c # v'" by (cases v rule: remdups_adj.cases) auto
      with Some get have "d = [b, c]" by simp
      with run' len tmp v Some get show ?thesis using a by (simp add: hr_point_def)
    next
      case False
      then consider "v = []" | b where "v = [b]" by (cases v rule: remdups_adj.cases) auto
      then show ?thesis using run' len Some get a by cases (simp_all add: hr_point_def)
    qed
  qed
qed

lemma get_coil_point:
  assumes ok: "fdb_ok api kv" and ready: "g_db_ready s" and a: "unat a < 2"
    and run: "modbus_points_db_get_coil api s a True w = (r, x, w')"
  shows "x = co_point (kv w) g_coil_keys (unat a) \<and> r = (if x = None then - ENOENT else 0) \<and>
    kv w' = kv w"
proof -
  let ?key = "g_coil_keys ! unat a"
  obtain len d w1 where g: "fdb_kv_get_blob api ?key 1 w = (len, d, w1)"
    by (cases "fdb_kv_get_blob api ?key 1 w")
  note get = fdb_ok_get [OF ok g]
  have len: "len = 1 \<longleftrightarrow> length d = 1" using get(3) by (simp add: word_unat_eq_iff)
  have run': "(r, x, w') = (if len \<noteq> 1 then (- ENOENT, None, w1)
      else (0, Some (hd (mem_write [0] 0 d) \<noteq> 0), w1))"
    using run ready a g by (simp add: modbus_points_db_get_coil_def addr_range not_le)
  show ?thesis
  proof (cases "kv w ?key")
    case None
    with get run' len show ?thesis using a by (simp add: co_point_def)
  next
    case (Some v)
    then show ?thesis using get run' len a
      by (cases v) (simp_all add: co_point_def mem_write_def)
  qed
qed

lemma set_holding_store:
  assumes ok: "fdb_ok api kv" and ready: "g_db_ready s"
    and run: "modbus_points_db_set_holding api s a v w = (r, w')"
  shows "unat a \<ge> 4 \<Longrightarrow> r = - ENOTSUP \<and> w' = w"
    and "unat a < 4 \<Longrightarrow> k \<noteq> g_holding_keys ! unat a \<Longrightarrow> kv w' k = kv w k"
    and "r = 0 \<Longrightarrow> unat a < 4 \<and> kv w' (g_holding_keys ! unat a) = Some (le16_bytes v)"
proof -
  show "unat a \<ge> 4 \<Longrightarrow> r = - ENOTSUP \<and> w' = w"
    using run ready by (simp add: modbus_points_db_set_holding_def addr_range)
  obtain e w1 where g: "fdb_kv_set_blob api (g_holding_keys ! unat a) (le16_bytes v) w = (e, w1)"
    by (cases "fdb_kv_set_blob api (g_holding_keys ! unat a) (le16_bytes v) w")
  note set = fdb_ok_set [OF ok g]
  show "unat a < 4 \<Longrightarrow> k \<noteq> g_holding_keys ! unat a \<Longrightarrow> kv w' k = kv w k"
    and "r = 0 \<Longrightarrow> unat a < 4 \<and> kv w' (g_holding_keys ! unat a) = Some (le16_bytes v)"
    using run ready g set
    by (auto simp: modbus_points_db_set_holding_def addr_range split: if_splits)
qed

lemma set_coil_store:
  assumes ok: "fdb_ok api kv" and ready: "g_db_ready s"
    and run: "modbus_points_db_set_coil api s a v w = (r, w')"
  shows "unat a \<ge> 2 \<Longrightarrow> r = - ENOTSUP \<and> w' = w"
    and "unat a < 2 \<Longrightarrow> k \<noteq> g_coil_keys ! unat a \<Longrightarrow> kv w' k = kv w k"
    and "r = 0 \<Longrightarrow> unat a < 2 \<and> kv w' (g_coil_keys ! unat a) = Some [if v then 1 else 0]"
proof -
  show "unat a \<ge> 2 \<Longrightarrow> r = - ENOTSUP \<and> w' = w"
    using run ready by (simp add: modbus_points_db_set_coil_def addr_range)
  obtain e w1 where g: "fdb_kv_set_blob api (g_coil_keys ! unat a) [if v then 1 else 0] w = (e, w1)"
    by (cases "fdb_kv_set_blob api (g_coil_keys ! unat a) [if v then 1 else 0] w")
  note set = fdb_ok_set [OF ok g]
  show "unat a < 2 \<Longrightarrow> k \<noteq> g_coil_keys ! unat a \<Longrightarrow> kv w' k = kv w k"
    and "r = 0 \<Longrightarrow> unat a < 2 \<and> kv w' (g_coil_keys ! unat a) = Some [if v then 1 else 0]"
    using run ready g set
    by (auto simp: modbus_points_db_set_coil_def addr_range split: if_splits)
qed


text \<open>The store operations of one bank leave the keys of the other alone.\<close>

lemma get_holding_kv:
  "fdb_ok api kv \<Longrightarrow> modbus_points_db_get_holding api s a nn w = (r, x, w') \<Longrightarrow> kv w' = kv w"
  using fdb_ok_get(1) by (fastforce simp: modbus_points_db_get_holding_def Let_def split: if_splits prod.splits)

lemma get_coil_kv:
  "fdb_ok api kv \<Longrightarrow> modbus_points_db_get_coil api s a nn w = (r, x, w') \<Longrightarrow> kv w' = kv w"
  using fdb_ok_get(1) by (fastforce simp: modbus_points_db_get_coil_def Let_def split: if_splits prod.splits)

lemma set_coil_hr:
  assumes ok: "fdb_ok api kv" and ready: "g_db_ready s"
    and run: "modbus_points_db_set_coil api s a v w = (r, w')"
  shows "hr_point (kv w') g_holding_keys = hr_point (kv w) g_holding_keys"
proof (cases "unat a < 2")
  case True
  have "kv w' (g_holding_keys ! i) = kv w (g_holding_keys ! i)" if "i < 4" for i
    using set_coil_store(2) [OF ok ready run True hr_co_keys [OF that True]] .
  then show ?thesis by (simp add: fun_eq_iff hr_point_def)
qed (use set_coil_store(1) [OF ok ready run] in simp)

lemma set_holding_co:
  assumes ok: "fdb_ok api kv" and ready: "g_db_ready s"
    and run: "modbus_points_db_set_holding api s a v w = (r, w')"
  shows "co_point (kv w') g_coil_keys = co_point (kv w) g_coil_keys"
proof (cases "unat a < 4")
  case True
  have "kv w' (g_coil_keys ! i) = kv w (g_coil_keys ! i)" if "i < 2" for i
    using set_holding_store(2) [OF ok ready run True hr_co_keys [OF True that, symmetric]] .
  then show ?thesis by (simp add: fun_eq_iff co_point_def)
qed (use set_holding_store(1) [OF ok ready run] in simp)

lemma hr_getE:
  assumes "hr_get e a = (r, x, t)"
  obtains w where "modbus_points_db_get_holding (de_api e) (de_db e) a True (de_w e) = (r, x, w)"
    and "t = e\<lparr>de_w := w\<rparr>"
  using assms by (auto simp: hr_get_def split: prod.splits)

lemma hr_putE:
  assumes "hr_put e a v = (r, t)"
  obtains w where "modbus_points_db_set_holding (de_api e) (de_db e) a v (de_w e) = (r, w)"
    and "t = e\<lparr>de_w := w\<rparr>"
  using assms by (auto simp: hr_put_def split: prod.splits)

lemma co_getE:
  assumes "co_get e a = (r, x, t)"
  obtains w where "modbus_points_db_get_coil (de_api e) (de_db e) a True (de_w e) = (r, x, w)"
    and "t = e\<lparr>de_w := w\<rparr>"
  using assms by (auto simp: co_get_def split: prod.splits)

lemma co_putE:
  assumes "co_put e a v = (r, t)"
  obtains w where "modbus_points_db_set_coil (de_api e) (de_db e) a v (de_w e) = (r, w)"
    and "t = e\<lparr>de_w := w\<rparr>"
  using assms by (auto simp: co_put_def split: prod.splits)

lemma de_inv_set_w [simp]: "de_inv (e\<lparr>de_w := w\<rparr>) = de_inv e"
  by (simp add: de_inv_def)

lemma le16_point: "hr_point kv keys i = Some v"
  if "i < length keys" and "kv (keys ! i) = Some (le16_bytes v)"
  using that of_le16_bytes_le16_bytes [of v] by (simp add: hr_point_def le16_bytes_def)

interpretation holding: point_bank hr_get hr_put 4 hr_points de_inv
proof (unfold_locales, goal_cases)
  case (1 s a)
  then show ?case
    by (simp add: de_inv_def hr_get_def modbus_points_db_get_holding_def addr_range)
next
  case (2 s a v)
  then show ?case
    by (simp add: de_inv_def hr_put_def modbus_points_db_set_holding_def addr_range)
next
  case (3 s a r x t)
  from 3(3) obtain w where g: "modbus_points_db_get_holding (de_api s) (de_db s) a True (de_w s)
    = (r, x, w)" by (rule hr_getE)
  have ok: "fdb_ok (de_api s) (de_kv s)" "g_db_ready (de_db s)" using 3(1) by (simp_all add: de_inv_def)
  show ?case using get_holding_point [OF ok 3(2) g] by (simp add: hr_points_def)
next
  case (4 s a r x t)
  from 4(2) obtain w where g: "modbus_points_db_get_holding (de_api s) (de_db s) a True (de_w s)
    = (r, x, w)" and t: "t = s\<lparr>de_w := w\<rparr>" by (rule hr_getE)
  show ?case
  proof (cases "unat a < 4")
    case True
    then show ?thesis using get_holding_point [OF _ _ True g] 4(1)
      by (auto simp: t de_inv_def hr_points_def)
  next
    case False
    then show ?thesis using g 4(1)
      by (auto simp: t de_inv_def hr_points_def modbus_points_db_get_holding_def addr_range)
  qed
next
  case (5 s a v r t)
  then show ?case by (auto elim!: hr_putE)
next
  case (6 s a v t)
  from 6(2) obtain w where p: "modbus_points_db_set_holding (de_api s) (de_db s) a v (de_w s)
    = (0, w)" and t: "t = s\<lparr>de_w := w\<rparr>" by (rule hr_putE)
  have ok: "fdb_ok (de_api s) (de_kv s)" "g_db_ready (de_db s)" using 6(1) by (simp_all add: de_inv_def)
  show ?case using set_holding_store(3) [OF ok p] by (simp add: t hr_points_def le16_point)
next
  case (7 s a v r t i)
  from 7(2) obtain w where p: "modbus_points_db_set_holding (de_api s) (de_db s) a v (de_w s)
    = (r, w)" and t: "t = s\<lparr>de_w := w\<rparr>" by (rule hr_putE)
  have ok: "fdb_ok (de_api s) (de_kv s)" "g_db_ready (de_db s)" using 7(1) by (simp_all add: de_inv_def)
  show ?case
  proof (cases "unat a < 4")
    case True
    then have "de_kv s w (g_holding_keys ! i) = de_kv s (de_w s) (g_holding_keys ! i)" if "i < 4"
      using set_holding_store(2) [OF ok p True] 7(3) that by (simp add: hr_key_inj)
    then show ?thesis by (simp add: t hr_points_def hr_point_def)
  next
    case False
    then show ?thesis using set_holding_store(1) [OF ok p] by (simp add: t)
  qed
qed

interpretation coil: point_bank co_get co_put 2 co_points de_inv
proof (unfold_locales, goal_cases)
  case (1 s a)
  then show ?case
    by (simp add: de_inv_def co_get_def modbus_points_db_get_coil_def addr_range)
next
  case (2 s a v)
  then show ?case
    by (simp add: de_inv_def co_put_def modbus_points_db_set_coil_def addr_range)
next
  case (3 s a r x t)
  from 3(3) obtain w where g: "modbus_points_db_get_coil (de_api s) (de_db s) a True (de_w s)
    = (r, x, w)" by (rule co_getE)
  have ok: "fdb_ok (de_api s) (de_kv s)" "g_db_ready (de_db s)" using 3(1) by (simp_all add: de_inv_def)
  show ?case using get_coil_point [OF ok 3(2) g] by (simp add: co_points_def)
next
  case (4 s a r x t)
  from 4(2) obtain w where g: "modbus_points_db_get_coil (de_api s) (de_db s) a True (de_w s)
    = (r, x, w)" and t: "t = s\<lparr>de_w := w\<rparr>" by (rule co_getE)
  show ?case
  proof (cases "unat a < 2")
    case True
    then show ?thesis using get_coil_point [OF _ _ True g] 4(1)
      by (auto simp: t de_inv_def co_points_def)
  next
    case False
    then show ?thesis using g 4(1)
      by (auto simp: t de_inv_def co_points_def modbus_points_db_get_coil_def addr_range)
  qed
next
  case (5 s a v r t)
  then show ?case by (auto elim!: co_putE)
next
  case (6 s a v t)
  from 6(2) obtain w where p: "modbus_points_db_set_coil (de_api s) (de_db s) a v (de_w s)
    = (0, w)" and t: "t = s\<lparr>de_w := w\<rparr>" by (rule co_putE)
  have ok: "fdb_ok (de_api s) (de_kv s)" "g_db_ready (de_db s)" using 6(1) by (simp_all add: de_inv_def)
  show ?case using set_coil_store(3) [OF ok p] by (simp add: t co_points_def co_point_def)
next
  case (7 s a v r t i)
  from 7(2) obtain w where p: "modbus_points_db_set_coil (de_api s) (de_db s) a v (de_w s)
    = (r, w)" and t: "t = s\<lparr>de_w := w\<rparr>" by (rule co_putE)
  have ok: "fdb_ok (de_api s) (de_kv s)" "g_db_ready (de_db s)" using 7(1) by (simp_all add: de_inv_def)
  show ?case
  proof (cases "unat a < 2")
    case True
    then have "de_kv s w (g_coil_keys ! i) = de_kv s (de_w s) (g_coil_keys ! i)" if "i < 2"
      using set_coil_store(2) [OF ok p True] 7(3) that by (simp add: co_key_inj)
    then show ?thesis by (simp add: t co_points_def co_point_def)
  next
    case False
    then show ?thesis using set_coil_store(1) [OF ok p] by (simp add: t)
  qed
qed


section \<open>Properties\<close>

text \<open>
  A holding register or coil that was written successfully reads back as the value
  written, for every address and value, through the two-byte and one-byte representations
  in the store.
\<close>

lemma points_read_after_write:
  assumes "fdb_ok api kv" and "g_db_ready s"
    and "modbus_points_db_set_holding api s a v w = (0, w1)"
    and "modbus_points_db_set_coil api s b c w = (0, w2)"
  shows "\<exists>w3 w4. modbus_points_db_get_holding api s a True w1 = (0, Some v, w3) \<and>
    modbus_points_db_get_coil api s b True w2 = (0, Some c, w4)"
proof -
  let ?e = "\<lambda>w. \<lparr>de_api = api, de_kv = kv, de_db = s, de_w = w\<rparr>"
  have inv: "de_inv (?e w)" using assms(1,2) by (simp add: de_inv_def)
  have "hr_put (?e w) a v = (0, ?e w1)" "co_put (?e w) b c = (0, ?e w2)"
    using assms(3,4) by (simp_all add: hr_put_def co_put_def)
  from holding.get_after_put [OF inv this(1)] coil.get_after_put [OF inv this(2)]
  show ?thesis by (auto simp: hr_get_def co_get_def split: prod.splits)
qed

text \<open>
  Writing one holding register, successfully or not, changes what no other holding
  register and no coil reads; the two banks do not share storage.
\<close>

theorem points_are_independent:
  assumes ok: "fdb_ok api kv" and ready: "g_db_ready s" and ne: "b \<noteq> a"
    and put: "modbus_points_db_set_holding api s a v w = (r, w1)"
  shows "fst (snd (modbus_points_db_get_holding api s b True w1)) =
      fst (snd (modbus_points_db_get_holding api s b True w)) \<and>
    fst (snd (modbus_points_db_get_coil api s c True w1)) =
      fst (snd (modbus_points_db_get_coil api s c True w))"
proof -
  let ?e = "\<lambda>w. \<lparr>de_api = api, de_kv = kv, de_db = s, de_w = w\<rparr>"
  have inv: "de_inv (?e w)" "de_inv (?e w1)" using ok ready by (simp_all add: de_inv_def)
  have "hr_put (?e w) a v = (r, ?e w1)" using put by (simp add: hr_put_def)
  from holding.get_after_other_put [OF inv(1) this ne]
  have hr: "fst (snd (modbus_points_db_get_holding api s b True w1)) =
      fst (snd (modbus_points_db_get_holding api s b True w))"
    by (simp add: hr_get_def split: prod.splits)
  have co: "fst (snd (modbus_points_db_get_coil api s c True w1)) =
      fst (snd (modbus_points_db_get_coil api s c True w))"
  proof (cases "unat c < 2")
    case True
    obtain r1 x1 u1 r2 x2 u2 where g: "modbus_points_db_get_coil api s c True w = (r1, x1, u1)"
      "modbus_points_db_get_coil api s c True w1 = (r2, x2, u2)"
      by (cases "modbus_points_db_get_coil api s c True w",
          cases "modbus_points_db_get_coil api s c True w1")
    show ?thesis
      using get_coil_point [OF ok ready True g(1)] get_coil_point [OF ok ready True g(2)] g
        set_holding_co [OF ok ready put] by simp
  qed (simp add: modbus_points_db_get_coil_def addr_range)
  show ?thesis using hr co ..
qed

text \<open>
  C28. The error codes mean one thing each: \<open>-EACCES\<close> that the database is not
  initialised, \<open>-ENOTSUP\<close> that the address does not exist, whatever the store below does.
\<close>

theorem points_error_codes:
  "(fst (modbus_points_db_get_holding api s a True w) = - EACCES \<longleftrightarrow> \<not> g_db_ready s) \<and>
   (fst (modbus_points_db_set_holding api s a v w) = - EACCES \<longleftrightarrow> \<not> g_db_ready s) \<and>
   (fst (modbus_points_db_get_coil api s a True w) = - EACCES \<longleftrightarrow> \<not> g_db_ready s) \<and>
   (fst (modbus_points_db_set_coil api s a c w) = - EACCES \<longleftrightarrow> \<not> g_db_ready s) \<and>
   (fst (modbus_points_db_get_holding api s a True w) = - ENOTSUP \<longleftrightarrow> g_db_ready s \<and> 4 \<le> unat a) \<and>
   (fst (modbus_points_db_set_holding api s a v w) = - ENOTSUP \<longleftrightarrow> g_db_ready s \<and> 4 \<le> unat a) \<and>
   (fst (modbus_points_db_get_coil api s a True w) = - ENOTSUP \<longleftrightarrow> g_db_ready s \<and> 2 \<le> unat a) \<and>
   (fst (modbus_points_db_set_coil api s a c w) = - ENOTSUP \<longleftrightarrow> g_db_ready s \<and> 2 \<le> unat a)"
proof -
  have "fdb_to_errno e \<noteq> - EACCES" "fdb_to_errno e \<noteq> - ENOTSUP" for e
    by (cases e; simp add: fdb_to_errno_def)+
  then show ?thesis
    by (auto simp: modbus_points_db_get_holding_def modbus_points_db_set_holding_def
        modbus_points_db_get_coil_def modbus_points_db_set_coil_def addr_range Let_def
        split: prod.split)
qed

text \<open>The points of a store, both banks.\<close>

definition all_points :: "(string \<rightharpoonup> u8 list) \<Rightarrow> u16 option list \<times> bool option list" where
  "all_points kv = (map (hr_point kv g_holding_keys) [0 ..< 4], map (co_point kv g_coil_keys) [0 ..< 2])"

lemma default_points:
  "all_points (map_of g_default_nodes) =
     ([Some 1, Some 100, Some 500, Some 0x1234], [Some True, Some False])"
proof -
  have four: "[0 ..< 4] = [0, 1, 2, 3 :: nat]" and two: "[0 ..< 2] = [0, 1 :: nat]"
    by (simp_all add: upt_conv_Cons)
  have "hr_point (map_of g_default_nodes) g_holding_keys 0 = Some 1"
    "hr_point (map_of g_default_nodes) g_holding_keys 1 = Some 100"
    "hr_point (map_of g_default_nodes) g_holding_keys 2 = Some 500"
    "hr_point (map_of g_default_nodes) g_holding_keys 3 = Some 0x1234"
    by (rule le16_point; simp add: g_default_nodes_def g_holding_keys_def)+
  moreover have "co_point (map_of g_default_nodes) g_coil_keys 0 = Some True"
    "co_point (map_of g_default_nodes) g_coil_keys 1 = Some False"
    by (simp_all add: co_point_def g_coil_keys_def g_default_nodes_def)
  ultimately show ?thesis by (simp add: all_points_def four two)
qed

lemma points_db_init_kv:
  assumes "fdb_ok api kv" and "\<not> g_db_ready s" and "modbus_points_db_init api s w = (0, s', w')"
  shows "g_db_ready s' \<and> kv w' = (if kv w = Map.empty then map_of g_default_nodes else kv w)"
proof -
  let ?w3 = "fdb_kvdb_control api FDB_KVDB_CTRL_SET_UNLOCK (kvdb_unlock api)
    (fdb_kvdb_control api FDB_KVDB_CTRL_SET_LOCK (kvdb_lock api) (k_mutex_init api w))"
  have init: "fdb_kvdb_init api ''modbus'' ''flashdb'' g_default_nodes ?w3 = (FDB_NO_ERR, w')"
    and s': "g_db_ready s'"
    using assms(2,3) by (auto simp: modbus_points_db_init_def Let_def split: prod.splits if_splits)
  have "kv ?w3 = kv w"
    using assms(1) unfolding fdb_ok_def fdb_init_ok_def by metis
  moreover have "kv w' = (if kv ?w3 = Map.empty then map_of g_default_nodes else kv ?w3)"
    using assms(1) init unfolding fdb_ok_def fdb_init_ok_def by blast
  ultimately show ?thesis using s' by simp
qed

text \<open>What a client reads after an initialisation.\<close>

definition hr_read :: "'w fdb_api \<Rightarrow> db_state \<Rightarrow> 'w \<Rightarrow> u16 \<Rightarrow> int \<times> u16 option" where
  "hr_read api s w a = (case modbus_points_db_get_holding api s a True w of (r, x, w') \<Rightarrow> (r, x))"

definition co_read :: "'w fdb_api \<Rightarrow> db_state \<Rightarrow> 'w \<Rightarrow> u16 \<Rightarrow> int \<times> bool option" where
  "co_read api s w a = (case modbus_points_db_get_coil api s a True w of (r, x, w') \<Rightarrow> (r, x))"

lemma hr_read_point:
  assumes "fdb_ok api kv" and "g_db_ready s" and "unat a < 4"
  shows "hr_read api s w a = (case hr_point (kv w) g_holding_keys (unat a) of
    None \<Rightarrow> (- ENOENT, None) | Some v \<Rightarrow> (0, Some v))"
  using get_holding_point [OF assms, of w]
  by (cases "modbus_points_db_get_holding api s a True w") (auto simp: hr_read_def split: option.split)

lemma co_read_point:
  assumes "fdb_ok api kv" and "g_db_ready s" and "unat a < 2"
  shows "co_read api s w a = (case co_point (kv w) g_coil_keys (unat a) of
    None \<Rightarrow> (- ENOENT, None) | Some v \<Rightarrow> (0, Some v))"
  using get_coil_point [OF assms, of w]
  by (cases "modbus_points_db_get_coil api s a True w") (auto simp: co_read_def split: option.split)

lemma default_reads:
  assumes ok: "fdb_ok api kv" and ready: "g_db_ready s" and kv: "kv w = map_of g_default_nodes"
  shows "map (hr_read api s w) [0, 1, 2, 3] = [(0, Some 1), (0, Some 100), (0, Some 500), (0, Some 0x1234)]"
    and "map (co_read api s w) [0, 1] = [(0, Some True), (0, Some False)]"
proof -
  have four: "[0 ..< 4] = [0, 1, 2, 3 :: nat]" and two: "[0 ..< 2] = [0, 1 :: nat]"
    by (simp_all add: upt_conv_Cons)
  note d = default_points [unfolded all_points_def four two, folded kv]
  show "map (hr_read api s w) [0, 1, 2, 3] = [(0, Some 1), (0, Some 100), (0, Some 500), (0, Some 0x1234)]"
    using d hr_read_point [OF ok ready, of _ w] by simp
  show "map (co_read api s w) [0, 1] = [(0, Some True), (0, Some False)]"
    using d co_read_point [OF ok ready, of _ w] by simp
qed

text \<open>
  C21. What the clients read after an initialisation, through the getters. If it fails, the
  database stays not ready and every read returns \<open>-EACCES\<close>. If it succeeds on an empty
  store, the registers read 1, 100, 500 and 0x1234 and the coils on and off, each with code 0. If it succeeds on a store that holds anything, every point reads what
  the store holds under its key, and a point whose key is missing is not given its default:
  its read returns \<open>-ENOENT\<close> without a value. A repeated initialisation changes nothing.
\<close>

theorem points_db_init_points:
  assumes ok: "fdb_ok api kv" and fresh: "\<not> g_db_ready s" and run: "modbus_points_db_init api s w = (r, s', w')"
  shows "(r \<noteq> 0 \<longrightarrow> hr_read api s' w' a = (- EACCES, None) \<and> co_read api s' w' a = (- EACCES, None)) \<and>
    (r = 0 \<longrightarrow> modbus_points_db_init api s' w' = (0, s', w')) \<and>
    (r = 0 \<and> kv w = Map.empty \<longrightarrow>
      map (hr_read api s' w') [0, 1, 2, 3] = [(0, Some 1), (0, Some 100), (0, Some 500), (0, Some 0x1234)] \<and>
      map (co_read api s' w') [0, 1] = [(0, Some True), (0, Some False)]) \<and>
    (r = 0 \<and> kv w \<noteq> Map.empty \<longrightarrow>
      (unat a < 4 \<longrightarrow> hr_read api s' w' a =
        (case kv w (g_holding_keys ! unat a) of
          Some (b # c # v) \<Rightarrow> (0, Some (of_le16_bytes [b, c])) | _ \<Rightarrow> (- ENOENT, None))) \<and>
      (unat a < 2 \<longrightarrow> co_read api s' w' a =
        (case kv w (g_coil_keys ! unat a) of Some (b # v) \<Rightarrow> (0, Some (b \<noteq> 0)) | _ \<Rightarrow> (- ENOENT, None))))"
proof (cases "r = 0")
  case True
  note init = points_db_init_kv [OF ok fresh run [unfolded True]]
  have "modbus_points_db_init api s' w' = (0, s', w')" using init by (simp add: modbus_points_db_init_def)
  moreover have "hr_read api s' w' a =
      (case kv w' (g_holding_keys ! unat a) of
        Some (b # c # v) \<Rightarrow> (0, Some (of_le16_bytes [b, c])) | _ \<Rightarrow> (- ENOENT, None))" if "unat a < 4"
    using hr_read_point [OF ok conjunct1 [OF init] that, of w'] that
    by (simp add: hr_point_def split: option.splits list.splits)
  moreover have "co_read api s' w' a =
      (case kv w' (g_coil_keys ! unat a) of Some (b # v) \<Rightarrow> (0, Some (b \<noteq> 0)) | _ \<Rightarrow> (- ENOENT, None))"
    if "unat a < 2"
    using co_read_point [OF ok conjunct1 [OF init] that, of w'] that
    by (simp add: co_point_def split: option.splits list.splits)
  ultimately show ?thesis using True init default_reads [OF ok conjunct1 [OF init]] by (simp del: list.map)
next
  case False
  then have "s' = s" using run fresh by (auto simp: modbus_points_db_init_def Let_def split: if_splits prod.splits)
  then show ?thesis
    using False fresh
    by (simp add: hr_read_def co_read_def modbus_points_db_get_holding_def modbus_points_db_get_coil_def)
qed

section \<open>Witnesses\<close>

text \<open>
  A store kept as an association list, newest entry first; it satisfies the documented
  behaviour, so the hypotheses above can hold.
\<close>

definition sim_fdb :: "(string \<times> u8 list) list fdb_api" where
  "sim_fdb =
     \<lparr>k_mutex_init = id, k_mutex_lock = id, k_mutex_unlock = id,
      fdb_kvdb_control = (\<lambda>c f w. w),
      fdb_kvdb_init = (\<lambda>nm path defaults w. (FDB_NO_ERR, if w = [] then defaults else w)),
      fdb_kv_get_blob = (\<lambda>key n w.
        let d = (case map_of w key of None \<Rightarrow> [] | Some v \<Rightarrow> take (unat n) v)
        in (of_nat (length d), d, w)),
      fdb_kv_set_blob = (\<lambda>key v w. (FDB_NO_ERR, (key, v) # w))\<rparr>"

lemma sim_fdb_ok: "fdb_ok sim_fdb map_of"
proof -
  have "unat (of_nat (length (take (unat (n :: usize)) v)) :: usize) = length (take (unat n) v)"
    for n and v :: "u8 list"
    using unat32_lt [of n]
    by (simp add: unsigned_of_nat take_bit_nat_eq_self min_def)
  then show ?thesis
    by (auto simp: fdb_ok_def fdb_get_ok_def fdb_set_ok_def fdb_init_ok_def sim_fdb_def
        split: option.splits)
qed

abbreviation (input) db_up :: db_state where "db_up \<equiv> \<lparr>g_db_ready = True\<rparr>"

lemma sim_set_holding:
  "modbus_points_db_set_holding sim_fdb db_up 2 v w = (0, (''hr2'', le16_bytes v) # w)"
  by (simp add: modbus_points_db_set_holding_def sim_fdb_def g_holding_keys_def fdb_to_errno_def)

lemma sim_set_coil:
  "modbus_points_db_set_coil sim_fdb db_up 1 True w = (0, (''coil1'', [1]) # w)"
  by (simp add: modbus_points_db_set_coil_def addr_range sim_fdb_def g_coil_keys_def fdb_to_errno_def)

lemma sim_init:
  "modbus_points_db_init sim_fdb \<lparr>g_db_ready = False\<rparr> [] = (0, db_up, g_default_nodes)"
  by (simp add: modbus_points_db_init_def sim_fdb_def kvdb_lock_def kvdb_unlock_def)

lemma points_read_after_write_witness:
  "\<exists>w3 w4. modbus_points_db_get_holding sim_fdb db_up 2 True [(''hr2'', le16_bytes 0xBEEF)]
      = (0, Some 0xBEEF, w3) \<and>
    modbus_points_db_get_coil sim_fdb db_up 1 True [(''coil1'', [1])] = (0, Some True, w4)"
  by (rule points_read_after_write [OF sim_fdb_ok _ sim_set_holding sim_set_coil]) simp

theorem points_are_independent_witness:
  "fst (snd (modbus_points_db_get_holding sim_fdb db_up 0 True ((''hr2'', le16_bytes 7) # g_default_nodes))) =
      fst (snd (modbus_points_db_get_holding sim_fdb db_up 0 True g_default_nodes)) \<and>
    fst (snd (modbus_points_db_get_coil sim_fdb db_up 1 True ((''hr2'', le16_bytes 7) # g_default_nodes))) =
      fst (snd (modbus_points_db_get_coil sim_fdb db_up 1 True g_default_nodes))"
  by (rule points_are_independent [OF sim_fdb_ok _ _ sim_set_holding]) simp_all

text \<open>A store with register 2 only: its initialisation adds nothing.\<close>

lemma sim_init_part:
  "modbus_points_db_init sim_fdb \<lparr>g_db_ready = False\<rparr> [(''hr2'', le16_bytes 7)] = (0, db_up, [(''hr2'', le16_bytes 7)])"
  by (simp add: modbus_points_db_init_def sim_fdb_def kvdb_lock_def kvdb_unlock_def)

theorem points_db_init_points_witness:
  "modbus_points_db_init sim_fdb \<lparr>g_db_ready = False\<rparr> [] = (0, db_up, g_default_nodes) \<and>
    map (hr_read sim_fdb db_up g_default_nodes) [0, 1, 2, 3] =
      [(0, Some 1), (0, Some 100), (0, Some 500), (0, Some 0x1234)] \<and>
    modbus_points_db_init sim_fdb \<lparr>g_db_ready = False\<rparr> [(''hr2'', le16_bytes 7)] = (0, db_up, [(''hr2'', le16_bytes 7)]) \<and>
    hr_read sim_fdb db_up [(''hr2'', le16_bytes 7)] 0 = (- ENOENT, None)"
proof -
  have down: "\<not> g_db_ready \<lparr>g_db_ready = False\<rparr>" by simp
  have key: "map_of [(''hr2'', le16_bytes 7)] (g_holding_keys ! unat (0 :: u16)) = None"
    by (simp add: g_holding_keys_def)
  show ?thesis
    using points_db_init_points [OF sim_fdb_ok down sim_init, of 0]
      points_db_init_points [OF sim_fdb_ok down sim_init_part, of 0] sim_init sim_init_part key
    by (simp del: list.map)
qed

end
