(* ===== verification/ModbusService.thy ===== *)
theory ModbusService
  imports Rs485Read PointsDb
begin

text \<open>
  The Modbus service, \<^verbatim>\<open>ATS-M7/src/modbus_service.c\<close>: it assembles RTU frames from the
  RS485 byte stream, checks their CRC and submits them to Zephyr's Modbus server in RAW
  mode, sends the server's responses as RTU frames, offers the server callbacks on the point
  database, and keeps a heartbeat register. Zephyr's Modbus stack, its CRC and byte-order
  helpers and the configured buffer size are fields of \<open>mb_api\<close>, next to the interfaces of
  the two services below.
\<close>

section \<open>The platform interface\<close>

text \<open>Zephyr's \<^verbatim>\<open>struct modbus_adu\<close>; \<open>adu_data\<close> is the array of its payload.\<close>

record modbus_adu =
  adu_proto_id :: u16
  adu_length :: u16
  adu_unit_id :: u8
  adu_fc :: u8
  adu_data :: "u8 list"
  adu_crc :: u16

datatype modbus_mode = MODBUS_MODE_RTU | MODBUS_MODE_ASCII | MODBUS_MODE_RAW

text \<open>The state of the service, and of all it stands on.\<close>

record mb_state =
  input_reg :: "u16 list"
  modbus_iface :: int
  mb_rx_frame :: "u8 list"
  mb_rx_len :: nat
  mb_last_rx_ms :: s64
  hb_last_ms :: s64

record 'w mb_sys =
  sy_mb :: mb_state
  sy_rs :: rs_state
  sy_db :: db_state
  sy_w :: 'w

record 'w modbus_user_callbacks =
  cb_coil_rd :: "u16 \<Rightarrow> 'w mb_sys \<Rightarrow> int \<times> bool option \<times> 'w mb_sys"
  cb_coil_wr :: "u16 \<Rightarrow> bool \<Rightarrow> 'w mb_sys \<Rightarrow> int \<times> 'w mb_sys"
  cb_input_reg_rd :: "u16 \<Rightarrow> 'w mb_sys \<Rightarrow> int \<times> u16 option \<times> 'w mb_sys"
  cb_holding_reg_rd :: "u16 \<Rightarrow> 'w mb_sys \<Rightarrow> int \<times> u16 option \<times> 'w mb_sys"
  cb_holding_reg_wr :: "u16 \<Rightarrow> u16 \<Rightarrow> 'w mb_sys \<Rightarrow> int \<times> 'w mb_sys"

record 'w modbus_iface_param =
  mp_mode :: modbus_mode
  mp_user_cb :: "'w modbus_user_callbacks"
  mp_unit_id :: u8
  mp_raw_tx_cb :: "modbus_adu option \<Rightarrow> 'w mb_sys \<Rightarrow> (int \<times> 'w mb_sys) option"

record 'w mb_api =
  mb_rs :: "'w rs_api"
  mb_fdb :: "'w fdb_api"
  MODBUS_BUFFER_SIZE :: nat  \<comment> \<open>\<^verbatim>\<open>CONFIG_MODBUS_BUFFER_SIZE\<close>\<close>
  crc16_ansi :: "u8 list \<Rightarrow> u16"
  sys_put_le16 :: "u16 \<Rightarrow> u8 list"
  sys_get_le16 :: "u8 list \<Rightarrow> u16"
  modbus_iface_get_by_name :: "string \<Rightarrow> 'w \<Rightarrow> int \<times> 'w"
  modbus_init_server :: "int \<Rightarrow> 'w modbus_iface_param \<Rightarrow> 'w \<Rightarrow> int \<times> 'w"
  modbus_raw_submit_rx :: "int \<Rightarrow> modbus_adu \<Rightarrow> 'w \<Rightarrow> int \<times> 'w"

abbreviation (input) MB_INPUT_REG_NUM :: nat where "MB_INPUT_REG_NUM \<equiv> 4"
abbreviation (input) MB_POLL_BUF_LEN :: usize where "MB_POLL_BUF_LEN \<equiv> 64"
abbreviation (input) MB_FRAME_GAP_MS :: int where "MB_FRAME_GAP_MS \<equiv> 2"
abbreviation (input) MB_FRAME_MAX_LEN :: "'w mb_api \<Rightarrow> nat" where
  "MB_FRAME_MAX_LEN api \<equiv> MODBUS_BUFFER_SIZE api"

definition mb_state0 :: "nat \<Rightarrow> mb_state" where
  "mb_state0 n = \<lparr>input_reg = replicate MB_INPUT_REG_NUM 0, modbus_iface = - 1,
     mb_rx_frame = replicate n 0, mb_rx_len = 0, mb_last_rx_ms = 0, hb_last_ms = 0\<rparr>"

section \<open>Server callbacks\<close>

text \<open>The server passes a non-null result pointer; reads return what is stored through it.\<close>

definition coil_rd :: "'w mb_api \<Rightarrow> u16 \<Rightarrow> 'w mb_sys \<Rightarrow> int \<times> bool option \<times> 'w mb_sys" where
  "coil_rd api addr y =
     (let (r, v, w) = modbus_points_db_get_coil (mb_fdb api) (sy_db y) addr True (sy_w y)
      in (r, v, y\<lparr>sy_w := w\<rparr>))"

definition coil_wr :: "'w mb_api \<Rightarrow> u16 \<Rightarrow> bool \<Rightarrow> 'w mb_sys \<Rightarrow> int \<times> 'w mb_sys" where
  "coil_wr api addr st y =
     (let (r, w) = modbus_points_db_set_coil (mb_fdb api) (sy_db y) addr st (sy_w y)
      in (r, y\<lparr>sy_w := w\<rparr>))"

definition input_reg_rd :: "u16 \<Rightarrow> 'w mb_sys \<Rightarrow> int \<times> u16 option \<times> 'w mb_sys" where
  "input_reg_rd addr y =
     (if addr \<ge> of_nat MB_INPUT_REG_NUM then (- ENOTSUP, None, y)
      else (0, Some (input_reg (sy_mb y) ! unat addr), y))"

definition holding_reg_rd :: "'w mb_api \<Rightarrow> u16 \<Rightarrow> 'w mb_sys \<Rightarrow> int \<times> u16 option \<times> 'w mb_sys" where
  "holding_reg_rd api addr y =
     (let (r, v, w) = modbus_points_db_get_holding (mb_fdb api) (sy_db y) addr True (sy_w y)
      in (r, v, y\<lparr>sy_w := w\<rparr>))"

definition holding_reg_wr :: "'w mb_api \<Rightarrow> u16 \<Rightarrow> u16 \<Rightarrow> 'w mb_sys \<Rightarrow> int \<times> 'w mb_sys" where
  "holding_reg_wr api addr v y =
     (let (r, w) = modbus_points_db_set_holding (mb_fdb api) (sy_db y) addr v (sy_w y)
      in (r, y\<lparr>sy_w := w\<rparr>))"

text \<open>
  The frame is the part of the local array that is written; \<open>adu_length\<close> is at least the
  number of payload bytes present. The result is \<open>None\<close> when the write never returns.
\<close>

definition mb_frame :: "'w mb_api \<Rightarrow> modbus_adu \<Rightarrow> u8 list" where
  "mb_frame api adu =
     (let len = unat (adu_length adu);
          body = [adu_unit_id adu, adu_fc adu] @ (if len > 0 then take len (adu_data adu) else []);
          crc = crc16_ansi api body
      in body @ sys_put_le16 api crc)"

definition modbus_raw_tx_cb ::
  "'w mb_api \<Rightarrow> modbus_adu option \<Rightarrow> 'w mb_sys \<Rightarrow> (int \<times> 'w mb_sys) option" where
  "modbus_raw_tx_cb api adu y =
     (case adu of
        None \<Rightarrow> Some (- EINVAL, y)
      | Some a \<Rightarrow>
          if unat (adu_length a) > MB_FRAME_MAX_LEN api - 4 then Some (- EMSGSIZE, y)
          else
            map_option (\<lambda>(ret, rs, w). (ret, y\<lparr>sy_rs := rs, sy_w := w\<rparr>))
              (rs485_write (mb_rs api) (mb_frame api a) (of_nat (unat (adu_length a) + 4))
                 (sy_rs y) (sy_w y)))"

definition mbs_cbs :: "'w mb_api \<Rightarrow> 'w modbus_user_callbacks" where
  "mbs_cbs api = \<lparr>cb_coil_rd = coil_rd api, cb_coil_wr = coil_wr api, cb_input_reg_rd = input_reg_rd,
     cb_holding_reg_rd = holding_reg_rd api, cb_holding_reg_wr = holding_reg_wr api\<rparr>"

definition server_param :: "'w mb_api \<Rightarrow> 'w modbus_iface_param" where
  "server_param api = \<lparr>mp_mode = MODBUS_MODE_RAW, mp_user_cb = mbs_cbs api, mp_unit_id = 1,
     mp_raw_tx_cb = modbus_raw_tx_cb api\<rparr>"

section \<open>Receiving\<close>

definition modbus_submit_frame :: "'w mb_api \<Rightarrow> mb_state \<Rightarrow> 'w \<Rightarrow> mb_state \<times> 'w" where
  "modbus_submit_frame api m w =
     (if mb_rx_len m < 4 then (m\<lparr>mb_rx_len := 0\<rparr>, w)
      else
        let rx_crc = sys_get_le16 api (take 2 (drop (mb_rx_len m - 2) (mb_rx_frame m)));
            calc_crc = crc16_ansi api (take (mb_rx_len m - 2) (mb_rx_frame m)) in
        if rx_crc \<noteq> calc_crc then (m\<lparr>mb_rx_len := 0\<rparr>, w)
        else
          let payload_len = mb_rx_len m - 4;
              zero = replicate (MODBUS_BUFFER_SIZE api - 4) 0;
              adu = \<lparr>adu_proto_id = 0, adu_length = of_nat payload_len,
                adu_unit_id = mb_rx_frame m ! 0, adu_fc = mb_rx_frame m ! 1,
                adu_data = (if payload_len > 0
                  then mem_write zero 0 (take payload_len (drop 2 (mb_rx_frame m))) else zero),
                adu_crc = rx_crc\<rparr>;
              (err, w1) = modbus_raw_submit_rx api (modbus_iface m) adu w in
          (m\<lparr>mb_rx_len := 0\<rparr>, w1))"

text \<open>The body of the polling loop after a read of \<open>rd\<close> bytes into \<open>tmp\<close>.\<close>

definition mb_absorb ::
  "'w mb_api \<Rightarrow> mb_state \<Rightarrow> int \<Rightarrow> u8 list \<Rightarrow> rs_state \<times> 'w \<Rightarrow> mb_state \<times> rs_state \<times> 'w" where
  "mb_absorb api m rd tmp sw =
     (let m1 = (if mb_rx_len m + nat rd > MB_FRAME_MAX_LEN api then m\<lparr>mb_rx_len := 0\<rparr> else m) in
      if mb_rx_len m1 + nat rd \<le> MB_FRAME_MAX_LEN api then
        let (now, w1) = k_uptime_get (mb_rs api) (snd sw) in
        (m1\<lparr>mb_rx_frame := mem_write (mb_rx_frame m1) (mb_rx_len m1) (take (nat rd) tmp),
            mb_rx_len := mb_rx_len m1 + nat rd, mb_last_rx_ms := now\<rparr>, fst sw, w1)
      else (m1, sw))"

definition modbus_rx_poll ::
  "'w mb_api \<Rightarrow> mb_state \<Rightarrow> rs_state \<times> 'w \<Rightarrow> (mb_state \<times> rs_state \<times> 'w) option" where
  "modbus_rx_poll api m sw =
     map_option (\<lambda>(m1, s1, w1).
        let (now, w2) = k_uptime_get (mb_rs api) w1 in
        if mb_rx_len m1 \<ge> 4 \<and> sint (now - mb_last_rx_ms m1) \<ge> MB_FRAME_GAP_MS then
          let (m2, w3) = modbus_submit_frame api m1 w2 in (m2, s1, w3)
        else (m1, s1, w2))
      (drain (\<lambda>sw. rs485_read_nowait (mb_rs api) sw MB_POLL_BUF_LEN) (mb_absorb api) m sw)"

section \<open>Initialisation and periodic task\<close>

definition modbus_service_init :: "'w mb_api \<Rightarrow> 'w mb_sys \<Rightarrow> int \<times> 'w mb_sys" where
  "modbus_service_init api y =
     (let (iface, w1) = modbus_iface_get_by_name api ''RAW_0'' (sy_w y);
          y1 = y\<lparr>sy_mb := (sy_mb y)\<lparr>modbus_iface := iface\<rparr>, sy_w := w1\<rparr> in
      if iface < 0 then (iface, y1)
      else
        let (err, db, w2) = modbus_points_db_init (mb_fdb api) (sy_db y1) w1;
            y2 = y1\<lparr>sy_db := db, sy_w := w2\<rparr> in
        if err \<noteq> 0 then (err, y2)
        else
          let (err, w3) = rs485_init (mb_rs api) w2 in
          if err \<noteq> 0 then (err, y2\<lparr>sy_w := w3\<rparr>)
          else
            let (now, w4) = k_uptime_get (mb_rs api) w3;
                m = (sy_mb y2)\<lparr>input_reg := (input_reg (sy_mb y2))[0 := 0], mb_rx_len := 0,
                      mb_last_rx_ms := 0, hb_last_ms := now\<rparr>;
                (err, w5) = modbus_init_server api iface (server_param api) w4 in
            (if err \<noteq> 0 then err else 0, y2\<lparr>sy_mb := m, sy_w := w5\<rparr>))"

definition modbus_service_tick :: "'w mb_api \<Rightarrow> 'w mb_sys \<Rightarrow> 'w mb_sys option" where
  "modbus_service_tick api y =
     (let (now, w1) = k_uptime_get (mb_rs api) (sy_w y) in
      map_option (\<lambda>(m, rs, w2).
          let m1 = (if sint (now - hb_last_ms m) \<ge> 1000
                    then m\<lparr>input_reg := (input_reg m)[0 := input_reg m ! 0 + 1], hb_last_ms := now\<rparr>
                    else m)
          in y\<lparr>sy_mb := m1, sy_rs := rs, sy_w := w2\<rparr>)
        (modbus_rx_poll api (sy_mb y) (sy_rs y, w1)))"

lemmas [mb_defs] =
  coil_rd_def coil_wr_def input_reg_rd_def holding_reg_rd_def holding_reg_wr_def mb_frame_def
  modbus_raw_tx_cb_def modbus_submit_frame_def mb_absorb_def modbus_rx_poll_def
  modbus_service_init_def modbus_service_tick_def

section \<open>Frame assembly\<close>

definition mb_inv :: "'w mb_api \<Rightarrow> mb_state \<Rightarrow> bool" where
  "mb_inv api m \<longleftrightarrow> length (mb_rx_frame m) = MODBUS_BUFFER_SIZE api \<and>
     mb_rx_len m \<le> MODBUS_BUFFER_SIZE api \<and> length (input_reg m) = MB_INPUT_REG_NUM"

definition rx_bytes :: "mb_state \<Rightarrow> u8 list" where
  "rx_bytes m = take (mb_rx_len m) (mb_rx_frame m)"

lemma mb_absorb_inv:
  assumes "mb_inv api m" and "nat rd \<le> length tmp"
  shows "mb_inv api (fst (mb_absorb api m rd tmp sw))"
  using assms by (auto simp: mb_absorb_def mb_inv_def Let_def split: prod.split)

lemma mb_absorb_hb:
  "hb_last_ms (fst (mb_absorb api m rd tmp sw)) = hb_last_ms m \<and>
   input_reg (fst (mb_absorb api m rd tmp sw)) = input_reg m \<and>
   modbus_iface (fst (mb_absorb api m rd tmp sw)) = modbus_iface m"
  by (auto simp: mb_absorb_def Let_def split: prod.split)

lemma mb_absorb_appends:
  assumes "mb_inv api m" and "nat rd \<le> length tmp" and "mb_rx_len m + nat rd \<le> MODBUS_BUFFER_SIZE api"
  shows "rx_bytes (fst (mb_absorb api m rd tmp sw)) = rx_bytes m @ take (nat rd) tmp"
proof -
  have "mb_rx_len m + length (take (nat rd) tmp) = mb_rx_len m + nat rd" using assms(2) by simp
  moreover have "mb_rx_len m \<le> length (mb_rx_frame m)" using assms(1) by (simp add: mb_inv_def)
  ultimately show ?thesis
    using assms(3) take_mem_write [of "mb_rx_len m" "mb_rx_frame m" "take (nat rd) tmp"]
    by (auto simp: mb_absorb_def rx_bytes_def Let_def split: prod.split)
qed

text \<open>Whatever happens to the chunk, nothing is kept but a suffix of all the bytes.\<close>

lemma mb_absorb_suffix:
  assumes inv: "mb_inv api m" and len: "nat rd \<le> length tmp"
  shows "\<exists>pre. rx_bytes m @ take (nat rd) tmp = pre @ rx_bytes (fst (mb_absorb api m rd tmp sw))"
proof (cases "mb_rx_len m + nat rd \<le> MODBUS_BUFFER_SIZE api")
  case True
  then show ?thesis using mb_absorb_appends [OF inv len] by simp
next
  case False
  let ?m = "m\<lparr>mb_rx_len := 0\<rparr>"
  have eq: "mb_absorb api m rd tmp sw = mb_absorb api ?m rd tmp sw" using False by (simp add: mb_absorb_def Let_def)
  show ?thesis
  proof (cases "nat rd \<le> MODBUS_BUFFER_SIZE api")
    case True
    have "rx_bytes (fst (mb_absorb api ?m rd tmp sw)) = rx_bytes ?m @ take (nat rd) tmp"
      by (rule mb_absorb_appends) (use inv len True in \<open>simp_all add: mb_inv_def\<close>)
    then show ?thesis using eq by (simp add: rx_bytes_def)
  next
    case False
    then have "rx_bytes (fst (mb_absorb api ?m rd tmp sw)) = []" by (simp add: mb_absorb_def rx_bytes_def Let_def)
    then show ?thesis using eq by simp
  qed
qed

text \<open>The loop body leaves the ring alone.\<close>

lemma mb_absorb_source:
  assumes "rs_ok (mb_rs api) line" and "arrivals (mb_rs api) line left"
  shows "rs_queue line (snd (mb_absorb api m rd tmp sw)) = rs_queue line sw \<and>
    (left \<circ> snd) (snd (mb_absorb api m rd tmp sw)) = (left \<circ> snd) sw"
proof -
  obtain now w1 where up: "k_uptime_get (mb_rs api) (snd sw) = (now, w1)"
    by (cases "k_uptime_get (mb_rs api) (snd sw)")
  have "line w1 = line (snd sw)" using rs_ok_calls(7) [OF assms(1) up] .
  moreover have "left w1 = left (snd sw)" using assms(2) up unfolding arrivals_def by (metis snd_conv)
  ultimately show ?thesis by (auto simp: mb_absorb_def Let_def up rs_queue_def)
qed

end
