(* ===== verification/ModbusRx.thy ===== *)
theory ModbusRx
  imports ModbusService
begin

text \<open>
  Properties of the receive side of the Modbus service: what the polling loop assembles,
  which frames reach the server, and what it does with line noise. \<open>inbox\<close> is the record
  of the ADUs submitted to Zephyr's server. The facts about the polling loop come from the
  interpretation \<open>rs485\<close> of the \<open>byte_source\<close> interface.
\<close>

section \<open>What the RS485 service leaves alone\<close>

definition rs_keeps :: "'w rs_api \<Rightarrow> ('w \<Rightarrow> 'a) \<Rightarrow> bool" where
  "rs_keeps api f \<longleftrightarrow>
     (\<forall>v w. f (gpio_pin_set_dt api v w) = f w) \<and> (\<forall>w. f (k_sem_give api w) = f w) \<and>
     (\<forall>b n t w. f (snd (uart_rx_enable api b n t w)) = f w) \<and>
     (\<forall>b n w. f (uart_rx_buf_rsp api b n w) = f w) \<and>
     (\<forall>d w. f (snd (ring_buf_put api d w)) = f w) \<and>
     (\<forall>n w. f (snd (snd (ring_buf_get api n w))) = f w) \<and>
     (\<forall>w. f (snd (k_uptime_get api w)) = f w) \<and> (\<forall>n w. f (k_sleep_ms api n w) = f w) \<and>
     (\<forall>w ev w'. hw_irq api w = Some (ev, w') \<longrightarrow> f w' = f w)"

lemma rs_keepsD:
  assumes "rs_keeps api f"
  shows "f (gpio_pin_set_dt api v w) = f w" and "f (k_sem_give api w) = f w"
    and "f (uart_rx_buf_rsp api b n w) = f w" and "f (k_sleep_ms api m w) = f w"
    and "uart_rx_enable api b n t w = (r, w') \<Longrightarrow> f w' = f w"
    and "ring_buf_put api d w = (k, w') \<Longrightarrow> f w' = f w"
    and "ring_buf_get api k w = (len, d, w') \<Longrightarrow> f w' = f w"
    and "k_uptime_get api w = (now, w') \<Longrightarrow> f w' = f w"
    and "hw_irq api w = Some (ev, w') \<Longrightarrow> f w' = f w"
  using assms unfolding rs_keeps_def by (simp_all) (metis snd_conv)+

lemma on_hw_keeps:
  assumes "rs_keeps api f" and "on_hw api ev s w = (s', w')"
  shows "f w' = f w"
  using assms(2)
  by (auto simp: on_hw_def uart_cb_def Let_def rs_keepsD [OF assms(1)]
      split: hw_event.splits uart_event.splits prod.splits dest: rs_keepsD(5,6) [OF assms(1)])

lemma deliver_keeps:
  assumes keeps: "rs_keeps api f"
  shows "deliver api n s w = (s', w') \<Longrightarrow> f w' = f w"
proof (induction n arbitrary: s w)
  case (Suc n)
  then show ?case
    using on_hw_keeps [OF keeps] rs_keepsD(9) [OF keeps]
    by (fastforce split: option.splits prod.splits)
qed simp

lemma read_loop_keeps:
  assumes keeps: "rs_keeps api f"
    and run: "rs485_read_loop api ticks e max_len buf tot s w = Some r"
  shows "f (snd (snd (snd r))) = f w"
  using run
proof (induction rule: read_loop_induct)
  case (get buf tot s w s1 w1 len d w2 r)
  then show ?case using deliver_keeps [OF keeps get(2)] rs_keepsD(7) [OF keeps get(3)] by simp
next
  case (empty buf tot s w s1 w1 d w2)
  then show ?case using deliver_keeps [OF keeps empty(2)] rs_keepsD(7) [OF keeps empty(3)] by simp
next
  case (expired buf tot s w s1 w1 d w2 now w3)
  then show ?case
    using deliver_keeps [OF keeps expired(2)] rs_keepsD(7) [OF keeps expired(3)]
      rs_keepsD(8) [OF keeps expired(5)] by simp
next
  case (sleep buf tot s w s1 w1 d w2 now w3 r)
  then show ?case
    using deliver_keeps [OF keeps sleep(2)] rs_keepsD(7) [OF keeps sleep(3)]
      rs_keepsD(8) [OF keeps sleep(5)] rs_keepsD(4) [OF keeps] by simp
qed simp

lemma read_nowait_keeps:
  assumes keeps: "rs_keeps api f" and run: "rs485_read_nowait api sw n = Some (r, b, sw')"
  shows "f (snd sw') = f (snd sw)"
proof -
  obtain s' w' where sw': "sw' = (s', w')" by (cases sw')
  obtain e w1 t where e: "rs485_read_end api K_NO_WAIT (snd sw) = (e, w1)"
    and loop: "rs485_read_loop api K_NO_WAIT e n (replicate (unat n) 0) 0 (fst sw) w1 = Some (t, b, s', w')"
    using run by (auto simp: rs485_read_nowait_def rs485_read_def sw' split: prod.splits)
  have "f w1 = f (snd sw)"
    using e rs_keepsD(8) [OF keeps] by (auto simp: rs485_read_end_def Let_def split: prod.splits)
  then show ?thesis using read_loop_keeps [OF keeps loop] sw' by simp
qed

text \<open>The server's inbox: a submission appends the ADU, the RS485 platform leaves it alone.\<close>

definition inbox_ok :: "'w mb_api \<Rightarrow> ('w \<Rightarrow> modbus_adu list) \<Rightarrow> bool" where
  "inbox_ok api inbox \<longleftrightarrow> rs_keeps (mb_rs api) inbox \<and>
     (\<forall>i a w e w'. modbus_raw_submit_rx api i a w = (e, w') \<longrightarrow> inbox w' = inbox w @ [a])"

text \<open>Zephyr's little-endian helpers are inverse to each other.\<close>

definition codec_ok :: "'w mb_api \<Rightarrow> bool" where
  "codec_ok api \<longleftrightarrow> (\<forall>v. length (sys_put_le16 api v) = 2 \<and> sys_get_le16 api (sys_put_le16 api v) = v)"

section \<open>Submitting a frame\<close>

text \<open>The ADU a frame stands for, and when a frame is intact.\<close>

definition frame_intact :: "'w mb_api \<Rightarrow> u8 list \<Rightarrow> bool" where
  "frame_intact api f \<longleftrightarrow> 4 \<le> length f \<and>
     sys_get_le16 api (drop (length f - 2) f) = crc16_ansi api (take (length f - 2) f)"

definition adu_matches :: "modbus_adu \<Rightarrow> u8 list \<Rightarrow> bool" where
  "adu_matches a f \<longleftrightarrow> 4 \<le> length f \<and> adu_proto_id a = 0 \<and> adu_length a = of_nat (length f - 4) \<and>
     adu_unit_id a = f ! 0 \<and> adu_fc a = f ! 1 \<and>
     take (length f - 4) (adu_data a) = take (length f - 4) (drop 2 f)"

lemma submit_inbox:
  assumes ok: "inbox_ok api inbox" and inv: "mb_inv api m"
    and run: "modbus_submit_frame api m w = (m', w')"
  shows "m' = m\<lparr>mb_rx_len := 0\<rparr> \<and>
    (if frame_intact api (rx_bytes m)
     then \<exists>a. adu_matches a (rx_bytes m) \<and> adu_crc a = crc16_ansi api (take (mb_rx_len m - 2) (mb_rx_frame m)) \<and>
       length (adu_data a) = MODBUS_BUFFER_SIZE api - 4 \<and> inbox w' = inbox w @ [a]
     else w' = w)"
proof -
  let ?n = "mb_rx_len m" and ?f = "mb_rx_frame m"
  have n: "?n \<le> length ?f" "length ?f = MODBUS_BUFFER_SIZE api" using inv by (simp_all add: mb_inv_def)
  have len: "length (rx_bytes m) = ?n" using n by (simp add: rx_bytes_def)
  show ?thesis
  proof (cases "4 \<le> ?n")
    case False
    then show ?thesis using run len by (simp add: modbus_submit_frame_def frame_intact_def)
  next
    case True
    have tail: "take 2 (drop (?n - 2) ?f) = drop (?n - 2) (rx_bytes m)"
      using True by (simp add: rx_bytes_def drop_take)
    have front: "take (?n - 2) (rx_bytes m) = take (?n - 2) ?f" by (simp add: rx_bytes_def)
    show ?thesis
    proof (cases "frame_intact api (rx_bytes m)")
      case False
      then show ?thesis
        using run True by (simp add: modbus_submit_frame_def frame_intact_def len tail front)
    next
      case intact: True
      let ?z = "replicate (MODBUS_BUFFER_SIZE api - 4) 0"
      let ?a = "\<lparr>adu_proto_id = 0, adu_length = of_nat (?n - 4), adu_unit_id = ?f ! 0, adu_fc = ?f ! 1,
        adu_data = (if ?n - 4 > 0 then mem_write ?z 0 (take (?n - 4) (drop 2 ?f)) else ?z),
        adu_crc = sys_get_le16 api (drop (?n - 2) (rx_bytes m))\<rparr>"
      obtain e w1 where sub: "modbus_raw_submit_rx api (modbus_iface m) ?a w = (e, w1)"
        by (cases "modbus_raw_submit_rx api (modbus_iface m) ?a w")
      have eq: "m' = m\<lparr>mb_rx_len := 0\<rparr>" "w' = w1"
        using run True intact sub
        by (auto simp: modbus_submit_frame_def frame_intact_def len tail front Let_def)
      have k: "length (take (?n - 4) (drop 2 ?f)) = ?n - 4" using n True by simp
      have "take (?n - 4) (adu_data ?a) = take (?n - 4) (drop 2 ?f)"
        using take_mem_write_0 [of "take (?n - 4) (drop 2 ?f)" ?z] k by simp
      moreover have "take (?n - 4) (drop 2 (rx_bytes m)) = take (?n - 4) (drop 2 ?f)"
        using True by (simp add: rx_bytes_def drop_take)
      moreover have "rx_bytes m ! 0 = ?f ! 0" "rx_bytes m ! 1 = ?f ! 1"
        using True by (simp_all add: rx_bytes_def)
      ultimately have "adu_matches ?a (rx_bytes m)" using True by (simp add: adu_matches_def len)
      moreover have "length (adu_data ?a) = MODBUS_BUFFER_SIZE api - 4"
        using length_mem_write [of 0 "take (?n - 4) (drop 2 ?f)" ?z] k n by simp
      moreover have "adu_crc ?a = crc16_ansi api (take (?n - 2) ?f)"
        using intact by (simp add: frame_intact_def len front)
      moreover have "inbox w' = inbox w @ [?a]" using ok sub eq unfolding inbox_ok_def by blast
      ultimately show ?thesis using eq intact by auto
    qed
  qed
qed

lemma mb_frame_intact:
  assumes "codec_ok api" and "unat (adu_length a) \<le> length (adu_data a)"
  shows "frame_intact api (mb_frame api a) \<and> length (mb_frame api a) = unat (adu_length a) + 4"
  using assms by (auto simp: frame_intact_def mb_frame_def codec_ok_def Let_def min_def)

section \<open>The polling loop\<close>

text \<open>A poll is the drain, then possibly a submission.\<close>

lemma pollE:
  assumes "modbus_rx_poll api m sw = Some (m', s', w')"
  obtains (submit) m1 w1 now w2 where
      "drain (\<lambda>sw. rs485_read_nowait (mb_rs api) sw MB_POLL_BUF_LEN) (mb_absorb api) m sw = Some (m1, s', w1)"
      "k_uptime_get (mb_rs api) w1 = (now, w2)" "4 \<le> mb_rx_len m1"
      "modbus_submit_frame api m1 w2 = (m', w')"
  | (wait) w1 now where
      "drain (\<lambda>sw. rs485_read_nowait (mb_rs api) sw MB_POLL_BUF_LEN) (mb_absorb api) m sw = Some (m', s', w1)"
      "k_uptime_get (mb_rs api) w1 = (now, w')"
      "mb_rx_len m' < 4 \<or> sint (now - mb_last_rx_ms m') < MB_FRAME_GAP_MS"
proof -
  obtain m1 s1 w1 where d: "drain (\<lambda>sw. rs485_read_nowait (mb_rs api) sw MB_POLL_BUF_LEN) (mb_absorb api) m sw
    = Some (m1, s1, w1)" using assms by (auto simp: modbus_rx_poll_def)
  obtain now w2 where up: "k_uptime_get (mb_rs api) w1 = (now, w2)" by (cases "k_uptime_get (mb_rs api) w1")
  show thesis
  proof (cases "4 \<le> mb_rx_len m1 \<and> MB_FRAME_GAP_MS \<le> sint (now - mb_last_rx_ms m1)")
    case True
    then have "s1 = s'" "modbus_submit_frame api m1 w2 = (m', w')"
      using assms d up by (auto simp: modbus_rx_poll_def split: prod.splits)
    then show thesis using submit d up True by blast
  next
    case False
    then have "m1 = m'" "s1 = s'" "w2 = w'"
      using assms d up by (auto simp: modbus_rx_poll_def)
    then show thesis using wait d up False by (auto simp: not_le)
  qed
qed

lemma absorb_body:
  assumes "rs_ok (mb_rs api) line" and "arrivals (mb_rs api) line left"
  shows "(rs_ok (mb_rs api) line \<and> arrivals (mb_rs api) line left) \<and>
   rs_queue line (snd (mb_absorb api m r b s)) = rs_queue line s \<and>
   (left \<circ> snd) (snd (mb_absorb api m r b s)) = (left \<circ> snd) s"
  using mb_absorb_source [OF assms] assms by simp

lemma poll_drain_returns:
  assumes "rs_ok (mb_rs api) line" and "arrivals (mb_rs api) line left"
  shows "\<exists>m' sw'. drain (\<lambda>sw. rs485_read_nowait (mb_rs api) sw MB_POLL_BUF_LEN) (mb_absorb api) m sw
    = Some (m', sw')"
  by (rule rs485.drain_returns [where line = line and left = left]) (use absorb_body [OF assms] assms in simp_all)

lemma poll_drain_collects:
  assumes ok: "rs_ok (mb_rs api) line" and arr: "arrivals (mb_rs api) line left"
    and quiet: "left (snd sw) = 0" and inv: "mb_inv api m"
    and fits: "mb_rx_len m + length (rs_queue line sw) \<le> MODBUS_BUFFER_SIZE api"
    and run: "drain (\<lambda>sw. rs485_read_nowait (mb_rs api) sw MB_POLL_BUF_LEN) (mb_absorb api) m sw
      = Some (m', sw')"
  shows "rx_bytes m' = rx_bytes m @ rs_queue line sw \<and> mb_inv api m' \<and> rs_queue line sw' = [] \<and>
    left (snd sw') = 0"
proof -
  have len: "length (rx_bytes m) = mb_rx_len m" if "mb_inv api m" for m
    using that by (simp add: rx_bytes_def mb_inv_def)
  have step: "mb_inv api (fst (mb_absorb api m r b s)) \<and>
      rx_bytes (fst (mb_absorb api m r b s)) = rx_bytes m @ take (nat r) b"
    if "mb_inv api m" "0 < r" "nat r \<le> length b" "length (rx_bytes m) + nat r \<le> MODBUS_BUFFER_SIZE api"
    for m r b s
    using that mb_absorb_inv [OF that(1,3)] mb_absorb_appends [OF that(1,3)] len [OF that(1)] by simp
  have "rx_bytes m' = rx_bytes m @ rs_queue line sw \<and> mb_inv api m' \<and> rs_queue line sw' = [] \<and>
    (rs_ok (mb_rs api) line \<and> arrivals (mb_rs api) line left) \<and> (left \<circ> snd) sw' = 0"
  proof (rule rs485.drain_collects [where cap = "MODBUS_BUFFER_SIZE api" and body = "mb_absorb api"])
    show "0 < unat MB_POLL_BUF_LEN" "unat MB_POLL_BUF_LEN < 2 ^ 31" by simp_all
    show "length (rx_bytes m) + length (rs_queue line sw) \<le> MODBUS_BUFFER_SIZE api"
      using fits len [OF inv] by simp
    show "(left \<circ> snd) sw = 0" using quiet by simp
  qed (use step inv run ok arr absorb_body [OF ok arr] in \<open>simp_all\<close>)
  then show ?thesis by simp
qed

lemma poll_drain_suffix:
  assumes ok: "rs_ok (mb_rs api) line" and arr: "arrivals (mb_rs api) line left" and inv: "mb_inv api m"
    and run: "drain (\<lambda>sw. rs485_read_nowait (mb_rs api) sw MB_POLL_BUF_LEN) (mb_absorb api) m sw
      = Some (m', sw')"
  shows "mb_inv api m' \<and>
    (\<exists>arrived pre. rx_bytes m @ rs_queue line sw @ arrived = pre @ rx_bytes m' @ rs_queue line sw')"
proof -
  have "mb_inv api m' \<and> (rs_ok (mb_rs api) line \<and> arrivals (mb_rs api) line left) \<and>
    (\<exists>arrived pre. rx_bytes m @ rs_queue line sw @ arrived = pre @ rx_bytes m' @ rs_queue line sw')"
  proof (rule rs485.drain_suffix [OF _ _ _ run])
    show "mb_inv api (fst (mb_absorb api m r b s)) \<and>
        (\<exists>pre. rx_bytes m @ take (nat r) b = pre @ rx_bytes (fst (mb_absorb api m r b s)))"
      if "mb_inv api m" "nat r \<le> length b" for m r b s
      using mb_absorb_inv [OF that] mb_absorb_suffix [OF that] by blast
  qed (use inv ok arr absorb_body [OF ok arr] in \<open>simp_all\<close>)
  then show ?thesis by blast
qed

lemma poll_drain_keeps:
  assumes ok: "rs_ok (mb_rs api) line" and arr: "arrivals (mb_rs api) line left"
    and f: "rs_keeps (mb_rs api) f"
    and P: "\<And>m r b sw. P m \<Longrightarrow> 0 < r \<Longrightarrow> nat r \<le> length b \<Longrightarrow> P (fst (mb_absorb api m r b sw))"
    and "P m"
    and run: "drain (\<lambda>sw. rs485_read_nowait (mb_rs api) sw MB_POLL_BUF_LEN) (mb_absorb api) m sw
      = Some (m', sw')"
  shows "P m' \<and> f (snd sw') = f (snd sw)"
proof -
  have keep: "f (snd (snd (mb_absorb api m r b s))) = f (snd s)" for m r b s
    using rs_keepsD(8) [OF f]
    by (auto simp: mb_absorb_def Let_def split: prod.split)
  have body: "(rs_ok (mb_rs api) line \<and> arrivals (mb_rs api) line left) \<and> P m2 \<and> f (snd s2) = f (snd sw)"
    if "P m1 \<and> f (snd s1) = f (snd sw)" "0 < r" "nat r \<le> length b" "mb_absorb api m1 r b s1 = (m2, s2)"
    for m1 r b s1 m2 s2
    using P [of m1 r b s1] keep [of m1 r b s1] that ok arr by simp
  have "(rs_ok (mb_rs api) line \<and> arrivals (mb_rs api) line left) \<and> P m' \<and> f (snd sw') = f (snd sw)"
  proof (rule rs485.drain_keeps [where P = "\<lambda>m s. P m \<and> f (snd s) = f (snd sw)" and body = "mb_absorb api"])
    show "unat MB_POLL_BUF_LEN < 2 ^ 31" by simp
    show "P m1 \<and> f (snd s') = f (snd sw)"
      if "P m1 \<and> f (snd s) = f (snd sw)" "rs485_read_nowait (mb_rs api) s MB_POLL_BUF_LEN = Some (r, b, s')"
      for m1 s r b s' using read_nowait_keeps [OF f that(2)] that(1) by simp
    show "rs_ok (mb_rs api) line \<and> arrivals (mb_rs api) line left" using ok arr ..
    show "P m \<and> f (snd sw) = f (snd sw)" using assms(5) by simp
    show "(rs_ok (mb_rs api) line \<and> arrivals (mb_rs api) line left) \<and> P m2 \<and> f (snd s2) = f (snd sw)"
      if "P m1 \<and> f (snd s1) = f (snd sw)" "0 < r" "nat r \<le> length b" "mb_absorb api m1 r b s1 = (m2, s2)"
      for m1 r b s1 m2 s2 using that by (rule body)
    show "drain (\<lambda>sw. rs485_read_nowait (mb_rs api) sw MB_POLL_BUF_LEN) (mb_absorb api) m sw
      = Some (m', sw')" by (rule run)
  qed
  then show ?thesis by simp
qed

end
