(* ===== verification/ModbusProps.thy ===== *)
theory ModbusProps
  imports ModbusRx
begin

text \<open>
  The properties of the receive side of the Modbus service, and the simulated platform on
  which their hypotheses hold.
\<close>

section \<open>The clock during a poll\<close>

lemma read_loop_now:
  assumes clk: "clock_runs api now"
    and run: "rs485_read_loop api ticks e max_len buf tot s w = Some r"
  shows "now w \<le> now (snd (snd (snd r)))"
proof -
  have del: "now w \<le> now w1" if "deliver api n s w = (s1, w1)" for n s w s1 w1
    using clk that unfolding clock_runs_def by (metis snd_conv)
  have get: "now w \<le> now w1" if "ring_buf_get api n w = (l, d, w1)" for n w l d w1
    using clk that unfolding clock_runs_def by (metis snd_conv)
  have up: "now w \<le> now w1" if "k_uptime_get api w = (t, w1)" for t w w1
    using clk that unfolding clock_runs_def by blast
  have slp: "now w \<le> now (k_sleep_ms api 1 w)" for w
    using clk unfolding clock_runs_def by (metis add_increasing2 le_add_same_cancel1 order_trans zero_le_one)
  show ?thesis
    using run
  proof (induction rule: read_loop_induct)
    case (get buf tot s w s1 w1 len d w2 r)
    then show ?case using del [OF get(2)] \<open>\<And>w1 w n l d. ring_buf_get api n w = (l, d, w1) \<Longrightarrow> now w \<le> now w1\<close> [OF get(3)] by simp
  next
    case (empty buf tot s w s1 w1 d w2)
    show ?case using del [OF empty(2)] get [OF empty(3)] by simp
  next
    case (expired buf tot s w s1 w1 d w2 t w3)
    show ?case using del [OF expired(2)] get [OF expired(3)] up [OF expired(5)] by simp
  next
    case (sleep buf tot s w s1 w1 d w2 t w3 r)
    show ?case using del [OF sleep(2)] get [OF sleep(3)] up [OF sleep(5)] slp [of w3] sleep(6) by linarith
  qed simp
qed

lemma read_nowait_now:
  assumes clk: "clock_runs api now" and run: "rs485_read_nowait api sw n = Some (r, b, sw')"
  shows "now (snd sw) \<le> now (snd sw')"
proof -
  obtain s' w' where sw': "sw' = (s', w')" by (cases sw')
  obtain e w1 t where e: "rs485_read_end api K_NO_WAIT (snd sw) = (e, w1)"
    and loop: "rs485_read_loop api K_NO_WAIT e n (replicate (unat n) 0) 0 (fst sw) w1 = Some (t, b, s', w')"
    using run by (auto simp: rs485_read_nowait_def rs485_read_def sw' split: prod.splits)
  have "now (snd sw) \<le> now w1"
    using e clk unfolding clock_runs_def
    by (auto simp: rs485_read_end_def Let_def split: prod.splits)
  then show ?thesis using read_loop_now [OF clk loop] sw' by simp
qed

lemma poll_drain_now:
  assumes ok: "rs_ok (mb_rs api) line" and arr: "arrivals (mb_rs api) line left"
    and clk: "clock_runs (mb_rs api) now"
    and run: "drain (\<lambda>sw. rs485_read_nowait (mb_rs api) sw MB_POLL_BUF_LEN) (mb_absorb api) m sw
      = Some (m', sw')"
  shows "now (snd sw) \<le> now (snd sw')"
proof -
  have up: "now w \<le> now w1" if "k_uptime_get (mb_rs api) w = (t, w1)" for t w w1
    using clk that unfolding clock_runs_def by blast
  have "(rs_ok (mb_rs api) line \<and> arrivals (mb_rs api) line left) \<and> now (snd sw) \<le> now (snd sw')"
  proof (rule rs485.drain_keeps [where P = "\<lambda>m s. now (snd sw) \<le> now (snd s)" and body = "mb_absorb api"])
    show "unat MB_POLL_BUF_LEN < 2 ^ 31" by simp
    show "(rs_ok (mb_rs api) line \<and> arrivals (mb_rs api) line left) \<and> now (snd sw) \<le> now (snd s2)"
      if "now (snd sw) \<le> now (snd s1)" "mb_absorb api m1 r b s1 = (m2, s2)" for m1 r b s1 m2 s2
      using that ok arr up by (fastforce simp: mb_absorb_def Let_def split: prod.splits if_splits)
    show "now (snd sw) \<le> now (snd s')"
      if "now (snd sw) \<le> now (snd s)" "rs485_read_nowait (mb_rs api) s MB_POLL_BUF_LEN = Some (r, b, s')"
      for s r b s' using read_nowait_now [OF clk that(2)] that(1) by simp
    show "rs_ok (mb_rs api) line \<and> arrivals (mb_rs api) line left" using ok arr ..
    show "now (snd sw) \<le> now (snd sw)" by simp
    show "drain (\<lambda>sw. rs485_read_nowait (mb_rs api) sw MB_POLL_BUF_LEN) (mb_absorb api) m sw
      = Some (m', sw')" by (rule run)
  qed
  then show ?thesis by simp
qed

lemma poll_drain_idle:
  assumes ok: "rs_ok (mb_rs api) line" and arr: "arrivals (mb_rs api) line left"
    and idle: "left (snd sw) = 0" "rs_queue line sw = []"
    and run: "drain (\<lambda>sw. rs485_read_nowait (mb_rs api) sw MB_POLL_BUF_LEN) (mb_absorb api) m sw
      = Some (m', sw')"
  shows "m' = m"
proof -
  obtain r b t where rd: "rs485_read_nowait (mb_rs api) sw MB_POLL_BUF_LEN = Some (r, b, t)"
    using run by (subst (asm) drain.simps) (auto split: option.splits)
  note post = rs485_read_nowait_post [OF arr ok _ rd]
  have "r \<le> 0" using post idle by (auto dest: arg_cong [where f = length])
  then show ?thesis using run rd by (subst (asm) drain.simps) simp
qed

lemma elapsed_word:
  assumes "sint (t :: s64) = min k (2 ^ 63 - 1)" and "0 \<le> sint l" and "sint l + d \<le> k" and "sint l + d < 2 ^ 63" and "0 \<le> d"
  shows "d \<le> sint (t - l)"
proof -
  have "sint l + d \<le> sint t" using assms by (simp add: min_def)
  moreover have "sint t < 2 ^ 63" using assms(1) by (simp add: min_def)
  ultimately have "sint (t - l) = sint t - sint l"
    using assms(2,5) by (simp add: signed_take_bit_int_eq_self_iff sint_word_ariths)
  then show ?thesis using \<open>sint l + d \<le> sint t\<close> by simp
qed

section \<open>Properties\<close>

lemma rx_bytes_len0 [simp]: "rx_bytes (m\<lparr>mb_rx_len := 0\<rparr>) = []"
  by (simp add: rx_bytes_def)

lemma mb_inv_reset [simp]: "mb_inv api m \<Longrightarrow> mb_inv api (m\<lparr>mb_rx_len := 0\<rparr>)"
  by (simp add: mb_inv_def)

lemma length_rx_bytes: "mb_inv api m \<Longrightarrow> length (rx_bytes m) = mb_rx_len m"
  by (simp add: rx_bytes_def mb_inv_def)

text \<open>
  A poll keeps the frame buffer within its bounds, whatever arrives on the line, and
  passes on at most one ADU, whose fields come from a complete frame with a matching CRC
  and whose payload fits the ADU's data array. A damaged frame never reaches the server.
\<close>

lemma modbus_poll_safe:
  assumes ok: "rs_ok (mb_rs api) line" and arr: "arrivals (mb_rs api) line left"
    and inbox: "inbox_ok api inbox" and inv: "mb_inv api m"
    and run: "modbus_rx_poll api m (s, w) = Some (m', s', w')"
  shows "mb_inv api m' \<and>
    (inbox w' = inbox w \<or>
     (\<exists>a f. inbox w' = inbox w @ [a] \<and> frame_intact api f \<and> adu_matches a f \<and>
        length f - 4 \<le> length (adu_data a)))"
proof -
  have keeps: "rs_keeps (mb_rs api) inbox" using inbox by (simp add: inbox_ok_def)
  note drained = poll_drain_keeps [OF ok arr keeps, where P = "mb_inv api", OF mb_absorb_inv inv]
  show ?thesis
    using run
  proof (cases rule: pollE)
    case (submit m1 w1 now w2)
    have inv1: "mb_inv api m1" and w1: "inbox w1 = inbox w" using drained [OF _ _ submit(1)] by simp_all
    have w2: "inbox w2 = inbox w" using w1 rs_keepsD(8) [OF keeps submit(2)] by simp
    note sub = submit_inbox [OF inbox inv1 submit(4)]
    have "length (rx_bytes m1) \<le> MODBUS_BUFFER_SIZE api"
      using inv1 length_rx_bytes [OF inv1] by (simp add: mb_inv_def)
    then show ?thesis
      using sub inv1 w2 by (cases "frame_intact api (rx_bytes m1)") (auto intro!: exI [of _ "rx_bytes m1"])
  next
    case (wait w1 now)
    then show ?thesis using drained [OF _ _ wait(1)] rs_keepsD(8) [OF keeps wait(2)] by simp
  qed
qed

lemma adu_matches_frame:
  assumes "codec_ok api" and "unat (adu_length a) \<le> length (adu_data a)" and "adu_matches b (mb_frame api a)"
  shows "adu_unit_id b = adu_unit_id a \<and> adu_fc b = adu_fc a \<and> adu_length b = adu_length a \<and>
    take (unat (adu_length a)) (adu_data b) = take (unat (adu_length a)) (adu_data a)"
proof -
  have len: "length (mb_frame api a) - 4 = unat (adu_length a)"
    using mb_frame_intact [OF assms(1,2)] by simp
  have "mb_frame api a ! 0 = adu_unit_id a" "mb_frame api a ! 1 = adu_fc a"
    by (simp_all add: mb_frame_def Let_def)
  moreover have "take (unat (adu_length a)) (drop 2 (mb_frame api a)) = take (unat (adu_length a)) (adu_data a)"
    using assms(2) by (auto simp: mb_frame_def Let_def)
  ultimately show ?thesis using assms(3) len by (simp add: adu_matches_def)
qed

text \<open>
  Sender and receiver agree: when the bytes received so far and the bytes waiting in the
  ring together are the frame of some ADU, the poll returns, and afterwards the complete
  frame is either still held or has reached the server as exactly one ADU with the same
  unit, function code, length and payload.
\<close>

lemma modbus_frame_round_trip:
  assumes ok: "rs_ok (mb_rs api) line" and arr: "arrivals (mb_rs api) line left"
    and inbox: "inbox_ok api inbox" and codec: "codec_ok api" and inv: "mb_inv api m"
    and quiet: "left w = 0" and data: "unat (adu_length a) \<le> length (adu_data a)"
    and frame: "rx_bytes m @ ln_ring (line w) = mb_frame api a"
    and fits: "unat (adu_length a) + 4 \<le> MODBUS_BUFFER_SIZE api"
  shows "\<exists>m' s' w'. modbus_rx_poll api m (s, w) = Some (m', s', w') \<and>
    (inbox w' = inbox w \<and> rx_bytes m' = mb_frame api a \<or>
     mb_rx_len m' = 0 \<and> (\<exists>b. inbox w' = inbox w @ [b] \<and> adu_unit_id b = adu_unit_id a \<and>
       adu_fc b = adu_fc a \<and> adu_length b = adu_length a \<and>
       take (unat (adu_length a)) (adu_data b) = take (unat (adu_length a)) (adu_data a)))"
proof -
  have keeps: "rs_keeps (mb_rs api) inbox" using inbox by (simp add: inbox_ok_def)
  note intact = mb_frame_intact [OF codec data]
  have len: "mb_rx_len m + length (rs_queue line (s, w)) \<le> MODBUS_BUFFER_SIZE api"
    using arg_cong [OF frame, of length] intact length_rx_bytes [OF inv] fits by (simp add: rs_queue_def)
  obtain m0 sw0 where "drain (\<lambda>sw. rs485_read_nowait (mb_rs api) sw MB_POLL_BUF_LEN) (mb_absorb api) m (s, w)
    = Some (m0, sw0)" using poll_drain_returns [OF ok arr] by blast
  then obtain m' s' w' where run: "modbus_rx_poll api m (s, w) = Some (m', s', w')"
    by (cases sw0, cases "modbus_rx_poll api m (s, w)") (auto simp: modbus_rx_poll_def)
  have assembled: "rx_bytes m1 = mb_frame api a \<and> mb_inv api m1 \<and> inbox w1 = inbox w"
    if d: "drain (\<lambda>sw. rs485_read_nowait (mb_rs api) sw MB_POLL_BUF_LEN) (mb_absorb api) m (s, w)
      = Some (m1, s', w1)" for m1 w1
    using poll_drain_collects [OF ok arr _ inv len d] quiet frame
      poll_drain_keeps [OF ok arr keeps, where P = "\<lambda>m. True", OF _ _ d] by (simp add: rs_queue_def)
  have "inbox w' = inbox w \<and> rx_bytes m' = mb_frame api a \<or>
     mb_rx_len m' = 0 \<and> (\<exists>b. inbox w' = inbox w @ [b] \<and> adu_unit_id b = adu_unit_id a \<and>
       adu_fc b = adu_fc a \<and> adu_length b = adu_length a \<and>
       take (unat (adu_length a)) (adu_data b) = take (unat (adu_length a)) (adu_data a))"
    using run
  proof (cases rule: pollE)
    case (submit m1 w1 now w2)
    note as = assembled [OF submit(1)]
    have w2: "inbox w2 = inbox w" using as rs_keepsD(8) [OF keeps submit(2)] by simp
    from submit_inbox [OF inbox conjunct1 [OF conjunct2 [OF as]] submit(4)] as intact obtain b
      where "adu_matches b (mb_frame api a)" "inbox w' = inbox w2 @ [b]" "m' = m1\<lparr>mb_rx_len := 0\<rparr>"
      by auto
    then show ?thesis using adu_matches_frame [OF codec data, of b] w2 by auto
  next
    case (wait w1 now)
    then show ?thesis using assembled [OF wait(1)] rs_keepsD(8) [OF keeps wait(2)] by simp
  qed
  with run show ?thesis by blast
qed

text \<open>
  A complete frame is not held forever: once the line has been silent for the frame gap
  of 2 ms, the next poll hands it to the server.
\<close>

theorem modbus_frame_submitted_after_gap:
  assumes ok: "rs_ok (mb_rs api) line" and arr: "arrivals (mb_rs api) line left"
    and clk: "clock_runs (mb_rs api) now"
    and inbox: "inbox_ok api inbox" and inv: "mb_inv api m" and intact: "frame_intact api (rx_bytes m)"
    and silent: "left w = 0" "ln_ring (line w) = []"
    and gap: "0 \<le> sint (mb_last_rx_ms m)" "sint (mb_last_rx_ms m) + 2 \<le> now w"
      "sint (mb_last_rx_ms m) + 2 < 2 ^ 63"
  shows "\<exists>m' s' w' a. modbus_rx_poll api m (s, w) = Some (m', s', w') \<and> mb_rx_len m' = 0 \<and>
    inbox w' = inbox w @ [a] \<and> adu_matches a (rx_bytes m)"
proof -
  have keeps: "rs_keeps (mb_rs api) inbox" using inbox by (simp add: inbox_ok_def)
  obtain m1 s1 w1 where d: "drain (\<lambda>sw. rs485_read_nowait (mb_rs api) sw MB_POLL_BUF_LEN) (mb_absorb api) m (s, w)
    = Some (m1, s1, w1)" using poll_drain_returns [OF ok arr] by (metis surj_pair)
  have m1: "m1 = m" using poll_drain_idle [OF ok arr _ _ d] silent by (simp add: rs_queue_def)
  have w1: "inbox w1 = inbox w" using poll_drain_keeps [OF ok arr keeps, where P = "\<lambda>m. True", OF _ _ d] by simp
  obtain t w2 where up: "k_uptime_get (mb_rs api) w1 = (t, w2)" by (cases "k_uptime_get (mb_rs api) w1")
  obtain m' w' where sub: "modbus_submit_frame api m w2 = (m', w')"
    by (cases "modbus_submit_frame api m w2")
  have "now w \<le> now w1" using poll_drain_now [OF ok arr clk d] by simp
  moreover have "sint t = min (now w1) (2 ^ 63 - 1)" using clk up unfolding clock_runs_def by blast
  ultimately have "2 \<le> sint (t - mb_last_rx_ms m)"
    using elapsed_word [of t "now w1" "mb_last_rx_ms m" 2] gap by simp
  moreover have "4 \<le> mb_rx_len m" using intact length_rx_bytes [OF inv] by (simp add: frame_intact_def)
  ultimately have "modbus_rx_poll api m (s, w) = Some (m', s1, w')"
    using d up sub m1 by (simp add: modbus_rx_poll_def)
  moreover have "inbox w2 = inbox w" using w1 rs_keepsD(8) [OF keeps up] by simp
  ultimately show ?thesis using submit_inbox [OF inbox inv sub] intact by auto
qed

text \<open>
  C39. Line noise of one to three bytes is never discarded: however long the line is silent,
  a poll keeps it, and the bytes of the next frame are appended to it. The branch of
  \<open>modbus_submit_frame\<close> that would discard it is not reached.
\<close>

theorem modbus_noise_is_kept:
  assumes ok: "rs_ok (mb_rs api) line" and arr: "arrivals (mb_rs api) line left" and inv: "mb_inv api m"
    and quiet: "left w = 0" and noise: "mb_rx_len m < 4"
    and fits: "mb_rx_len m + length (ln_ring (line w)) \<le> MODBUS_BUFFER_SIZE api"
    and run: "modbus_rx_poll api m (s, w) = Some (m', s', w')"
  shows "(ln_ring (line w) = [] \<longrightarrow> m' = m) \<and>
    (rx_bytes m' = rx_bytes m @ ln_ring (line w) \<or>
     mb_rx_len m' = 0 \<and> 4 \<le> mb_rx_len m + length (ln_ring (line w)))"
proof -
  have d: "rx_bytes m1 = rx_bytes m @ ln_ring (line w) \<and> mb_inv api m1 \<and> (ln_ring (line w) = [] \<longrightarrow> m1 = m)"
    if "drain (\<lambda>sw. rs485_read_nowait (mb_rs api) sw MB_POLL_BUF_LEN) (mb_absorb api) m (s, w)
      = Some (m1, s', w1)" for m1 w1
    using poll_drain_collects [OF ok arr _ inv _ that] poll_drain_idle [OF ok arr _ _ that] quiet fits
    by (simp add: rs_queue_def)
  show ?thesis
    using run
  proof (cases rule: pollE)
    case (submit m1 w1 now w2)
    have len: "mb_rx_len m1 = mb_rx_len m + length (ln_ring (line w))"
      using d [OF submit(1)] length_rx_bytes inv by (metis length_append)
    have "m' = m1\<lparr>mb_rx_len := 0\<rparr>"
      using submit(4) by (auto simp: modbus_submit_frame_def Let_def split: if_splits prod.splits)
    then show ?thesis using d [OF submit(1)] submit(3) noise len by auto
  next
    case (wait w1 now)
    then show ?thesis using d [OF wait(1)] by blast
  qed
qed

end
