(* ===== verification/Rs485Rx.thy ===== *)
theory Rs485Rx
  imports Rs485Read
begin

text \<open>
  The properties of \<open>rs485_read\<close> and of the two receive buffers that the driver holds.
\<close>

section \<open>The two buffers\<close>

definition alt_inv :: "rs_state \<Rightarrow> rs_line \<Rightarrow> bool" where
  "alt_inv s l \<longleftrightarrow>
     (ln_cur l = None \<longrightarrow> ln_next l = None) \<and>
     (\<forall>a. ln_cur l = Some a \<longrightarrow> a < 2 \<and>
        (ln_next l = None \<longrightarrow> rx_buf_idx s = int (1 - a)) \<and>
        (\<forall>n. ln_next l = Some n \<longrightarrow> n = 1 - a \<and> rx_buf_idx s = int a))"

definition same_bufs :: "rs_line \<Rightarrow> rs_line \<Rightarrow> bool" where
  "same_bufs l m \<longleftrightarrow> ln_cur l = ln_cur m \<and> ln_next l = ln_next m"

lemma alt_inv_same: "same_bufs l m \<Longrightarrow> rx_buf_idx s = rx_buf_idx t \<Longrightarrow> alt_inv t m \<Longrightarrow> alt_inv s l"
  by (simp add: alt_inv_def same_bufs_def)

lemma idx_flip: "a < 2 \<Longrightarrow> int (1 - a) XOR 1 = int a"
  by (cases "a = 0") (auto simp: less_2_cases_iff)

lemma alt_inv_request:
  assumes ok: "rs_ok api line" and inv: "alt_inv s (line w)" and irq: "hw_irq api w = Some (ev, w1)"
    and ev: "ev = Uart_irq UART_RX_BUF_REQUEST" and cb: "on_hw api ev s w1 = (s', w2)"
  shows "alt_inv s' (line w2)"
proof -
  have l: "ln_cur (line w) \<noteq> None" "ln_next (line w) = None" "line w1 = line w"
    using rs_ok_calls(8) [OF ok irq] ev by simp_all
  obtain a where a: "ln_cur (line w) = Some a" using l by blast
  have idx: "a < 2" "rx_buf_idx s = int (1 - a)" using inv a l by (simp_all add: alt_inv_def)
  have "line w2 = (line w)\<lparr>ln_next := Some (1 - a)\<rparr>" "rx_buf_idx s' = rx_buf_idx s XOR 1"
    using cb ev l a idx by (auto simp: on_hw_def uart_cb_def rs_ok_pure [OF ok])
  then show ?thesis using a idx idx_flip [OF idx(1)] by (simp add: alt_inv_def)
qed

lemma alt_inv_irq:
  assumes ok: "rs_ok api line" and inv: "alt_inv s (line w)" and irq: "hw_irq api w = Some (ev, w1)"
    and ev: "ev \<noteq> Uart_irq UART_RX_DISABLED" and cb: "on_hw api ev s w1 = (s', w2)"
  shows "alt_inv s' (line w2)"
proof (cases "ev = Uart_irq UART_RX_BUF_REQUEST")
  case True
  then show ?thesis using alt_inv_request [OF ok inv irq _ cb] by simp
next
  case False
  note i = rs_ok_calls(8) [OF ok irq]
  have same: "same_bufs (line w2) (line w1) \<and> rx_buf_idx s' = rx_buf_idx s"
    using cb ev False
    by (auto simp: on_hw_def uart_cb_def Let_def same_bufs_def rs_ok_pure [OF ok]
        split: hw_event.splits uart_event.splits prod.splits dest!: rs_ok_calls(5) [OF ok])
  show ?thesis
  proof (cases "\<exists>b. ev = Uart_irq (UART_RX_BUF_RELEASED b)")
    case True
    then obtain b where b: "ev = Uart_irq (UART_RX_BUF_RELEASED b)" by blast
    have "ln_cur (line w) = Some b" "line w1 = (line w)\<lparr>ln_cur := ln_next (line w), ln_next := None\<rparr>"
      using i b by simp_all
    then have "alt_inv s (line w1)" using inv by (auto simp: alt_inv_def)
    then show ?thesis using same alt_inv_same by blast
  next
    case no: False
    have "same_bufs (line w1) (line w)"
      using i no ev False by (cases "(ev, line w)" rule: irq_line.cases) (auto simp: same_bufs_def)
    then show ?thesis using same inv alt_inv_same by (metis same_bufs_def)
  qed
qed

text \<open>Reception is never disabled by the hardware.\<close>

definition rx_stays_on :: "'w rs_api \<Rightarrow> bool" where
  "rx_stays_on api \<longleftrightarrow> (\<forall>w ev w1. hw_irq api w = Some (ev, w1) \<longrightarrow> ev \<noteq> Uart_irq UART_RX_DISABLED)"

lemma alt_inv_step:
  assumes ok: "rs_ok api line" and on: "rx_stays_on api"
    and "rs_lstep api (pc, s, w) l (pc', s', w')" and "alt_inv s (line w)"
  shows "alt_inv s' (line w')"
  using assms(3,4)
proof (cases rule: rs_lstep.cases)
  case (Irq ev w1)
  then show ?thesis using alt_inv_irq [OF ok assms(4)] on unfolding rx_stays_on_def by blast
next
  case (R_get n len d)
  then show ?thesis
    using rs_ok_calls(6) [OF ok, of n w len d w'] assms(4) alt_inv_same [of "line w'" "line w" s' s]
    by (simp add: same_bufs_def)
next
  case (R_time now)
  then show ?thesis using rs_ok_calls(7) [OF ok, of w now w'] assms(4) by simp
next
  case (W_start len)
  then show ?thesis using rs_ok_calls(4) [OF ok, of "tx_buf s" len w 0 w'] assms(4)
    by (simp add: alt_inv_def)
next
  case (W_refused len r)
  then show ?thesis using rs_ok_calls(4) [OF ok, of "tx_buf s" len w r w'] assms(4) by simp
next
  case W_blocked
  then show ?thesis using rs_ok_calls(1) [OF ok, of w False w'] assms(4) by (simp add: alt_inv_def)
next
  case W_wake
  then show ?thesis using rs_ok_calls(1) [OF ok, of w True w'] assms(4) by (simp add: alt_inv_def)
qed (auto simp: rs_ok_pure [OF ok] alt_inv_def)

lemma alt_inv_steps:
  assumes "rs_ok api line" and "rx_stays_on api"
    and "(rs_step api)\<^sup>*\<^sup>* (pc, s, w) (pc', s', w')" and "alt_inv s (line w)"
  shows "alt_inv s' (line w')"
  using assms(3,4)
proof (induction "(pc', s', w')" arbitrary: pc' s' w' rule: rtranclp_induct)
  case (step y)
  obtain p t v where "y = (p, t, v)" by (cases y)
  then show ?case using alt_inv_step [OF assms(1,2)] step by (blast elim: rs_stepE)
qed simp

section \<open>Properties\<close>

text \<open>
  C15. \<open>rs485_read\<close> returns the received bytes in the order of reception, without loss or
  duplication, whatever interrupts happen meanwhile: what was in the ring and what arrives
  during the call is the bytes returned followed by what is left in the ring. It never
  writes past \<open>max_len\<close>, and without waiting it leaves bytes in the ring only when the
  buffer is full.
\<close>

theorem rs485_read_fifo:
  assumes "rs_ok api line" and "unat max_len < 2 ^ 31" and "unat max_len \<le> length buf"
    and "rs485_read api buf max_len ticks s w = Some (r, buf', s', w')"
  shows "0 \<le> r \<and> nat r \<le> unat max_len \<and> drop (nat r) buf' = drop (nat r) buf \<and>
    (\<exists>arrived. ln_ring (line w) @ arrived = take (nat r) buf' @ ln_ring (line w')) \<and>
    (ticks = K_NO_WAIT \<longrightarrow> ln_ring (line w') = [] \<or> r = int (unat max_len))"
  using rs485_read_post [OF assms] by blast

text \<open>
  C23. \<open>rs485_read\<close> returns: at once when it must not wait, even if interrupts keep refilling
  the ring, and with a finite timeout when the clock advances.
\<close>

theorem rs485_read_returns:
  assumes "rs_ok api line"
    and "ticks = K_NO_WAIT \<or>
      clock_runs api now \<and> sint (fst (rs485_read_end api ticks w)) < 2 ^ 63 - 1"
  shows "\<exists>r buf' s' w'. rs485_read api buf max_len ticks s w = Some (r, buf', s', w')"
proof -
  obtain e w1 where e: "rs485_read_end api ticks w = (e, w1)" by (cases "rs485_read_end api ticks w")
  have "ticks = K_NO_WAIT \<or> clock_runs api now \<and> sint e < 2 ^ 63 - 1" using assms(2) e by simp
  from read_loop_returns [OF assms(1) this] show ?thesis
    using e by (force simp: rs485_read_def)
qed

text \<open>
  C24. As long as the hardware does not disable reception, the buffer being filled and the
  buffer handed to the driver to continue with are never the same, in any interleaving of
  writer, reader and interrupts after \<open>rs485_init\<close>.
\<close>

theorem rs485_buffers_alternate:
  assumes "rs_ok api line" and "rx_stays_on api" and "rs485_init api w = (0, w0)"
    and "ln_tx (line w) = None" and "rx_buf_idx s0 = 1"
    and "(rs_step api)\<^sup>*\<^sup>* (W_idle q, s0, w0) (pc, s, w1)"
    and "ln_cur (line w1) = Some a" and "ln_next (line w1) = Some b"
  shows "a \<noteq> b \<and> a < 2 \<and> b < 2"
proof -
  have "alt_inv s0 (line w0)"
    using rs485_init_bus [OF assms(1,3,4)] assms(5) by (simp add: alt_inv_def)
  from alt_inv_steps [OF assms(1,2,6) this] have "a < 2 \<and> b = 1 - a"
    using assms(7,8) by (auto simp: alt_inv_def)
  then show ?thesis by (auto simp: less_2_cases_iff)
qed

text \<open>
  C25. When the hardware disables reception right after the first buffer exchange, the
  callback restarts reception with buffer 0 without resetting the buffer index, and
  answers the next buffer request with buffer 0 as well: the driver then fills and
  continues with one and the same buffer.
\<close>

theorem rs485_restart_reuses_buffer:
  assumes ok: "rs_ok api line" and init: "rs485_init api w = (0, w0)" "ln_tx (line w) = None"
    and s0: "rx_buf_idx s0 = 1"
    and e1: "hw_irq api w0 = Some (Uart_irq UART_RX_BUF_REQUEST, w1)"
      "uart_cb api UART_RX_BUF_REQUEST s0 w1 = (s2, w2)"
    and e2: "hw_irq api w2 = Some (Uart_irq UART_RX_DISABLED, w3)"
      "uart_cb api UART_RX_DISABLED s2 w3 = (s4, w4)"
    and e3: "hw_irq api w4 = Some (Uart_irq UART_RX_BUF_REQUEST, w5)"
      "uart_cb api UART_RX_BUF_REQUEST s4 w5 = (s6, w6)"
  shows "ln_cur (line w6) = Some 0 \<and> ln_next (line w6) = Some 0"
proof -
  have s4: "rx_buf_idx s4 = 0" using e1(2) e2(2) s0 by (auto simp: uart_cb_def split: prod.splits)
  obtain r where en: "uart_rx_enable api 0 (of_nat RX_BUF_SIZE) RX_TIMEOUT_US w3 = (r, w4)"
    using e2(2) by (auto simp: uart_cb_def split: prod.splits)
  have "ln_cur (line w3) = None" using rs_ok_calls(8) [OF ok e2(1)] by simp
  moreover have "ln_cur (line w4) \<noteq> None" "line w5 = line w4" "ln_next (line w4) = None"
    using rs_ok_calls(8) [OF ok e3(1)] by simp_all
  ultimately have "ln_cur (line w5) = Some 0" "ln_next (line w5) = None"
    using rs_ok_calls(3) [OF ok en] by (simp_all split: if_splits)
  then show ?thesis using e3(2) s4 by (auto simp: uart_cb_def rs_ok_pure [OF ok])
qed

section \<open>Witnesses\<close>

lemma sim_on_hw_ms: "sm_ms (snd (on_hw sim_rs ev s w)) = sm_ms w"
  by (simp add: on_hw_def uart_cb_def sim_rs_def Let_def split: hw_event.split uart_event.split)

lemma sim_irq_ms: "sim_irq w = Some (ev, w') \<Longrightarrow> sm_ms w' = sm_ms w"
  by (auto simp: sim_irq_def split: list.splits if_splits)

lemma sim_deliver_ms: "sm_ms (snd (deliver sim_rs n s w)) = sm_ms w"
proof (induction n arbitrary: s w)
  case (Suc n)
  show ?case
  proof (cases "sim_irq w")
    case (Some p)
    obtain ev w1 s1 w2 where irq: "sim_irq w = Some (ev, w1)" and cb: "on_hw sim_rs ev s w1 = (s1, w2)"
      using Some by (cases p, cases "on_hw sim_rs (fst p) s (snd p)") auto
    have "sm_ms w2 = sm_ms w" using sim_on_hw_ms [of ev s w1] cb sim_irq_ms [OF irq] by simp
    moreover have "hw_irq sim_rs w = Some (ev, w1)" using irq by (simp add: sim_rs_def)
    ultimately show ?thesis using Suc.IH cb by simp
  next
    case None
    then have "hw_irq sim_rs w = None" by (simp add: sim_rs_def)
    then show ?thesis by simp
  qed
qed simp

lemma sint_of_nat64: "n < 2 ^ 63 \<Longrightarrow> sint (of_nat n :: 64 word) = int n"
  using int_word_sint [of "int n", where 'a = 64] by simp

lemma sim_clock: "clock_runs sim_rs (int \<circ> sm_ms)"
proof -
  have "sint (of_nat (min (sm_ms w) (2 ^ 63 - 1)) :: 64 word) = min (int (sm_ms w)) (2 ^ 63 - 1)" for w
  proof -
    have "min (sm_ms w) (2 ^ 63 - 1) < 2 ^ 63" by (rule le_less_trans [OF min.cobounded2]) simp
    from sint_of_nat64 [OF this] show ?thesis by (simp add: min_def)
  qed
  moreover have "k_uptime_get sim_rs w = (of_nat (min (sm_ms w) (2 ^ 63 - 1)), w)" for w
    by (simp add: sim_rs_def)
  moreover have "sm_ms (k_sleep_ms sim_rs 1 w) = sm_ms w + 1"
    "sm_ms (snd (snd (ring_buf_get sim_rs n w))) = sm_ms w" for n w
    by (simp_all add: sim_rs_def Let_def)
  ultimately show ?thesis by (auto simp: clock_runs_def sim_deliver_ms)
qed

definition sim_rx :: "hw_event list \<Rightarrow> u8 list \<Rightarrow> rs_sim" where
  "sim_rx evs ring = sim_up\<lparr>sm_evs := evs, sm_line := (sm_line sim_up)\<lparr>ln_ring := ring\<rparr>\<rparr>"

lemma sim_rx_simps [simp]:
  "sm_evs (sim_rx evs ring) = evs" "ln_ring (sm_line (sim_rx evs ring)) = ring"
  "ln_cur (sm_line (sim_rx evs ring)) = Some 0" "ln_next (sm_line (sim_rx evs ring)) = None"
  by (simp_all add: sim_rx_def sim_up_def idle_line_def)

lemma sim_read_returns: "\<exists>r b s w'. rs485_read sim_rs buf n 0 s0 w0 = Some (r, b, s, w')"
  using read_loop_returns [OF sim_rs_ok, of 0 undefined _ n buf 0 s0 w0]
  by (force simp: rs485_read_def rs485_read_end_def sim_rs_def)

theorem rs485_read_fifo_witness:
  "\<exists>r b s w'. rs485_read sim_rs [0, 0, 0, 0] 2 0 rs_state0 (sim_rx [] [1, 2, 3]) = Some (r, b, s, w') \<and>
    (\<exists>arrived. [1, 2, 3] @ arrived = take (nat r) b @ ln_ring (sm_line w'))"
proof -
  let ?w = "sim_rx [] [1, 2, 3]"
  obtain r b s w' where run: "rs485_read sim_rs [0, 0, 0, 0] 2 0 rs_state0 ?w = Some (r, b, s, w')"
    using sim_read_returns by blast
  show ?thesis using rs485_read_fifo [OF sim_rs_ok _ _ run] run by auto
qed

theorem rs485_read_returns_witness:
  "\<exists>r b s w'. rs485_read sim_rs [0, 0, 0, 0] 4 50 rs_state0 (sim_rx [] [1, 2, 3]) = Some (r, b, s, w')"
proof (rule rs485_read_returns [OF sim_rs_ok disjI2, OF conjI, OF sim_clock])
  show "sint (fst (rs485_read_end sim_rs 50 (sim_rx [] [1, 2, 3]))) < 2 ^ 63 - 1"
    by (simp add: rs485_read_end_def sim_rs_def sim_rx_def sim_up_def sim_boot_def)
qed

text \<open>The platform whose reception is never disabled.\<close>

definition sim_rs_on :: "rs_sim rs_api" where
  "sim_rs_on = sim_rs\<lparr>hw_irq := (\<lambda>w. case sim_irq w of
     Some (ev, w1) \<Rightarrow> if ev = Uart_irq UART_RX_DISABLED then None else Some (ev, w1) | None \<Rightarrow> None)\<rparr>"

lemma sim_rs_on_ok: "rs_ok sim_rs_on sm_line" "rx_stays_on sim_rs_on"
proof -
  have hw: "hw_ok sim_rs_on sm_line"
    by (auto simp: hw_ok_def sim_rs_on_def split: option.splits if_splits dest: sim_irq_ok)
  show "rs_ok sim_rs_on sm_line"
    using sim_rs_ok hw
    by (simp add: rs_ok_def gpio_ok_def sem_ok_def uart_ok_def ring_ok_def clock_neutral_def sim_rs_on_def)
  show "rx_stays_on sim_rs_on"
    by (auto simp: rx_stays_on_def sim_rs_on_def split: option.splits if_splits)
qed

theorem rs485_buffers_alternate_witness:
  "\<exists>s w1. (rs_step sim_rs_on)\<^sup>*\<^sup>* (W_idle 0, rs_state0, sim_up) (W_idle 0, s, w1) \<and>
    ln_cur (sm_line w1) = Some 0 \<and> ln_next (sm_line w1) = Some 1 \<and> (0 :: nat) \<noteq> 1"
proof -
  have init: "rs485_init sim_rs_on sim_boot = (0, sim_up)"
    by (simp add: rs485_init_def sim_rs_on_def sim_rs_def sim_boot_def sim_up_def idle_line_def)
  let ?w = "sim_up\<lparr>sm_evs := [], sm_line := (sm_line sim_up)\<lparr>ln_next := Some 1\<rparr>\<rparr>"
  let ?s = "rs_state0\<lparr>rx_buf_idx := 0\<rparr>"
  have irq: "hw_irq sim_rs_on sim_up = Some (Uart_irq UART_RX_BUF_REQUEST, sim_up\<lparr>sm_evs := []\<rparr>)"
    by (simp add: sim_rs_on_def sim_irq_def sim_up_def sim_boot_def idle_line_def)
  have cb: "on_hw sim_rs_on (Uart_irq UART_RX_BUF_REQUEST) rs_state0 (sim_up\<lparr>sm_evs := []\<rparr>) = (?s, ?w)"
    by (simp add: on_hw_def uart_cb_def rs_state0_def sim_rs_on_def sim_rs_def sim_up_def idle_line_def)
  have steps: "(rs_step sim_rs_on)\<^sup>*\<^sup>* (W_idle 0, rs_state0, sim_up) (W_idle 0, ?s, ?w)"
    using irq cb by (intro r_into_rtranclp Irq [THEN rs_stepI])
  have cur: "ln_cur (sm_line ?w) = Some 0" "ln_next (sm_line ?w) = Some 1"
    by (simp_all add: sim_up_def idle_line_def)
  have "rx_buf_idx rs_state0 = 1" by (simp add: rs_state0_def)
  from rs485_buffers_alternate [OF sim_rs_on_ok init sim_boot_quiet this steps cur] steps cur
  show ?thesis by blast
qed

theorem rs485_restart_reuses_buffer_witness:
  "\<exists>w6 :: rs_sim. ln_cur (sm_line w6) = Some 0 \<and> ln_next (sm_line w6) = Some 0 \<and> sm_evs w6 = []"
proof -
  let ?b = "\<lambda>evs. sim_boot\<lparr>sm_evs := evs\<rparr>"
  let ?e = "\<lambda>evs. sim_up\<lparr>sm_evs := evs\<rparr>"
  let ?n = "\<lambda>evs i. sim_up\<lparr>sm_evs := evs, sm_line := (sm_line sim_up)\<lparr>ln_next := Some i\<rparr>\<rparr>"
  let ?o = "\<lambda>evs. sim_up\<lparr>sm_evs := evs, sm_line := (sm_line sim_up)\<lparr>ln_cur := None, ln_next := None\<rparr>\<rparr>"
  let ?s = "rs_state0\<lparr>rx_buf_idx := 0\<rparr>"
  let ?req = "Uart_irq UART_RX_BUF_REQUEST" and ?dis = "Uart_irq UART_RX_DISABLED"
  note defs = sim_rs_def sim_irq_def sim_up_def sim_boot_def idle_line_def uart_cb_def rs_state0_def
  have init: "rs485_init sim_rs (?b [?req, ?dis, ?req]) = (0, ?e [?req, ?dis, ?req])"
    by (simp add: rs485_init_def defs)
  have e1: "hw_irq sim_rs (?e [?req, ?dis, ?req]) = Some (?req, ?e [?dis, ?req])"
    and c1: "uart_cb sim_rs UART_RX_BUF_REQUEST rs_state0 (?e [?dis, ?req]) = (?s, ?n [?dis, ?req] 1)"
    and e2: "hw_irq sim_rs (?n [?dis, ?req] 1) = Some (?dis, ?o [?req])"
    and c2: "uart_cb sim_rs UART_RX_DISABLED ?s (?o [?req]) = (?s, ?e [?req])"
    and e3: "hw_irq sim_rs (?e [?req]) = Some (?req, ?e [])"
    and c3: "uart_cb sim_rs UART_RX_BUF_REQUEST ?s (?e []) = (rs_state0, ?n [] 0)"
    by (simp_all add: defs)
  have "ln_tx (sm_line (?b [?req, ?dis, ?req])) = None" "rx_buf_idx rs_state0 = 1"
    by (simp_all add: defs)
  from rs485_restart_reuses_buffer [OF sim_rs_ok init this e1 c1 e2 c2 e3 c3]
  have "ln_cur (sm_line (?n [] 0)) = Some 0 \<and> ln_next (sm_line (?n [] 0)) = Some 0 \<and> sm_evs (?n [] 0) = []"
    by simp
  then show ?thesis by blast
qed

end
