(* ===== verification/ModbusSim.thy ===== *)
theory ModbusSim
  imports ModbusProps Rs485Rx
begin

text \<open>
  A concrete platform for the Modbus service: the simulated RS485 platform \<open>sim_rs\<close>, the
  association-list store \<open>sim_fdb\<close> and an inbox, side by side in one state. It satisfies the
  documented behaviour that the properties of the service assume, and the witnesses of the
  receive side evaluate on it.
\<close>

section \<open>A platform as a part of a larger one\<close>

text \<open>
  A platform with state \<open>'v\<close> inside a larger state \<open>'u\<close>, read with \<open>g\<close> and replaced with \<open>p\<close>.
  What is documented of the part holds of the whole, and the rest is left alone.
\<close>

definition part_rs :: "('u \<Rightarrow> 'v) \<Rightarrow> ('v \<Rightarrow> 'u \<Rightarrow> 'u) \<Rightarrow> 'v rs_api \<Rightarrow> 'u rs_api" where
  "part_rs g p api =
     \<lparr>rs_device_is_ready = (\<lambda>d w. rs_device_is_ready api d (g w)),
      gpio_pin_configure_dt = (\<lambda>w. p (gpio_pin_configure_dt api (g w)) w),
      gpio_pin_set_dt = (\<lambda>v w. p (gpio_pin_set_dt api v (g w)) w),
      k_sem_init = (\<lambda>c l w. p (k_sem_init api c l (g w)) w),
      k_sem_give = (\<lambda>w. p (k_sem_give api (g w)) w),
      k_sem_take = (\<lambda>w. apsnd (\<lambda>v. p v w) (k_sem_take api (g w))),
      uart_callback_set = (\<lambda>w. apsnd (\<lambda>v. p v w) (uart_callback_set api (g w))),
      uart_rx_enable = (\<lambda>b n t w. apsnd (\<lambda>v. p v w) (uart_rx_enable api b n t (g w))),
      uart_rx_buf_rsp = (\<lambda>b n w. p (uart_rx_buf_rsp api b n (g w)) w),
      uart_tx = (\<lambda>d n w. apsnd (\<lambda>v. p v w) (uart_tx api d n (g w))),
      ring_buf_put = (\<lambda>d w. apsnd (\<lambda>v. p v w) (ring_buf_put api d (g w))),
      ring_buf_get = (\<lambda>n w. apsnd (apsnd (\<lambda>v. p v w)) (ring_buf_get api n (g w))),
      k_uptime_get = (\<lambda>w. apsnd (\<lambda>v. p v w) (k_uptime_get api (g w))),
      k_sleep_ms = (\<lambda>n w. p (k_sleep_ms api n (g w)) w),
      k_ticks_to_ms_floor64 = k_ticks_to_ms_floor64 api,
      hw_irq = (\<lambda>w. map_option (apsnd (\<lambda>v. p v w)) (hw_irq api (g w))),
      hw_burst = (\<lambda>w. hw_burst api (g w))\<rparr>"

locale platform_part =
  fixes g :: "'u \<Rightarrow> 'v" and p :: "'v \<Rightarrow> 'u \<Rightarrow> 'u"
  assumes get_put [simp]: "g (p v w) = v" and put_get [simp]: "p (g w) w = w"
    and put_put [simp]: "p v (p u w) = p v w"
begin

lemma part_rs_ok:
  assumes "rs_ok api line"
  shows "rs_ok (part_rs g p api) (line \<circ> g)"
proof -
  note pure = rs_ok_pure [OF assms] and c = rs_ok_calls [OF assms]
  have "gpio_ok (part_rs g p api) (line \<circ> g)" by (simp add: gpio_ok_def part_rs_def pure)
  moreover have "sem_ok (part_rs g p api) (line \<circ> g)"
    by (auto simp: sem_ok_def part_rs_def pure apsnd_def map_prod_def split: prod.splits dest!: c(1))
  moreover have "uart_ok (part_rs g p api) (line \<circ> g)"
    by (auto simp: uart_ok_def part_rs_def pure apsnd_def map_prod_def split: prod.splits dest!: c(2,3,4))
  moreover have "ring_ok (part_rs g p api) (line \<circ> g)"
    by (auto simp: ring_ok_def part_rs_def apsnd_def map_prod_def split: prod.splits dest!: c(5,6))
  moreover have "clock_neutral (part_rs g p api) (line \<circ> g)"
    by (auto simp: clock_neutral_def part_rs_def pure apsnd_def map_prod_def split: prod.splits dest!: c(7))
  moreover have "hw_ok (part_rs g p api) (line \<circ> g)"
    by (auto simp: hw_ok_def part_rs_def apsnd_def map_prod_def split: prod.splits dest: c(8))
  ultimately show ?thesis by (simp add: rs_ok_def)
qed

lemma part_on_hw: "on_hw (part_rs g p api) ev s w = apsnd (\<lambda>u. p u w) (on_hw api ev s (g w))"
  by (auto simp: on_hw_def uart_cb_def part_rs_def Let_def apsnd_def map_prod_def
      split: hw_event.split uart_event.split prod.split)

lemma part_deliver: "deliver (part_rs g p api) n s w = apsnd (\<lambda>u. p u w) (deliver api n s (g w))"
proof (induction n arbitrary: s w)
  case (Suc n)
  have irq: "hw_irq (part_rs g p api) w = map_option (apsnd (\<lambda>v. p v w)) (hw_irq api (g w))"
    by (simp add: part_rs_def)
  show ?case by (auto simp: irq part_on_hw Suc.IH apsnd_def map_prod_def split: option.split prod.split)
qed simp

lemma part_keeps: "(\<And>v w. f (p v w) = f w) \<Longrightarrow> rs_keeps (part_rs g p api) f"
  by (auto simp: rs_keeps_def part_rs_def apsnd_def map_prod_def split: prod.splits)

lemma part_keeps_part: "rs_keeps api f \<Longrightarrow> rs_keeps (part_rs g p api) (f \<circ> g)"
  by (auto simp: rs_keeps_def part_rs_def)

lemma part_clock:
  assumes "clock_runs api now"
  shows "clock_runs (part_rs g p api) (now \<circ> g)"
proof -
  have del: "now (g (snd (deliver (part_rs g p api) n s w))) = now (snd (deliver api n s (g w)))" for n s w
    by (simp add: part_deliver)
  have up: "k_uptime_get (part_rs g p api) w = apsnd (\<lambda>v. p v w) (k_uptime_get api (g w))"
    and get: "g (snd (snd (ring_buf_get (part_rs g p api) n w))) = snd (snd (ring_buf_get api n (g w)))"
    and slp: "g (k_sleep_ms (part_rs g p api) 1 w) = k_sleep_ms api 1 (g w)" for n w
    by (simp_all add: part_rs_def)
  show ?thesis
    using assms unfolding clock_runs_def comp_def del get slp
    by (auto simp: up apsnd_def map_prod_def split: prod.splits)
qed

lemma part_arrivals:
  assumes "arrivals api line left"
  shows "arrivals (part_rs g p api) (line \<circ> g) (left \<circ> g)"
proof -
  have get: "g (snd (snd (ring_buf_get (part_rs g p api) n w))) = snd (snd (ring_buf_get api n (g w)))"
    and up: "g (snd (k_uptime_get (part_rs g p api) w)) = snd (k_uptime_get api (g w))" for n w
    by (simp_all add: part_rs_def)
  show ?thesis
    using assms unfolding arrivals_def comp_def get up
    by (auto simp: part_deliver apsnd_def map_prod_def split: prod.splits)
qed

end

interpretation pair_part: platform_part fst "\<lambda>v w. (v, snd w)"
  by unfold_locales auto

definition lift_rs :: "'v rs_api \<Rightarrow> ('v \<times> 'x) rs_api" where
  lift_rs_part: "lift_rs api = part_rs fst (\<lambda>v w. (v, snd w)) api"

lemmas lift_rs_def = lift_rs_part [unfolded part_rs_def]

lemmas lift_rs_ok = pair_part.part_rs_ok [folded lift_rs_part]
lemmas lift_clock = pair_part.part_clock [folded lift_rs_part]
lemmas lift_arrivals = pair_part.part_arrivals [folded lift_rs_part]
lemmas lift_on_hw = pair_part.part_on_hw [folded lift_rs_part]
lemmas lift_deliver = pair_part.part_deliver [folded lift_rs_part]

lemma lift_keeps: "rs_keeps (lift_rs api) (f \<circ> snd)"
  unfolding lift_rs_part by (rule pair_part.part_keeps) simp

section \<open>The arrivals of the simulated line\<close>

fun ev_bytes :: "hw_event \<Rightarrow> nat" where
  "ev_bytes (Uart_irq (UART_RX_RDY b off len)) = len"
| "ev_bytes _ = 0"

definition sim_left :: "rs_sim \<Rightarrow> nat" where
  "sim_left w = sum_list (map ev_bytes (sm_evs w))"

lemma sim_irq_left: "sim_irq w = Some (ev, w') \<Longrightarrow>
    ev_bytes ev + sim_left w' \<le> sim_left w \<and> ln_ring (sm_line w') = ln_ring (sm_line w)"
  by (auto simp: sim_irq_def sim_left_def split: list.splits if_splits)

lemma sim_on_hw_ring: "on_hw sim_rs ev s w = (s', w') \<Longrightarrow>
    length (ln_ring (sm_line w')) \<le> length (ln_ring (sm_line w)) + ev_bytes ev \<and> sm_evs w' = sm_evs w"
  using sim_on_hw_evs [of ev s w]
  by (cases ev rule: ev_bytes.cases) (auto simp: on_hw_def uart_cb_def sim_rs_def Let_def)

lemma sim_arrivals: "arrivals sim_rs sm_line sim_left"
proof -
  have "length (ln_ring (sm_line w')) + sim_left w' \<le> length (ln_ring (sm_line w)) + sim_left w"
    if "deliver sim_rs n s w = (s', w')" for n s w s' w'
    using that
  proof (induction n arbitrary: s w)
    case (Suc n)
    show ?case
    proof (cases "sim_irq w")
      case (Some p)
      obtain ev w1 s1 w2 where irq: "sim_irq w = Some (ev, w1)" and cb: "on_hw sim_rs ev s w1 = (s1, w2)"
        using Some by (cases p, cases "on_hw sim_rs (fst p) s (snd p)") auto
      have "hw_irq sim_rs w = Some (ev, w1)" using irq by (simp add: sim_rs_def)
      then have "deliver sim_rs n s1 w2 = (s', w')" using Suc.prems cb by simp
      from Suc.IH [OF this] sim_irq_left [OF irq] sim_on_hw_ring [OF cb]
      show ?thesis by (simp add: sim_left_def)
    next
      case None
      then have "hw_irq sim_rs w = None" by (simp add: sim_rs_def)
      then show ?thesis using Suc.prems by simp
    qed
  qed simp
  then show ?thesis by (auto simp: arrivals_def) (simp_all add: sim_rs_def sim_left_def Let_def)
qed

section \<open>The platform of the service\<close>

type_synonym mb_sim = "rs_sim \<times> (string \<times> u8 list) list \<times> modbus_adu list"

definition sim_mb :: "mb_sim mb_api" where
  "sim_mb =
     \<lparr>mb_rs = lift_rs sim_rs,
      mb_fdb =
        \<lparr>k_mutex_init = id, k_mutex_lock = id, k_mutex_unlock = id,
         fdb_kvdb_control = (\<lambda>c f w. w),
         fdb_kvdb_init = (\<lambda>nm path d (v, kv, x). (FDB_NO_ERR, v, if kv = [] then d else kv, x)),
         fdb_kv_get_blob = (\<lambda>key n (v, kv, x).
           case fdb_kv_get_blob sim_fdb key n kv of (l, d, kv1) \<Rightarrow> (l, d, v, kv1, x)),
         fdb_kv_set_blob = (\<lambda>key d (v, kv, x). (FDB_NO_ERR, v, (key, d) # kv, x))\<rparr>,
      MODBUS_BUFFER_SIZE = 256,
      crc16_ansi = (\<lambda>bs. sum_list (map ucast bs)),
      sys_put_le16 = le16_bytes,
      sys_get_le16 = of_le16_bytes,
      modbus_iface_get_by_name = (\<lambda>n w. (if n = ''RAW_0'' then 0 else - ENODEV, w)),
      modbus_init_server = (\<lambda>i p w. (0, w)),
      modbus_raw_submit_rx = (\<lambda>i a (v, kv, x). (0, v, kv, x @ [a]))\<rparr>"

abbreviation (input) sim_line :: "mb_sim \<Rightarrow> rs_line" where "sim_line \<equiv> sm_line \<circ> fst"
abbreviation (input) sim_inbox :: "mb_sim \<Rightarrow> modbus_adu list" where "sim_inbox \<equiv> snd \<circ> snd"

lemma sim_mb_rs: "mb_rs sim_mb = lift_rs sim_rs"
  by (simp add: sim_mb_def)

lemma sim_mb_ok:
  "rs_ok (mb_rs sim_mb) sim_line" "arrivals (mb_rs sim_mb) sim_line (sim_left \<circ> fst)"
  "clock_runs (mb_rs sim_mb) (int \<circ> sm_ms \<circ> fst)" "codec_ok sim_mb" "inbox_ok sim_mb sim_inbox"
proof -
  show "rs_ok (mb_rs sim_mb) sim_line" using lift_rs_ok [OF sim_rs_ok] by (simp add: sim_mb_rs)
  show "arrivals (mb_rs sim_mb) sim_line (sim_left \<circ> fst)"
    using lift_arrivals [OF sim_arrivals] by (simp add: sim_mb_rs)
  show "clock_runs (mb_rs sim_mb) (int \<circ> sm_ms \<circ> fst)"
    using lift_clock [OF sim_clock] by (simp add: sim_mb_rs comp_assoc)
  show "codec_ok sim_mb" by (simp add: codec_ok_def sim_mb_def)
  show "inbox_ok sim_mb sim_inbox"
    using lift_keeps [of sim_rs snd] by (auto simp: inbox_ok_def sim_mb_def)
qed

lemma sim_mb_fdb_ok: "fdb_ok (mb_fdb sim_mb) (map_of \<circ> (fst \<circ> snd))"
proof -
  have get: "fdb_get_ok sim_fdb map_of" using sim_fdb_ok by (simp add: fdb_ok_def)
  have "fdb_get_ok (mb_fdb sim_mb) (map_of \<circ> (fst \<circ> snd))"
    using get unfolding fdb_get_ok_def by (auto simp: sim_mb_def split: prod.splits)
  then show ?thesis
    by (auto simp: fdb_ok_def fdb_set_ok_def fdb_init_ok_def sim_mb_def)
qed

section \<open>Witnesses of the receive side\<close>

definition sim_adu :: modbus_adu where
  "sim_adu = \<lparr>adu_proto_id = 0, adu_length = 2, adu_unit_id = 1, adu_fc = 6, adu_data = [0x12, 0x34],
     adu_crc = 0\<rparr>"

definition sim_mw :: "u8 list \<Rightarrow> mb_sim" where
  "sim_mw ring = (sim_rx [] ring\<lparr>sm_ms := 50\<rparr>, [], [])"

definition sim_m :: "u8 list \<Rightarrow> mb_state" where
  "sim_m bs = (mb_state0 256)\<lparr>mb_rx_frame := mem_write (replicate 256 0) 0 bs, mb_rx_len := length bs\<rparr>"

lemma sim_m_inv: "length bs \<le> 256 \<Longrightarrow> mb_inv sim_mb (sim_m bs)"
  by (simp add: mb_inv_def sim_m_def mb_state0_def sim_mb_def)

lemma sim_m_bytes [simp]: "rx_bytes (sim_m bs) = bs" "mb_rx_len (sim_m bs) = length bs"
  "mb_last_rx_ms (sim_m bs) = 0"
  by (simp_all add: rx_bytes_def sim_m_def mb_state0_def)

lemma sim_mw_simps [simp]: "ln_ring (sm_line (fst (sim_mw ring))) = ring" "sim_left (fst (sim_mw ring)) = 0"
  "sm_ms (fst (sim_mw ring)) = 50" "snd (snd (sim_mw ring)) = []"
  by (simp_all add: sim_mw_def sim_left_def)

lemma sim_poll_returns:
  "\<exists>m' s' w'. modbus_rx_poll sim_mb m sw = Some (m', s', w')"
proof -
  obtain m0 sw0 where "drain (\<lambda>sw. rs485_read_nowait (mb_rs sim_mb) sw MB_POLL_BUF_LEN) (mb_absorb sim_mb) m sw
    = Some (m0, sw0)" using poll_drain_returns [OF sim_mb_ok(1,2)] by blast
  then show ?thesis
    by (cases sw0, cases "modbus_rx_poll sim_mb m sw") (auto simp: modbus_rx_poll_def)
qed

lemma sim_frame: "frame_intact sim_mb (mb_frame sim_mb sim_adu)" "length (mb_frame sim_mb sim_adu) = 6"
  using mb_frame_intact [OF sim_mb_ok(4), of sim_adu] by (simp_all add: sim_adu_def)

lemma modbus_frame_round_trip_witness:
  "\<exists>m' s' w'. modbus_rx_poll sim_mb (sim_m (take 3 (mb_frame sim_mb sim_adu)))
      (rs_state0, sim_mw (drop 3 (mb_frame sim_mb sim_adu))) = Some (m', s', w') \<and>
    (snd (snd w') = [] \<and> rx_bytes m' = mb_frame sim_mb sim_adu \<or>
     mb_rx_len m' = 0 \<and> (\<exists>b. snd (snd w') = [b] \<and> adu_unit_id b = 1 \<and> adu_fc b = 6 \<and>
       take 2 (adu_data b) = [0x12, 0x34]))"
proof -
  let ?m = "sim_m (take 3 (mb_frame sim_mb sim_adu))" and ?w = "sim_mw (drop 3 (mb_frame sim_mb sim_adu))"
  have inv: "mb_inv sim_mb ?m" by (rule sim_m_inv) simp
  have quiet: "(sim_left \<circ> fst) ?w = 0" by simp
  have data: "unat (adu_length sim_adu) \<le> length (adu_data sim_adu)" by (simp add: sim_adu_def)
  have frame: "rx_bytes ?m @ ln_ring (sim_line ?w) = mb_frame sim_mb sim_adu" by simp
  have fits: "unat (adu_length sim_adu) + 4 \<le> MODBUS_BUFFER_SIZE sim_mb"
    by (simp add: sim_adu_def sim_mb_def)
  from modbus_frame_round_trip [OF sim_mb_ok(1,2,5,4) inv quiet data frame fits, of rs_state0]
  show ?thesis by (auto simp: sim_adu_def)
qed

theorem modbus_frame_submitted_after_gap_witness:
  "\<exists>m' s' w' a. modbus_rx_poll sim_mb (sim_m (mb_frame sim_mb sim_adu)) (rs_state0, sim_mw []) =
      Some (m', s', w') \<and> mb_rx_len m' = 0 \<and> snd (snd w') = [a] \<and>
      adu_matches a (mb_frame sim_mb sim_adu)"
proof -
  let ?m = "sim_m (mb_frame sim_mb sim_adu)"
  have inv: "mb_inv sim_mb ?m" by (rule sim_m_inv) (simp add: sim_frame)
  have intact: "frame_intact sim_mb (rx_bytes ?m)" using sim_frame by simp
  from modbus_frame_submitted_after_gap [OF sim_mb_ok(1,2,3,5) inv intact, of "sim_mw []" rs_state0]
  show ?thesis by simp
qed

theorem modbus_noise_is_kept_witness:
  "\<exists>s' w'. modbus_rx_poll sim_mb (sim_m [0xFF]) (rs_state0, sim_mw []) = Some (sim_m [0xFF], s', w')"
proof -
  obtain m' s' w' where run: "modbus_rx_poll sim_mb (sim_m [0xFF]) (rs_state0, sim_mw []) = Some (m', s', w')"
    using sim_poll_returns by blast
  have fits: "mb_rx_len (sim_m [0xFF]) + length (ln_ring (sim_line (sim_mw []))) \<le> MODBUS_BUFFER_SIZE sim_mb"
    by (simp add: sim_mb_def)
  have "m' = sim_m [0xFF]"
    using modbus_noise_is_kept [OF sim_mb_ok(1,2) sim_m_inv _ _ fits run] by simp
  then show ?thesis using run by blast
qed

end
