(* ===== verification/ModbusTask.thy ===== *)
theory ModbusTask
  imports ModbusSim
begin

text \<open>
  Properties of the transmit callback, the initialisation, the server callbacks and the
  periodic task of the Modbus service, with their witnesses.
\<close>

section \<open>Sending\<close>

text \<open>
  C19. The response callback refuses a payload that does not fit the frame buffer with
  \<open>-EMSGSIZE\<close> and a frame that does not fit the transmit buffer with \<open>-EINVAL\<close>, both without
  touching the bus. Otherwise, when it returns 0, exactly the frame of the ADU went out,
  once, completely and with DE high, or the hardware gave up exactly this frame
  (\<^verbatim>\<open>UART_TX_ABORTED\<close>, which the service does not report); when it returns an error code no
  frame was sent and none given up. The bus is released in either case, and the state of the
  service and of the database is not touched.
\<close>

theorem modbus_tx_outcome:
  assumes ok: "rs_ok (mb_rs api) line" and idle: "bus_inv (W_idle q) (line (sy_w y))"
    and codec: "codec_ok api" and data: "unat (adu_length a) \<le> length (adu_data a)"
    and run: "modbus_raw_tx_cb api (Some a) y = Some (r, y')"
  shows "(MODBUS_BUFFER_SIZE api - 4 < unat (adu_length a) \<longrightarrow> r = - EMSGSIZE \<and> y' = y) \<and>
    (unat (adu_length a) \<le> MODBUS_BUFFER_SIZE api - 4 \<longrightarrow>
      sy_mb y' = sy_mb y \<and> sy_db y' = sy_db y \<and> bus_inv (W_idle r) (line (sy_w y')) \<and>
      (TX_BUF_SIZE < unat (adu_length a) + 4 \<longrightarrow> r = - EINVAL \<and> y' = y) \<and>
      (if r = 0 then
         ln_sent (line (sy_w y')) = ln_sent (line (sy_w y)) @ [(mb_frame api a, True)] \<and>
           ln_aborted (line (sy_w y')) = ln_aborted (line (sy_w y)) \<or>
         ln_sent (line (sy_w y')) = ln_sent (line (sy_w y)) \<and>
           ln_aborted (line (sy_w y')) = ln_aborted (line (sy_w y)) @ [mb_frame api a]
       else ln_sent (line (sy_w y')) = ln_sent (line (sy_w y)) \<and>
         ln_aborted (line (sy_w y')) = ln_aborted (line (sy_w y))))"
proof (cases "unat (adu_length a) > MODBUS_BUFFER_SIZE api - 4")
  case True
  then show ?thesis using run by (simp add: modbus_raw_tx_cb_def)
next
  case False
  let ?len = "of_nat (unat (adu_length a) + 4) :: usize"
  have "unat (adu_length a) < 2 ^ 16"
    using unsigned_less [where ?'b = 16 and ?'a = nat and w = "adu_length a"] by simp
  then have len: "unat ?len = unat (adu_length a) + 4" by (intro unat_of_small) simp
  obtain rs w where wr: "rs485_write (mb_rs api) (mb_frame api a) ?len (sy_rs y) (sy_w y) = Some (r, rs, w)"
    and y': "y' = y\<lparr>sy_rs := rs, sy_w := w\<rparr>"
    using run False by (auto simp: modbus_raw_tx_cb_def split: if_splits)
  have fits: "unat ?len = length (mb_frame api a)" using mb_frame_intact [OF codec data] len by simp
  have inv: "bus_inv (W_idle r) (line w)" using bus_inv_steps [OF ok rs485_write_steps [OF wr] idle] .
  show ?thesis
  proof (cases "unat ?len \<le> TX_BUF_SIZE")
    case True
    note sent = rs485_write_sent [OF ok idle wr _ True]
    show ?thesis using sent fits inv y' False True len by (auto simp: goes_out_def stays_silent_def split: if_splits)
  next
    case long: False
    then have "?len > of_nat TX_BUF_SIZE" using len by (simp add: word_less_nat_alt)
    then have "r = - EINVAL \<and> rs = sy_rs y \<and> w = sy_w y" using wr by (simp add: rs485_write_def)
    then show ?thesis using inv y' False by simp
  qed
qed

section \<open>Initialisation\<close>

text \<open>What the initialisation calls besides the RS485 service leaves the serial port alone.\<close>

definition init_keeps_line :: "'w mb_api \<Rightarrow> ('w \<Rightarrow> rs_line) \<Rightarrow> bool" where
  "init_keeps_line api line \<longleftrightarrow>
     (\<forall>n w. line (snd (modbus_iface_get_by_name api n w)) = line w) \<and>
     (\<forall>db w. line (snd (snd (modbus_points_db_init (mb_fdb api) db w))) = line w) \<and>
     (\<forall>i p w. line (snd (modbus_init_server api i p w)) = line w)"

text \<open>
  When the initialisation returns 0, the Modbus interface was found, the point database is
  ready, the bus is idle with reception running, no partial frame is held and the heartbeat
  register is 0.
\<close>

lemma modbus_init_ready:
  assumes ok: "rs_ok (mb_rs api) line" and keep: "init_keeps_line api line"
    and quiet: "ln_tx (line (sy_w y)) = None" and inv: "mb_inv api (sy_mb y)"
    and run: "modbus_service_init api y = (0, y')"
  shows "0 \<le> modbus_iface (sy_mb y') \<and> g_db_ready (sy_db y') \<and> mb_inv api (sy_mb y') \<and>
    bus_inv (W_idle 0) (line (sy_w y')) \<and> ln_cur (line (sy_w y')) = Some 0 \<and>
    mb_rx_len (sy_mb y') = 0 \<and> input_reg (sy_mb y') ! 0 = 0"
proof -
  obtain i w1 where get: "modbus_iface_get_by_name api ''RAW_0'' (sy_w y) = (i, w1)"
    by (cases "modbus_iface_get_by_name api ''RAW_0'' (sy_w y)")
  obtain e db w2 where init: "modbus_points_db_init (mb_fdb api) (sy_db y) w1 = (e, db, w2)"
    by (cases "modbus_points_db_init (mb_fdb api) (sy_db y) w1")
  obtain e3 w3 where rs: "rs485_init (mb_rs api) w2 = (e3, w3)" by (cases "rs485_init (mb_rs api) w2")
  obtain now w4 where up: "k_uptime_get (mb_rs api) w3 = (now, w4)" by (cases "k_uptime_get (mb_rs api) w3")
  obtain e5 w5 where srv: "modbus_init_server api i (server_param api) w4 = (e5, w5)"
    by (cases "modbus_init_server api i (server_param api) w4")
  have r: "0 \<le> i" "e = 0" "e3 = 0" "e5 = 0"
    using run
    by (auto simp: modbus_service_init_def Let_def get init rs up srv split: if_splits prod.splits)
  have y': "y' = y\<lparr>sy_mb := (sy_mb y)\<lparr>modbus_iface := i, input_reg := (input_reg (sy_mb y))[0 := 0],
      mb_rx_len := 0, mb_last_rx_ms := 0, hb_last_ms := now\<rparr>, sy_db := db, sy_w := w5\<rparr>"
    using run r by (auto simp: modbus_service_init_def Let_def get init rs up srv)
  have db: "g_db_ready db"
    using init r by (auto simp: modbus_points_db_init_def Let_def fdb_to_errno_def split: if_splits prod.splits
        fdb_err.splits)
  have l: "line w2 = line (sy_w y)" "line w5 = line w4"
    using keep get init srv unfolding init_keeps_line_def by (metis snd_conv)+
  have "bus_inv (W_idle 0) (line w3)" "ln_cur (line w3) = Some 0"
    using rs485_init_bus [OF ok _, of w2 w3 0] rs r l quiet by simp_all
  moreover have "line w5 = line w3" using l rs_ok_calls(7) [OF ok up] by simp
  ultimately show ?thesis using r db inv y' by (simp add: mb_inv_def)
qed

section \<open>The periodic task\<close>

lemma poll_registers:
  assumes "modbus_rx_poll api m sw = Some (m', s', w')"
  shows "input_reg m' = input_reg m \<and> hb_last_ms m' = hb_last_ms m"
proof -
  have d: "input_reg (fst r) = input_reg m \<and> hb_last_ms (fst r) = hb_last_ms m"
    if "drain (\<lambda>sw. rs485_read_nowait (mb_rs api) sw MB_POLL_BUF_LEN) (mb_absorb api) m sw = Some r" for r
    using that
  proof (induction rule: drain_induct)
    case (step m s n tmp s1 m2 s2 r)
    then show ?case using mb_absorb_hb [of api m n tmp s1] by simp
  qed simp
  show ?thesis
    using assms
  proof (cases rule: pollE)
    case (submit m1 w1 now w2)
    then show ?thesis using d [OF submit(1)]
      by (auto simp: modbus_submit_frame_def Let_def split: if_splits prod.splits)
  next
    case (wait w1 now)
    then show ?thesis using d [OF wait(1)] by simp
  qed
qed

lemma tick_returns:
  assumes "rs_ok (mb_rs api) line" and "arrivals (mb_rs api) line left"
  shows "\<exists>y'. modbus_service_tick api y = Some y'"
proof -
  obtain t w1 where up: "k_uptime_get (mb_rs api) (sy_w y) = (t, w1)"
    by (cases "k_uptime_get (mb_rs api) (sy_w y)")
  obtain m0 sw0 where "drain (\<lambda>sw. rs485_read_nowait (mb_rs api) sw MB_POLL_BUF_LEN) (mb_absorb api)
    (sy_mb y) (sy_rs y, w1) = Some (m0, sw0)" using poll_drain_returns [OF assms] by blast
  then show ?thesis using up by (auto simp: modbus_service_tick_def modbus_rx_poll_def)
qed

lemma tickE:
  assumes "modbus_service_tick api y = Some y'"
  obtains t w1 m rs w2 where "k_uptime_get (mb_rs api) (sy_w y) = (t, w1)"
    and "modbus_rx_poll api (sy_mb y) (sy_rs y, w1) = Some (m, rs, w2)"
    and "sy_rs y' = rs" and "sy_w y' = w2" and "sy_db y' = sy_db y"
    and "sy_mb y' = (if sint (t - hb_last_ms m) \<ge> 1000
      then m\<lparr>input_reg := (input_reg m)[0 := input_reg m ! 0 + 1], hb_last_ms := t\<rparr> else m)"
  using assms by (auto simp: modbus_service_tick_def Let_def split: prod.splits)

text \<open>
  One execution of the periodic task returns, keeps the frame buffer in its bounds and
  advances the heartbeat register by one exactly when a second has passed since it last
  did (modulo the 16 bits of the register); the other input registers do not change.
\<close>

theorem modbus_tick_heartbeat:
  assumes ok: "rs_ok (mb_rs api) line" and arr: "arrivals (mb_rs api) line left"
    and inv: "mb_inv api (sy_mb y)"
  shows "\<exists>y'. modbus_service_tick api y = Some y' \<and> mb_inv api (sy_mb y') \<and>
    (let t = fst (k_uptime_get (mb_rs api) (sy_w y)); m = sy_mb y; m' = sy_mb y' in
     if 1000 \<le> sint (t - hb_last_ms m)
     then input_reg m' = (input_reg m)[0 := input_reg m ! 0 + 1] \<and> hb_last_ms m' = t
     else input_reg m' = input_reg m \<and> hb_last_ms m' = hb_last_ms m)"
proof -
  obtain y' where tick: "modbus_service_tick api y = Some y'" using tick_returns [OF ok arr] by blast
  then obtain t w1 m rs w2 where up: "k_uptime_get (mb_rs api) (sy_w y) = (t, w1)"
    and poll: "modbus_rx_poll api (sy_mb y) (sy_rs y, w1) = Some (m, rs, w2)"
    and m': "sy_mb y' = (if sint (t - hb_last_ms m) \<ge> 1000
      then m\<lparr>input_reg := (input_reg m)[0 := input_reg m ! 0 + 1], hb_last_ms := t\<rparr> else m)"
    by (rule tickE)
  have keeps: "rs_keeps (mb_rs api) (\<lambda>w. ())" by (simp add: rs_keeps_def)
  have d: "mb_inv api m1"
    if "drain (\<lambda>sw. rs485_read_nowait (mb_rs api) sw MB_POLL_BUF_LEN) (mb_absorb api) (sy_mb y) (sy_rs y, w1)
      = Some (m1, rs, v)" for m1 v
    using poll_drain_keeps [OF ok arr keeps, where P = "mb_inv api", OF mb_absorb_inv inv, OF _ _ that]
    by simp
  have "mb_inv api m"
    using poll
  proof (cases rule: pollE)
    case (submit m1 v now v2)
    then show ?thesis using d [OF submit(1)]
      by (auto simp: modbus_submit_frame_def Let_def split: if_splits prod.splits)
  next
    case (wait v now)
    then show ?thesis using d by blast
  qed
  then have "mb_inv api (sy_mb y')" using m' by (simp add: mb_inv_def)
  then show ?thesis using tick m' up poll_registers [OF poll] by (auto simp: Let_def)
qed

section \<open>Witnesses\<close>

definition sim_y :: "mb_sim mb_sys" where
  "sim_y = \<lparr>sy_mb = sim_m [], sy_rs = rs_state0, sy_db = \<lparr>g_db_ready = False\<rparr>,
     sy_w = (sim_up\<lparr>sm_ms := 5000\<rparr>, [], [])\<rparr>"

lemma sim_y_bus: "bus_inv (W_idle 0) (sim_line (sy_w sim_y))"
  by (simp add: sim_y_def sim_up_def idle_line_def)

lemma sim_lift_completes: "tx_completes (mb_rs sim_mb) sim_line (length \<circ> sm_evs \<circ> fst)"
proof -
  have "\<exists>ev w2. hw_irq (lift_rs sim_rs) w1 = Some (ev, w2) \<and>
      (ends_tx ev \<or> (\<forall>s. length (sm_evs (fst (snd (on_hw (lift_rs sim_rs) ev s w2)))) < length (sm_evs (fst w))))"
    if a: "ln_tx (sm_line (fst w)) \<noteq> None" "k_sem_take (lift_rs sim_rs) w = (False, w1)" for w w1
  proof -
    obtain v1 where t: "k_sem_take sim_rs (fst w) = (False, v1)" "w1 = (v1, snd w)"
      using a(2) by (auto simp: lift_rs_def apsnd_def map_prod_def split: prod.splits)
    obtain ev v2 where "hw_irq sim_rs v1 = Some (ev, v2)"
      and "ends_tx ev \<or> (\<forall>s. length (sm_evs (snd (on_hw sim_rs ev s v2))) < length (sm_evs (fst w)))"
      using sim_tx_completes a(1) t(1) unfolding tx_completes_def by fastforce
    then show ?thesis
      using t(2) by (intro exI [of _ ev] exI [of _ "(v2, snd w)"])
        (auto simp: lift_on_hw, auto simp: lift_rs_def)
  qed
  then show ?thesis unfolding tx_completes_def sim_mb_rs comp_def by blast
qed

lemma sim_mb_reliable: "tx_reliable (mb_rs sim_mb) sim_line (length \<circ> sm_evs \<circ> fst)"
  using sim_tx_reliable sim_lift_completes
  by (auto simp: tx_reliable_def sim_mb_rs lift_rs_def)

lemma sim_tx_call:
  obtains y' where "modbus_raw_tx_cb sim_mb (Some sim_adu) sim_y = Some (0, y')"
proof -
  let ?f = "mb_frame sim_mb sim_adu" and ?n = "of_nat (unat (adu_length sim_adu) + 4) :: usize"
  have "length ?f = unat ?n" "unat ?n \<le> TX_BUF_SIZE"
    using mb_frame_intact [OF sim_mb_ok(4), of sim_adu] by (simp_all add: sim_adu_def)
  then have len: "unat ?n \<le> length ?f" "unat ?n \<le> TX_BUF_SIZE" by simp_all
  obtain s' w' where "rs485_write (mb_rs sim_mb) ?f ?n (sy_rs sim_y) (sy_w sim_y) = Some (0, s', w')"
    by (rule rs485_write_sends [OF sim_mb_ok(1) sim_mb_reliable sim_y_bus len])
  then have "modbus_raw_tx_cb sim_mb (Some sim_adu) sim_y = Some (0, sim_y\<lparr>sy_rs := s', sy_w := w'\<rparr>)"
    by (simp add: modbus_raw_tx_cb_def sim_adu_def sim_mb_def)
  then show thesis by (rule that)
qed

theorem modbus_tx_outcome_witness:
  "\<exists>y'. modbus_raw_tx_cb sim_mb (Some sim_adu) sim_y = Some (0, y') \<and> bus_inv (W_idle 0) (sim_line (sy_w y')) \<and>
    (ln_sent (sim_line (sy_w y')), ln_aborted (sim_line (sy_w y'))) \<in>
      {([(mb_frame sim_mb sim_adu, True)], []), ([], [mb_frame sim_mb sim_adu])}"
proof -
  have data: "unat (adu_length sim_adu) \<le> length (adu_data sim_adu)" by (simp add: sim_adu_def)
  obtain y' where run: "modbus_raw_tx_cb sim_mb (Some sim_adu) sim_y = Some (0, y')" by (rule sim_tx_call)
  have size: "\<not> MODBUS_BUFFER_SIZE sim_mb - 4 < unat (adu_length sim_adu)" by (simp add: sim_mb_def sim_adu_def)
  have line: "ln_sent (sim_line (sy_w sim_y)) = []" "ln_aborted (sim_line (sy_w sim_y)) = []"
    by (simp_all add: sim_y_def sim_up_def idle_line_def)
  from modbus_tx_outcome [OF sim_mb_ok(1) sim_y_bus sim_mb_ok(4) data run] size line run show ?thesis
    by (intro exI [of _ y']) (auto simp del: bus_inv.simps)
qed

lemma sim_init_keeps: "init_keeps_line sim_mb sim_line"
  by (auto simp: init_keeps_line_def sim_mb_def modbus_points_db_init_def Let_def split: prod.split)

lemma sim_service_init: "\<exists>y'. modbus_service_init sim_mb sim_y = (0, y')"
  by (simp add: modbus_service_init_def sim_mb_def sim_y_def modbus_points_db_init_def
      rs485_init_def lift_rs_def sim_rs_def Let_def)

theorem modbus_tick_heartbeat_witness:
  "\<exists>y'. modbus_service_tick sim_mb sim_y = Some y' \<and> input_reg (sy_mb y') = [1, 0, 0, 0]"
proof -
  have inv: "mb_inv sim_mb (sy_mb sim_y)" using sim_m_inv [of "[]"] by (simp add: sim_y_def)
  have four: "replicate 4 x = [x, x, x, x]" for x :: u16 by (simp add: numeral_eq_Suc)
  have "input_reg (sy_mb sim_y) = [0, 0, 0, 0]" "hb_last_ms (sy_mb sim_y) = 0"
    "fst (k_uptime_get (mb_rs sim_mb) (sy_w sim_y)) = 5000"
    by (simp_all add: sim_y_def sim_m_def mb_state0_def sim_mb_def lift_rs_def sim_rs_def four)
  with modbus_tick_heartbeat [OF sim_mb_ok(1,2) inv] show ?thesis by (auto simp: Let_def)
qed

end
