(* ===== verification/Rs485Stream.thy ===== *)
theory Rs485Stream
  imports Rs485Rx "HOL-Library.Sublist"
begin

text \<open>
  The whole receive path as one stream. The abstract state is the ring and the bytes that
  the DMA has stored but the UART has not reported yet; \<open>rx_spec\<close> says what a step of the
  service does to it, with the ring bounded by 512 bytes. The interpretation \<open>stream\<close> of
  \<open>trace_refinement\<close> shows that the service, with its two buffers and the copy in the UART
  callback, refines this specification on every interleaving in which the DMA fills the
  current buffer from its start and the UART reports each stored byte once and in order.
\<close>

section \<open>What the DMA and the UART promise\<close>

text \<open>
  How many bytes of the current buffer the DMA has stored and how many the UART has
  reported, updated by the events of the hardware; \<open>None\<close> when an event leaves a gap,
  reports bytes twice or bytes not stored, or ends a buffer with bytes not reported.
\<close>

fun dma_next :: "nat \<times> nat \<Rightarrow> rs_label \<Rightarrow> (nat \<times> nat) option" where
  "dma_next (pos, rep) (L_hw (Dma_store b off bytes)) =
     (if off = pos then Some (pos + length bytes, rep) else None)"
| "dma_next (pos, rep) (L_hw (Uart_irq (UART_RX_RDY b off len))) =
     (if off = rep \<and> rep + len \<le> pos then Some (pos, rep + len) else None)"
| "dma_next (pos, rep) (L_hw (Uart_irq (UART_RX_BUF_RELEASED b))) = (if rep = pos then Some (0, 0) else None)"
| "dma_next (pos, rep) (L_hw (Uart_irq UART_RX_DISABLED)) = (if rep = pos then Some (0, 0) else None)"
| "dma_next g _ = Some g"

fun dma_track :: "nat \<times> nat \<Rightarrow> rs_label list \<Rightarrow> (nat \<times> nat) option" where
  "dma_track g [] = Some g"
| "dma_track g (l # ls) = (case dma_next g l of None \<Rightarrow> None | Some g' \<Rightarrow> dma_track g' ls)"

text \<open>The bytes that came in over the wire, and those that the readers took.\<close>

fun wire_bytes :: "rs_label \<Rightarrow> u8 list" where
  "wire_bytes (L_hw (Dma_store b off bytes)) = bytes"
| "wire_bytes _ = []"

fun taken_bytes :: "rs_label \<Rightarrow> u8 list" where
  "taken_bytes (L_take n d) = d"
| "taken_bytes _ = []"

abbreviation rx_wire :: "rs_label list \<Rightarrow> u8 list" where
  "rx_wire ls \<equiv> concat (map wire_bytes ls)"

abbreviation rx_taken :: "rs_label list \<Rightarrow> u8 list" where
  "rx_taken ls \<equiv> concat (map taken_bytes ls)"

text \<open>No report finds the ring too full; \<open>n\<close> bytes are in the ring before.\<close>

fun rx_fits :: "nat \<Rightarrow> rs_label list \<Rightarrow> bool" where
  "rx_fits n [] = True"
| "rx_fits n (L_hw (Uart_irq (UART_RX_RDY b off len)) # ls) =
     (n + len \<le> RX_RING_SIZE \<and> rx_fits (n + len) ls)"
| "rx_fits n (L_take k d # ls) = rx_fits (n - length d) ls"
| "rx_fits n (l # ls) = rx_fits n ls"

section \<open>The specification\<close>

fun rx_spec :: "u8 list \<times> u8 list \<Rightarrow> rs_label \<Rightarrow> u8 list \<times> u8 list" where
  "rx_spec (r, p) (L_hw (Dma_store b off bytes)) = (r, p @ bytes)"
| "rx_spec (r, p) (L_hw (Uart_irq (UART_RX_RDY b off len))) =
     (r @ take (RX_RING_SIZE - length r) (take len p), drop len p)"
| "rx_spec (r, p) (L_take n d) = (drop (unat n) r, p)"
| "rx_spec a l = a"

definition spec_step :: "u8 list \<times> u8 list \<Rightarrow> rs_label \<Rightarrow> u8 list \<times> u8 list \<Rightarrow> bool" where
  "spec_step a l b \<longleftrightarrow> b = rx_spec a l \<and> (\<forall>n d. l = L_take n d \<longrightarrow> d = take (unat n) (fst a)) \<and>
     (\<forall>b off len. l = L_hw (Uart_irq (UART_RX_RDY b off len)) \<longrightarrow> len \<le> length (snd a))"

abbreviation stream_of :: "u8 list \<times> u8 list \<Rightarrow> u8 list" where
  "stream_of a \<equiv> fst a @ snd a"

lemma spec_step_stream:
  assumes "spec_step a l b"
  shows "subseq (taken_bytes l @ stream_of b) (stream_of a @ wire_bytes l)"
proof (cases "(a, l)" rule: rx_spec.cases)
  case (2 r p b off len)
  have "subseq (take (RX_RING_SIZE - length r) (take len p)) (take len p)"
    by (metis append_take_drop_id subseq_rev_drop_many subseq_order.order_refl)
  from list_emb_append_mono [OF this subseq_order.order_refl [of "drop len p"]]
  have "subseq (r @ take (RX_RING_SIZE - length r) (take len p) @ drop len p) (r @ p)"
    by (intro list_emb_append_mono) simp_all
  then show ?thesis using 2 assms by (simp add: spec_step_def)
next
  case (3 r p n d)
  then show ?thesis using assms by (auto simp: spec_step_def simp flip: append_assoc)
qed (use assms in \<open>auto simp: spec_step_def\<close>)

lemma spec_runs_stream:
  "runs spec_step a ls b \<Longrightarrow> subseq (rx_taken ls @ stream_of b) (stream_of a @ rx_wire ls)"
proof (induction rule: runs.induct)
  case (runs_Cons a l b ls c)
  have "subseq (taken_bytes l @ rx_taken ls @ stream_of c) (taken_bytes l @ stream_of b @ rx_wire ls)"
    by (rule list_emb_append_mono [OF _ runs_Cons.IH]) simp
  moreover have "subseq ((taken_bytes l @ stream_of b) @ rx_wire ls) ((stream_of a @ wire_bytes l) @ rx_wire ls)"
    by (rule list_emb_append_mono [OF spec_step_stream [OF runs_Cons.hyps(1)]]) simp
  ultimately show ?case using subseq_order.order_trans by fastforce
qed simp

lemma spec_step_fits:
  assumes "spec_step a l b" and "rx_fits (length (fst a)) (l # ls)"
  shows "taken_bytes l @ stream_of b = stream_of a @ wire_bytes l \<and> rx_fits (length (fst b)) ls"
proof (cases "(a, l)" rule: rx_spec.cases)
  case (2 r p b' off len)
  have "take (RX_RING_SIZE - length r) (take len p) = take len p"
    by (rule take_all) (use 2 assms(2) in auto)
  then show ?thesis using 2 assms by (simp add: spec_step_def)
next
  case (3 r p n d)
  then show ?thesis using assms by (simp add: spec_step_def min_def split: if_splits)
qed (use assms in \<open>auto simp: spec_step_def\<close>)

lemma spec_runs_fits:
  "runs spec_step a ls b \<Longrightarrow> rx_fits (length (fst a)) ls \<Longrightarrow>
   rx_taken ls @ stream_of b = stream_of a @ rx_wire ls"
proof (induction rule: runs.induct)
  case (runs_Cons a l b ls c)
  note st = spec_step_fits [OF runs_Cons.hyps(1) runs_Cons.prems]
  have "rx_taken (l # ls) @ stream_of c = taken_bytes l @ stream_of b @ rx_wire ls"
    using runs_Cons.IH st by simp
  also have "\<dots> = (stream_of a @ wire_bytes l) @ rx_wire ls" using st by (metis append.assoc)
  finally show ?case by simp
qed simp


section \<open>The service refines it\<close>

definition bufs_ok :: "rs_state \<Rightarrow> bool" where
  "bufs_ok s \<longleftrightarrow> length (rx_buf s) = 2 \<and> (\<forall>b \<in> set (rx_buf s). length b = RX_BUF_SIZE)"

text \<open>The bytes of the current buffer that are stored and not reported.\<close>

definition rx_pend :: "rs_state \<Rightarrow> rs_line \<Rightarrow> nat \<times> nat \<Rightarrow> u8 list" where
  "rx_pend s l g = (case (ln_cur l, g) of
     (Some b, pos, rep) \<Rightarrow> take (pos - rep) (drop rep (rx_buf s ! b)) | _ \<Rightarrow> [])"

type_synonym 'w rx_conf = "(write_pc \<times> rs_state \<times> 'w) \<times> nat \<times> nat"

definition rx_step :: "'w rs_api \<Rightarrow> 'w rx_conf \<Rightarrow> rs_label \<Rightarrow> 'w rx_conf \<Rightarrow> bool" where
  "rx_step api c l d \<longleftrightarrow> rs_lstep api (fst c) l (fst d) \<and> dma_next (snd c) l = Some (snd d)"

definition rx_abs :: "('w \<Rightarrow> rs_line) \<Rightarrow> 'w rx_conf \<Rightarrow> u8 list \<times> u8 list" where
  "rx_abs line c = (case c of ((pc, s, w), g) \<Rightarrow> (ln_ring (line w), rx_pend s (line w) g))"

definition rx_inv :: "('w \<Rightarrow> rs_line) \<Rightarrow> 'w rx_conf \<Rightarrow> bool" where
  "rx_inv line c \<longleftrightarrow> (case c of ((pc, s, w), pos, rep) \<Rightarrow>
     bufs_ok s \<and> rx_buf_idx s \<in> {0, 1} \<and> rep \<le> pos \<and> pos \<le> RX_BUF_SIZE \<and>
     (\<forall>b. ln_cur (line w) = Some b \<or> ln_next (line w) = Some b \<longrightarrow> b < 2) \<and>
     (ln_cur (line w) = None \<longrightarrow> pos = rep))"

definition same_rx :: "rs_state \<times> rs_line \<Rightarrow> rs_state \<times> rs_line \<Rightarrow> bool" where
  "same_rx c d \<longleftrightarrow> rx_buf (fst c) = rx_buf (fst d) \<and> rx_buf_idx (fst c) = rx_buf_idx (fst d) \<and>
     ln_ring (snd c) = ln_ring (snd d) \<and> ln_cur (snd c) = ln_cur (snd d) \<and> ln_next (snd c) = ln_next (snd d)"

lemma writer_same_rx:
  assumes ok: "rs_ok api line" and "rs_lstep api (pc, s, w) l (pc', s', w')" and "l \<in> {L_writer, L_clock}"
  shows "same_rx (s', line w') (s, line w)"
  using assms(2)
proof (cases rule: rs_lstep.cases)
  case (W_start len)
  then show ?thesis using rs_ok_calls(4) [OF ok, of "tx_buf s" len w 0 w'] by (simp add: same_rx_def)
next
  case (W_refused len r)
  then show ?thesis using rs_ok_calls(4) [OF ok, of "tx_buf s" len w r w'] by (simp add: same_rx_def)
next
  case W_blocked
  then show ?thesis using rs_ok_calls(1) [OF ok, of w False w'] by (simp add: same_rx_def)
next
  case W_wake
  then show ?thesis using rs_ok_calls(1) [OF ok, of w True w'] by (simp add: same_rx_def)
next
  case (R_time now)
  then show ?thesis using rs_ok_calls(7) [OF ok, of w now w'] by (simp add: same_rx_def)
qed (use assms(3) in \<open>auto simp: same_rx_def rs_ok_pure [OF ok]\<close>)

lemma same_rx_sim:
  assumes "same_rx (s', line w') (s, line w)"
  shows "rx_inv line ((pc', s', w'), g) = rx_inv line ((pc, s, w), g)"
    and "rx_abs line ((pc', s', w'), g) = rx_abs line ((pc, s, w), g)"
proof -
  note same = assms [unfolded same_rx_def fst_conv snd_conv]
  show "rx_inv line ((pc', s', w'), g) = rx_inv line ((pc, s, w), g)"
    unfolding rx_inv_def bufs_ok_def prod.case using same by (simp only: )
  show "rx_abs line ((pc', s', w'), g) = rx_abs line ((pc, s, w), g)"
    unfolding rx_abs_def rx_pend_def prod.case using same by (simp only: )
qed


lemma rx_invD:
  assumes "rx_inv line ((pc, s, w), pos, rep)"
  shows "length (rx_buf s) = 2" and "b < 2 \<Longrightarrow> length (rx_buf s ! b) = RX_BUF_SIZE"
    and "rx_buf_idx s = 0 \<or> rx_buf_idx s = 1" and "rep \<le> pos" and "pos \<le> RX_BUF_SIZE"
    and "ln_cur (line w) = Some b \<Longrightarrow> b < 2" and "ln_next (line w) = Some b \<Longrightarrow> b < 2"
    and "ln_cur (line w) = None \<Longrightarrow> pos = rep"
  using assms by (auto simp: rx_inv_def bufs_ok_def)

lemma rx_sim_store:
  assumes inv: "rx_inv line ((pc, s, w), pos, rep)" and cur: "ln_cur (line w) = Some b"
    and fit: "pos + length bytes \<le> RX_BUF_SIZE"
    and s': "s' = s\<lparr>rx_buf := (rx_buf s)[b := mem_write (rx_buf s ! b) pos bytes]\<rparr>"
  shows "rx_inv line ((pc, s', w), pos + length bytes, rep)"
    and "rx_pend s' (line w) (pos + length bytes, rep) = rx_pend s (line w) (pos, rep) @ bytes"
proof -
  note i = rx_invD [OF inv]
  have b: "b < 2" using i(6) [OF cur] .
  have buf: "rx_buf s' ! b = mem_write (rx_buf s ! b) pos bytes" using b i(1) s' by simp
  have "length (mem_write (rx_buf s ! b) pos bytes) = RX_BUF_SIZE"
    using i(2) [OF b] fit by (simp add: mem_write_def)
  then have "bufs_ok s'" using inv s' by (auto simp: rx_inv_def bufs_ok_def dest!: set_update_subset_insert [THEN subsetD])
  then show "rx_inv line ((pc, s', w), pos + length bytes, rep)"
    using inv s' fit cur by (simp add: rx_inv_def)
  have "drop rep (mem_write (rx_buf s ! b) pos bytes) =
      take (pos - rep) (drop rep (rx_buf s ! b)) @ bytes @ drop (pos + length bytes) (rx_buf s ! b)"
    using i(2) [OF b] i(4,5) by (simp add: mem_write_def drop_take)
  moreover have "length (take (pos - rep) (drop rep (rx_buf s ! b))) = pos - rep"
    using i(2) [OF b] i(4,5) by simp
  ultimately show "rx_pend s' (line w) (pos + length bytes, rep) = rx_pend s (line w) (pos, rep) @ bytes"
    using cur i(4) by (simp add: rx_pend_def buf)
qed

lemma rx_sim_ready:
  assumes inv: "rx_inv line ((pc, s, w), pos, rep)" and cur: "ln_cur (line w) = Some b"
    and len: "rep + len \<le> pos"
  shows "take len (drop rep (rx_buf s ! b)) = take len (rx_pend s (line w) (pos, rep))"
    and "rx_pend s (line w) (pos, rep + len) = drop len (rx_pend s (line w) (pos, rep))"
    and "len \<le> length (rx_pend s (line w) (pos, rep))"
  using cur len rx_invD [OF inv] by (simp_all add: rx_pend_def drop_take add.commute min_absorb1)


definition rx_sim :: "('w \<Rightarrow> rs_line) \<Rightarrow> 'w rx_conf \<Rightarrow> rs_label \<Rightarrow> 'w rx_conf \<Rightarrow> bool" where
  "rx_sim line c l d \<longleftrightarrow> rx_inv line d \<and> spec_step (rx_abs line c) l (rx_abs line d)"

lemma rx_sim_same:
  assumes "rx_inv line ((pc, s, w), g)" and "same_rx (s', line w') (s, line w)"
    and "rx_spec (rx_abs line ((pc, s, w), g)) l = rx_abs line ((pc, s, w), g)"
    and "\<And>n d. l \<noteq> L_take n d" and "\<And>b off len. l \<noteq> L_hw (Uart_irq (UART_RX_RDY b off len))"
  shows "rx_sim line ((pc, s, w), g) l ((pc', s', w'), g)"
  using same_rx_sim [of s' line w' s w pc' g pc] assms by (simp add: rx_sim_def spec_step_def)

lemma rx_sim_end:
  assumes inv: "rx_inv line ((pc, s, w), g)" and s': "s' = s" and g: "fst g = snd g" and g': "g' = (0, 0)"
    and l: "l = L_hw (Uart_irq UART_RX_DISABLED) \<or> l = L_hw (Uart_irq (UART_RX_BUF_RELEASED b))"
    and ring: "ln_ring (line w') = ln_ring (line w)"
    and bufs: "\<And>b. ln_cur (line w') = Some b \<or> ln_next (line w') = Some b \<Longrightarrow> b < 2"
  shows "rx_sim line ((pc, s, w), g) l ((pc, s', w'), g')"
proof -
  have "rx_pend s (line w) g = []" "rx_pend s (line w') g' = []"
    using g g' by (cases g; simp add: rx_pend_def split: option.split)+
  moreover have "rx_inv line ((pc, s', w'), g')"
    using inv bufs g' s' by (cases g) (auto simp: rx_inv_def)
  ultimately show ?thesis using l ring s' by (auto simp: rx_sim_def rx_abs_def spec_step_def)
qed

lemma irq_sim_data:
  assumes ok: "rs_ok api line" and inv: "rx_inv line ((pc, s, w), pos, rep)"
    and irq: "hw_irq api w = Some (ev, w1)" and cb: "on_hw api ev s w1 = (s', w2)"
  shows "ev = Dma_store b pos bytes \<Longrightarrow>
      rx_sim line ((pc, s, w), pos, rep) (L_hw ev) ((pc, s', w2), pos + length bytes, rep)"
    and "ev = Uart_irq (UART_RX_RDY b rep len) \<Longrightarrow> rep + len \<le> pos \<Longrightarrow>
      rx_sim line ((pc, s, w), pos, rep) (L_hw ev) ((pc, s', w2), pos, rep + len)"
proof -
  note i = rx_invD [OF inv] and hw = rs_ok_calls(8) [OF ok irq]
  show "rx_sim line ((pc, s, w), pos, rep) (L_hw ev) ((pc, s', w2), pos + length bytes, rep)"
    if ev: "ev = Dma_store b pos bytes"
  proof -
    have l: "line w2 = line w" "ln_cur (line w) = Some b" "pos + length bytes \<le> RX_BUF_SIZE"
      and s': "s' = s\<lparr>rx_buf := (rx_buf s)[b := mem_write (rx_buf s ! b) pos bytes]\<rparr>"
      using hw cb ev by (auto simp: on_hw_def)
    show ?thesis
      using rx_sim_store [OF inv l(2,3) s'] l(1) ev by (simp add: rx_sim_def rx_abs_def rx_inv_def spec_step_def)
  qed
  show "rx_sim line ((pc, s, w), pos, rep) (L_hw ev) ((pc, s', w2), pos, rep + len)"
    if ev: "ev = Uart_irq (UART_RX_RDY b rep len)" and len: "rep + len \<le> pos"
  proof -
    have l: "line w1 = line w" "ln_cur (line w) = Some b" using hw ev by simp_all
    note r = rx_sim_ready [OF inv l(2) len]
    obtain n where put: "ring_buf_put api (take len (rx_pend s (line w) (pos, rep))) w1 = (n, w2)" and s': "s' = s"
      using cb ev r(1) by (auto simp: on_hw_def uart_cb_def split: prod.splits)
    have "take (unat n) (take len (rx_pend s (line w) (pos, rep))) =
        take (RX_RING_SIZE - length (ln_ring (line w))) (take len (rx_pend s (line w) (pos, rep)))"
      using rs_ok_calls(5) [OF ok put] l(1) by (simp add: min_def)
    then have ring: "ln_ring (line w2) =
        ln_ring (line w) @ take (RX_RING_SIZE - length (ln_ring (line w))) (take len (rx_pend s (line w) (pos, rep)))"
      and bufs: "ln_cur (line w2) = ln_cur (line w)" "ln_next (line w2) = ln_next (line w)"
      using rs_ok_calls(5) [OF ok put] l(1) by simp_all
    have "rx_pend s (line w2) (pos, rep + len) = rx_pend s (line w) (pos, rep + len)"
      using bufs by (simp add: rx_pend_def)
    then show ?thesis
      using r ring bufs inv len ev s' l(2) by (simp add: rx_sim_def rx_abs_def rx_inv_def spec_step_def)
  qed
qed

lemma irq_sim_request:
  assumes ok: "rs_ok api line" and inv: "rx_inv line ((pc, s, w), g)"
    and irq: "hw_irq api w = Some (Uart_irq UART_RX_BUF_REQUEST, w1)"
    and cb: "on_hw api (Uart_irq UART_RX_BUF_REQUEST) s w1 = (s', w2)"
  shows "rx_sim line ((pc, s, w), g) (L_hw (Uart_irq UART_RX_BUF_REQUEST)) ((pc, s', w2), g)"
proof -
  note hw = rs_ok_calls(8) [OF ok irq]
  have l: "line w2 = (line w)\<lparr>ln_next := Some (nat (rx_buf_idx s))\<rparr>"
    and s': "s' = s\<lparr>rx_buf_idx := rx_buf_idx s XOR 1\<rparr>"
    using cb hw by (auto simp: on_hw_def uart_cb_def rs_ok_pure [OF ok])
  have "rx_pend s' (line w2) g = rx_pend s (line w) g"
    using l s' by (simp add: rx_pend_def split: option.split)
  moreover have "rx_inv line ((pc, s', w2), g)"
    using inv l s' by (cases g) (auto simp: rx_inv_def bufs_ok_def)
  ultimately show ?thesis using l by (simp add: rx_sim_def rx_abs_def spec_step_def)
qed

lemma irq_sim:
  assumes ok: "rs_ok api line" and inv: "rx_inv line ((pc, s, w), g)"
    and irq: "hw_irq api w = Some (ev, w1)" and cb: "on_hw api ev s w1 = (s', w2)"
    and dma: "dma_next g (L_hw ev) = Some g'"
  shows "rx_sim line ((pc, s, w), g) (L_hw ev) ((pc, s', w2), g')"
proof -
  note hw = rs_ok_calls(8) [OF ok irq]
  have same: ?thesis if "ev \<in> {Uart_irq UART_TX_DONE, Uart_irq UART_TX_ABORTED, Uart_irq UART_RX_STOPPED}"
  proof -
    have "g' = g" using that dma by auto
    moreover have "same_rx (s', line w2) (s, line w)"
      using that cb hw by (auto simp: same_rx_def on_hw_def uart_cb_def rs_ok_pure [OF ok])
    ultimately show ?thesis
      using rx_sim_same [OF inv, of s' w2 "L_hw ev" pc] that by (auto simp: rx_abs_def)
  qed
  have request: ?thesis if "ev = Uart_irq UART_RX_BUF_REQUEST"
    using irq_sim_request [OF ok inv] irq cb dma that by auto
  show ?thesis
  proof (cases "(g, L_hw ev)" rule: dma_next.cases)
    case (1 pos rep b off bytes)
    then show ?thesis
      using dma irq_sim_data(1) [OF ok _ irq cb, of pc pos rep b bytes] inv by (auto split: if_splits)
  next
    case (2 pos rep b off len)
    then show ?thesis
      using dma irq_sim_data(2) [OF ok _ irq cb, of pc pos rep b len] inv by (auto split: if_splits)
  next
    case (3 pos rep b)
    then have ev: "ev = Uart_irq (UART_RX_BUF_RELEASED b)" and g: "fst g = snd g" "g' = (0, 0)"
      using dma by (auto split: if_splits)
    have l: "ln_ring (line w2) = ln_ring (line w)" "ln_cur (line w2) = ln_next (line w)"
      "ln_next (line w2) = None" "s' = s" using hw cb ev by (auto simp: on_hw_def uart_cb_def)
    have "n < 2" if "ln_next (line w) = Some n" for n using inv that by (cases g) (auto simp: rx_inv_def)
    then show ?thesis using rx_sim_end [OF inv l(4) g _ l(1)] l ev by simp
  next
    case (4 pos rep)
    then have ev: "ev = Uart_irq UART_RX_DISABLED" and g: "fst g = snd g" "g' = (0, 0)"
      using dma by (auto split: if_splits)
    obtain r where en: "uart_rx_enable api 0 (of_nat RX_BUF_SIZE) RX_TIMEOUT_US w1 = (r, w2)" and s': "s' = s"
      using cb ev by (auto simp: on_hw_def uart_cb_def split: prod.splits)
    have l: "ln_ring (line w2) = ln_ring (line w)" "ln_next (line w2) = None"
      "ln_cur (line w2) = None \<or> ln_cur (line w2) = Some 0"
      using hw ev rs_ok_calls(3) [OF ok en] by auto
    then show ?thesis using rx_sim_end [OF inv s' g _ l(1)] ev by auto
  qed (use same request in auto)
qed

lemma rx_step_sim:
  assumes ok: "rs_ok api line" and inv: "rx_inv line c" and step: "rx_step api c l d"
  shows "rx_sim line c l d"
proof -
  obtain pc s w g pc' s' w' g' where c: "c = ((pc, s, w), g)" and d: "d = ((pc', s', w'), g')"
    by (metis prod_cases3 surj_pair)
  have st: "rs_lstep api (pc, s, w) l (pc', s', w')" and dma: "dma_next g l = Some g'"
    using step by (simp_all add: rx_step_def c d)
  note inv = inv [unfolded c]
  show ?thesis
  proof (cases l)
    case (L_take n bs)
    then obtain len where get: "ring_buf_get api n w = (len, bs, w')" and same: "pc' = pc" "s' = s" "g' = g"
      using st dma by (auto elim: rs_lstep.cases)
    have "rx_inv line d" "rx_pend s (line w') g = rx_pend s (line w) g"
      using inv rs_ok_calls(6) [OF ok get] by (simp_all add: d same rx_inv_def rx_pend_def)
    then show ?thesis
      using rs_ok_calls(6) [OF ok get] L_take by (simp add: rx_sim_def rx_abs_def spec_step_def c d same)
  next
    case (L_hw ev)
    then obtain w1 where "hw_irq api w = Some (ev, w1)" "on_hw api ev s w1 = (s', w')" "pc' = pc"
      using st by (auto elim: rs_lstep.cases)
    then show ?thesis using irq_sim [OF ok inv] dma by (simp add: c d L_hw)
  next
    case L_writer
    then show ?thesis
      using rx_sim_same [OF inv writer_same_rx [OF ok st]] dma by (simp add: c d rx_abs_def)
  next
    case L_clock
    then show ?thesis
      using rx_sim_same [OF inv writer_same_rx [OF ok st]] dma by (simp add: c d rx_abs_def)
  qed
qed

interpretation stream: trace_refinement "rx_step api" spec_step "rx_abs line"
    "\<lambda>c. rs_ok api line \<and> rx_inv line c"
  for api :: "'w rs_api" and line
  by unfold_locales (auto dest: rx_step_sim simp: rx_sim_def)

text \<open>A run of the service whose events keep the promise is a run with the counters.\<close>

lemma runs_rx_step:
  "runs (rs_lstep api) c ls d \<Longrightarrow> dma_track g ls = Some g' \<Longrightarrow> runs (rx_step api) (c, g) ls (d, g')"
proof (induction arbitrary: g rule: runs.induct)
  case (runs_Cons c l e ls d)
  obtain h where h: "dma_next g l = Some h" "dma_track h ls = Some g'"
    using runs_Cons.prems by (auto split: option.splits)
  have "rx_step api (c, g) l (e, h)" using runs_Cons.hyps(1) h(1) by (simp add: rx_step_def)
  then show ?case using runs_Cons.IH [OF h(2)] by (rule runs.runs_Cons)
qed simp

lemma rx_stream:
  assumes ok: "rs_ok api line" and "runs (rs_lstep api) (pc0, s0, w0) ls (pc, s, w)"
    and "dma_track g0 ls = Some g" and inv: "rx_inv line ((pc0, s0, w0), g0)"
  shows "subseq (rx_taken ls @ ln_ring (line w) @ rx_pend s (line w) g)
      (ln_ring (line w0) @ rx_pend s0 (line w0) g0 @ rx_wire ls)"
    and "rx_fits (length (ln_ring (line w0))) ls \<Longrightarrow>
      rx_taken ls @ ln_ring (line w) @ rx_pend s (line w) g =
        ln_ring (line w0) @ rx_pend s0 (line w0) g0 @ rx_wire ls"
proof -
  have "runs spec_step (rx_abs line ((pc0, s0, w0), g0)) ls (rx_abs line ((pc, s, w), g))"
    using stream.runs_sim [OF runs_rx_step [OF assms(2,3)]] ok inv by blast
  note spec_runs_stream [OF this] spec_runs_fits [OF this]
  then show "subseq (rx_taken ls @ ln_ring (line w) @ rx_pend s (line w) g)
      (ln_ring (line w0) @ rx_pend s0 (line w0) g0 @ rx_wire ls)"
    and "rx_fits (length (ln_ring (line w0))) ls \<Longrightarrow>
      rx_taken ls @ ln_ring (line w) @ rx_pend s (line w) g =
        ln_ring (line w0) @ rx_pend s0 (line w0) g0 @ rx_wire ls"
    by (simp_all add: rx_abs_def)
qed

lemma rx_inv_runs:
  assumes "rs_ok api line" and "runs (rs_lstep api) c0 ls c" and "dma_track g0 ls = Some g"
    and "rx_inv line (c0, g0)"
  shows "rx_inv line (c, g)"
  using stream.runs_inv [OF runs_rx_step [OF assms(2,3)]] assms(1,4) by blast

lemma length_rx_pend:
  "rx_inv line ((pc, s, w), pos, rep) \<Longrightarrow> length (rx_pend s (line w) (pos, rep)) = pos - rep"
  by (auto simp: rx_inv_def bufs_ok_def rx_pend_def split: option.split)

lemma rx_inv_init:
  assumes ok: "rs_ok api line" and init: "rs485_init api w = (0, w0)"
  shows "rx_inv line ((pc, rs_state0, w0), 0, 0)"
proof -
  obtain w3 where "uart_rx_enable api 0 (of_nat RX_BUF_SIZE) RX_TIMEOUT_US w3 = (0, w0)"
    using init by (auto simp: rs485_init_def Let_def split: prod.splits if_splits)
  from rs_ok_calls(3) [OF ok this] show ?thesis by (auto simp: rx_inv_def bufs_ok_def rs_state0_def)
qed

section \<open>A read is a run\<close>

text \<open>
  The non-blocking part and the loop of \<open>rs485_read\<close> as runs of the reader and the hardware;
  the bytes taken are those the call leaves in the caller's buffer.
\<close>

lemma deliver_run:
  "deliver api n s w = (s', w') \<Longrightarrow> \<exists>es. runs (rs_lstep api) (pc, s, w) (map L_hw es) (pc, s', w')"
proof (induction n arbitrary: s w)
  case (Suc n)
  show ?case
  proof (cases "hw_irq api w")
    case (Some p)
    obtain ev w1 s1 w2 where irq: "hw_irq api w = Some (ev, w1)" and cb: "on_hw api ev s w1 = (s1, w2)"
      using Some by (cases p, cases "on_hw api (fst p) s (snd p)") auto
    have "deliver api n s1 w2 = (s', w')" using Suc.prems irq cb by simp
    from Suc.IH [OF this] obtain es where "runs (rs_lstep api) (pc, s1, w2) (map L_hw es) (pc, s', w')"
      by blast
    then have "runs (rs_lstep api) (pc, s, w) (map L_hw (ev # es)) (pc, s', w')"
      using rs_lstep.Irq [OF irq cb] by (auto intro: runs_Cons)
    then show ?thesis by blast
  next
    case None
    then show ?thesis using Suc.prems by (intro exI [of _ "[]"]) simp
  qed
qed (auto intro: exI [of _ "[]"])

definition reader_run ::
  "'w rs_api \<Rightarrow> write_pc \<times> rs_state \<times> 'w \<Rightarrow> u8 list \<Rightarrow> write_pc \<times> rs_state \<times> 'w \<Rightarrow> bool" where
  "reader_run api c bs d \<longleftrightarrow> (\<exists>ls. runs (rs_lstep api) c ls d \<and> L_writer \<notin> set ls \<and> rx_taken ls = bs)"

lemma reader_run_refl [simp]: "reader_run api c [] c"
  by (auto simp: reader_run_def intro: exI [of _ "[]"])

lemma reader_run_trans: "reader_run api c xs d \<Longrightarrow> reader_run api d ys e \<Longrightarrow> reader_run api c (xs @ ys) e"
  unfolding reader_run_def by (metis runs_append set_append Un_iff map_append concat_append)

lemma reader_runI:
  "rs_lstep api c l d \<Longrightarrow> l \<noteq> L_writer \<Longrightarrow> reader_run api c (taken_bytes l) d"
  unfolding reader_run_def by (intro exI [of _ "[l]"]) (auto intro: runs_Cons)

lemma deliver_reader_run: "deliver api n s w = (s', w') \<Longrightarrow> reader_run api (pc, s, w) [] (pc, s', w')"
  unfolding reader_run_def by (drule deliver_run [where pc = pc]) (force simp: comp_def)

lemma get_reader_run:
  assumes "deliver api (hw_burst api w) s w = (s1, w1)" and "ring_buf_get api n w1 = (len, d, w2)"
  shows "reader_run api (pc, s, w) d (pc, s1, w2)"
  using reader_run_trans [OF deliver_reader_run [OF assms(1)] reader_runI [OF rs_lstep.R_get [OF assms(2)]], of pc]
  by simp

lemma read_loop_reader_run:
  assumes ok: "rs_ok api line"
    and run: "rs485_read_loop api ticks end_ms max_len buf tot s w = Some r"
    and "unat tot \<le> unat max_len" and "unat max_len \<le> length buf"
  shows "case r of (t', buf', s', w') \<Rightarrow> unat tot \<le> unat t' \<and> take (unat tot) buf' = take (unat tot) buf \<and>
    reader_run api (pc, s, w) (drop (unat tot) (take (unat t') buf')) (pc, s', w')"
  using run assms(3,4)
proof (induction rule: read_loop_induct)
  case (get buf tot s w s1 w1 len d w2 r)
  obtain t' buf' s' w' where r: "r = (t', buf', s', w')" by (cases r)
  note g = ring_get_word [OF ok get(3,1)]
  have ih: "unat tot + length d \<le> unat t'"
    "take (unat tot + length d) buf' = take (unat tot + length d) (mem_write buf (unat tot) d)"
    "reader_run api (pc, s1, w2) (drop (unat tot + length d) (take (unat t') buf')) (pc, s', w')"
    using get.IH g get.prems r by simp_all
  have "unat tot + length d \<le> length buf" using g get.prems by simp
  note m = mem_write_more [OF ih(2,1) this]
  have "reader_run api (pc, s, w) (d @ drop (unat tot + length d) (take (unat t') buf')) (pc, s', w')"
    by (rule reader_run_trans [OF get_reader_run [OF get(2,3)] ih(3)])
  then show ?case using r m ih(1) by simp
next
  case (empty buf tot s w s1 w1 d w2)
  have "d = []" using ring_get_word [OF ok empty(3,1)] by simp
  then show ?case using get_reader_run [OF empty(2,3), of pc] by simp
next
  case (expired buf tot s w s1 w1 d w2 now w3)
  have "d = []" using ring_get_word [OF ok expired(3,1)] by simp
  then show ?case
    using reader_run_trans [OF get_reader_run [OF expired(2,3)] reader_runI [OF rs_lstep.R_time [OF expired(5)]], of pc]
    by simp
next
  case (sleep buf tot s w s1 w1 d w2 now w3 r)
  have d: "d = []" using ring_get_word [OF ok sleep(3,1)] by simp
  have "reader_run api (pc, s1, w2) [] (pc, s1, w3)"
    and "reader_run api (pc, s1, w3) [] (pc, s1, k_sleep_ms api 1 w3)"
    using reader_runI [OF rs_lstep.R_time [OF sleep(5)]] reader_runI [OF rs_lstep.R_sleep] by force+
  note clock = reader_run_trans [OF get_reader_run [OF sleep(2,3)] reader_run_trans [OF this]]
  obtain t' buf' s' w' where r: "r = (t', buf', s', w')" by (cases r)
  then show ?case using sleep.IH [OF sleep.prems] reader_run_trans [OF clock] d by simp
qed simp

lemma rs485_read_reader_run:
  assumes ok: "rs_ok api line" and "unat max_len < 2 ^ 31" and "unat max_len \<le> length buf"
    and run: "rs485_read api buf max_len ticks s w = Some (r, buf', s', w')"
  shows "reader_run api (pc, s, w) (take (nat r) buf') (pc, s', w')"
proof -
  obtain e w1 t where e: "rs485_read_end api ticks w = (e, w1)"
    and loop: "rs485_read_loop api ticks e max_len buf 0 s w1 = Some (t, buf', s', w')" and r: "r = sint t"
    using run by (auto simp: rs485_read_def split: prod.splits)
  have "unat t \<le> unat max_len" using read_loop_post [OF ok loop] assms(3) by (simp add: read_post_def)
  then have t: "nat r = unat t" using r assms(2) by (simp add: sint_unat_small)
  have "w1 = w \<or> (\<exists>now. k_uptime_get api w = (now, w1))"
    using e by (auto simp: rs485_read_end_def Let_def split: if_splits prod.splits)
  then have "reader_run api (pc, s, w) [] (pc, s, w1)"
    using reader_runI [OF rs_lstep.R_time, of api w _ w1 pc s] by auto
  moreover have "reader_run api (pc, s, w1) (take (unat t) buf') (pc, s', w')"
    using read_loop_reader_run [OF ok loop, of pc] assms(3) by simp
  ultimately show ?thesis using reader_run_trans t by fastforce
qed


section \<open>Properties\<close>

text \<open>
  C16. The receive path is a first-in first-out stream over the whole life of the service,
  in every interleaving of the writer, the readers, the DMA and the UART callback, with both
  buffers and across restarts of reception: what the readers took so far, followed by the
  ring, is a subsequence of what came in over the wire, so nothing is reordered, repeated or
  made up; and as long as no report found the ring too full nothing is lost either, only
  the bytes the UART has not reported yet are missing at the end.
\<close>

theorem rs485_stream:
  assumes "rs_ok api line" and "rs485_init api w = (0, w0)"
    and "runs (rs_lstep api) (W_idle q, rs_state0, w0) ls (pc, s, w1)"
    and "dma_track (0, 0) ls = Some (pos, rep)"
  shows "subseq (rx_taken ls @ ln_ring (line w1)) (ln_ring (line w0) @ rx_wire ls) \<and>
    (rx_fits (length (ln_ring (line w0))) ls \<longrightarrow>
      (\<exists>rest. length rest = pos - rep \<and>
        rx_taken ls @ ln_ring (line w1) @ rest = ln_ring (line w0) @ rx_wire ls))"
proof -
  have inv: "rx_inv line ((W_idle q, rs_state0, w0), 0, 0)" by (rule rx_inv_init [OF assms(1,2)])
  note s = rx_stream [OF assms(1,3,4) inv]
  have none: "rx_pend rs_state0 (line w0) (0, 0) = []" by (simp add: rx_pend_def split: option.split)
  have "rx_inv line ((pc, s, w1), pos, rep)" by (rule rx_inv_runs [OF assms(1,3,4) inv])
  then have len: "length (rx_pend s (line w1) (pos, rep)) = pos - rep" by (rule length_rx_pend)
  have "subseq (rx_taken ls @ ln_ring (line w1)) (rx_taken ls @ ln_ring (line w1) @ rx_pend s (line w1) (pos, rep))"
    by (intro list_emb_append_mono subseq_rev_drop_many) simp_all
  then show ?thesis using s none len subseq_order.order_trans by auto
qed

text \<open>
  C38. The functions are executions of the interleaving relation, so what holds of every
  interleaving holds of them: a completed \<open>rs485_write\<close> is a run of the writer and the
  hardware from outside the function back to outside it with the code it returned, in which
  nothing is taken from the ring, and a completed \<open>rs485_read\<close> is a run of the reader and
  the hardware in which exactly the bytes returned are taken, while the writer stays where
  it is.
\<close>

theorem rs485_calls_are_runs:
  assumes "rs_ok api line"
  shows "(rs485_write api data len s w = Some (r, s', w') \<longrightarrow>
      (\<exists>ls. runs (rs_lstep api) (W_idle q, s, w) ls (W_idle r, s', w') \<and> (\<forall>n d. L_take n d \<notin> set ls))) \<and>
    (rs485_read api buf max_len ticks s w = Some (k, buf', s', w') \<and>
      unat max_len < 2 ^ 31 \<and> unat max_len \<le> length buf \<longrightarrow>
      (\<exists>ls. runs (rs_lstep api) (pc, s, w) ls (pc, s', w') \<and> L_writer \<notin> set ls \<and>
        rx_taken ls = take (nat k) buf'))"
  using rs485_write_run [of api data len s w r s' w' q]
    rs485_read_reader_run [OF assms, of max_len buf ticks s w k buf' s' w' pc]
  unfolding reader_run_def by blast

section \<open>Witnesses\<close>

theorem rs485_stream_witness:
  "\<exists>ls s w1 rest. runs (rs_lstep sim_rs) (W_idle 0, rs_state0,
      sim_rx [Dma_store 0 0 [7, 8, 9], Uart_irq (UART_RX_RDY 0 0 2)] []) ls (W_idle 0, s, w1) \<and>
    rx_taken ls = [7, 8] \<and> length rest = 1 \<and> rx_taken ls @ ln_ring (sm_line w1) @ rest = [7, 8, 9]"
proof -
  let ?rdy = "Uart_irq (UART_RX_RDY 0 0 2)" and ?dma = "Dma_store 0 0 [7, 8, 9]"
  let ?ls = "[L_hw ?dma, L_hw ?rdy, L_take 64 [7, 8]]"
  let ?s = "rs_state0\<lparr>rx_buf := (rx_buf rs_state0)[0 := mem_write (rx_buf rs_state0 ! 0) 0 [7, 8, 9]]\<rparr>"
  have init: "rs485_init sim_rs (sim_boot\<lparr>sm_evs := [?dma, ?rdy]\<rparr>) = (0, sim_rx [?dma, ?rdy] [])"
    by (simp add: rs485_init_def sim_rs_def sim_boot_def sim_rx_def sim_up_def idle_line_def)
  have "rs_lstep sim_rs (W_idle 0, rs_state0, sim_rx [?dma, ?rdy] []) (L_hw ?dma) (W_idle 0, ?s, sim_rx [?rdy] [])"
    by (rule rs_lstep.Irq [where ?w1.0 = "sim_rx [?rdy] []"])
       (simp_all add: sim_rs_def sim_irq_def on_hw_def, simp add: sim_rx_def)
  moreover have "rs_lstep sim_rs (W_idle 0, ?s, sim_rx [?rdy] []) (L_hw ?rdy) (W_idle 0, ?s, sim_rx [] [7, 8])"
    by (rule rs_lstep.Irq [where ?w1.0 = "sim_rx [] []"])
       (simp_all add: sim_rs_def sim_irq_def on_hw_def uart_cb_def rs_state0_def mem_write_def sim_rx_def sim_up_def)
  moreover have "rs_lstep sim_rs (W_idle 0, ?s, sim_rx [] [7, 8]) (L_take 64 [7, 8]) (W_idle 0, ?s, sim_rx [] [])"
    by (rule rs_lstep.R_get [where len = 2]) (simp add: sim_rs_def sim_rx_def sim_up_def)
  ultimately have run: "runs (rs_lstep sim_rs) (W_idle 0, rs_state0, sim_rx [?dma, ?rdy] []) ?ls (W_idle 0, ?s, sim_rx [] [])"
    by (simp add: runs_Cons_iff) blast
  have dma: "dma_track (0, 0) ?ls = Some (3, 2)" by simp
  from rs485_stream [OF sim_rs_ok init run dma] obtain rest where
    "length rest = 1" "rx_taken ?ls @ ln_ring (sm_line (sim_rx [] [])) @ rest = [7, 8, 9]" by auto
  then show ?thesis using run by (intro exI [of _ ?ls] exI [of _ ?s] exI [of _ "sim_rx [] []"]) auto
qed

theorem rs485_calls_are_runs_witness:
  "\<exists>r b s w' ls. rs485_read sim_rs [0, 0, 0, 0] 4 K_NO_WAIT rs_state0 (sim_rx [] [1, 2, 3]) = Some (r, b, s, w') \<and>
    runs (rs_lstep sim_rs) (W_waiting, rs_state0, sim_rx [] [1, 2, 3]) ls (W_waiting, s, w') \<and>
    L_writer \<notin> set ls \<and> rx_taken ls = take (nat r) b"
proof -
  obtain r b s w' where run: "rs485_read sim_rs [0, 0, 0, 0] 4 K_NO_WAIT rs_state0 (sim_rx [] [1, 2, 3]) = Some (r, b, s, w')"
    using sim_read_returns by blast
  have n: "unat (4 :: usize) < 2 ^ 31 \<and> unat (4 :: usize) \<le> length [0, 0, 0, 0 :: u8]" by simp
  note calls = rs485_calls_are_runs [OF sim_rs_ok, of undefined undefined rs_state0 "sim_rx [] [1, 2, 3]" undefined s w'
    undefined "[0, 0, 0, 0]" 4 K_NO_WAIT r b W_waiting]
  from mp [OF conjunct2 [OF calls] conjI [OF run n]] run show ?thesis by iprover
qed

end
