(* ===== verification/ModbusSystem.thy ===== *)
theory ModbusSystem
  imports ModbusTask Rs485Stream
begin

text \<open>
  The Modbus service at work: the main loop executes the periodic task, and the server of
  Zephyr calls the callbacks the service has registered with it, in any order. One event
  is one such call with its result. The system is shown to refine a register file, through
  the interpretation \<open>service\<close> of the contract \<open>trace_refinement\<close>: the point database,
  the key-value store and the serial line below it are not visible to a Modbus client. A
  call is one step here; \<open>ModbusThreads\<close> has the threads interleaved within the calls.
\<close>

section \<open>Calls as events\<close>

datatype mb_event =
    Ev_tick
  | Ev_coil_rd u16 int "bool option"
  | Ev_coil_wr u16 bool int
  | Ev_input_rd u16 int "u16 option"
  | Ev_holding_rd u16 int "u16 option"
  | Ev_holding_wr u16 u16 int
  | Ev_raw_tx "modbus_adu option" int

fun mb_step :: "'w mb_api \<Rightarrow> 'w mb_sys \<Rightarrow> mb_event \<Rightarrow> 'w mb_sys \<Rightarrow> bool" where
  "mb_step api y Ev_tick z \<longleftrightarrow>
     (\<exists>y1. modbus_service_tick api y = Some y1 \<and> z = y1\<lparr>sy_w := k_sleep_ms (mb_rs api) 1 (sy_w y1)\<rparr>)"
| "mb_step api y (Ev_coil_rd a r x) z \<longleftrightarrow> cb_coil_rd (mp_user_cb (server_param api)) a y = (r, x, z)"
| "mb_step api y (Ev_coil_wr a v r) z \<longleftrightarrow> cb_coil_wr (mp_user_cb (server_param api)) a v y = (r, z)"
| "mb_step api y (Ev_input_rd a r x) z \<longleftrightarrow> cb_input_reg_rd (mp_user_cb (server_param api)) a y = (r, x, z)"
| "mb_step api y (Ev_holding_rd a r x) z \<longleftrightarrow> cb_holding_reg_rd (mp_user_cb (server_param api)) a y = (r, x, z)"
| "mb_step api y (Ev_holding_wr a v r) z \<longleftrightarrow> cb_holding_reg_wr (mp_user_cb (server_param api)) a v y = (r, z)"
| "mb_step api y (Ev_raw_tx adu r) z \<longleftrightarrow> mp_raw_tx_cb (server_param api) adu y = Some (r, z)"

lemmas server_simps = server_param_def mbs_cbs_def

section \<open>The register file\<close>

record reg_file =
  rf_holding :: "nat \<Rightarrow> u16 option"
  rf_coil :: "nat \<Rightarrow> bool option"
  rf_input :: "u16 list"

fun reg_step :: "reg_file \<Rightarrow> mb_event \<Rightarrow> reg_file \<Rightarrow> bool" where
  "reg_step f Ev_tick g \<longleftrightarrow>
     g = f \<or> g = f\<lparr>rf_input := (rf_input f)[0 := rf_input f ! 0 + 1]\<rparr>"
| "reg_step f (Ev_coil_rd a r x) g \<longleftrightarrow> g = f \<and> bank_read (rf_coil f) 2 a r x"
| "reg_step f (Ev_coil_wr a v r) g \<longleftrightarrow>
     (\<exists>c. g = f\<lparr>rf_coil := c\<rparr> \<and> bank_write (rf_coil f) 2 a v r c)"
| "reg_step f (Ev_input_rd a r x) g \<longleftrightarrow>
     g = f \<and> (if unat a < length (rf_input f) then r = 0 \<and> x = Some (rf_input f ! unat a)
       else r = - ENOTSUP \<and> x = None)"
| "reg_step f (Ev_holding_rd a r x) g \<longleftrightarrow> g = f \<and> bank_read (rf_holding f) 4 a r x"
| "reg_step f (Ev_holding_wr a v r) g \<longleftrightarrow>
     (\<exists>h. g = f\<lparr>rf_holding := h\<rparr> \<and> bank_write (rf_holding f) 4 a v r h)"
| "reg_step f (Ev_raw_tx adu r) g \<longleftrightarrow> g = f"

definition reg_abs :: "('w \<Rightarrow> string \<rightharpoonup> u8 list) \<Rightarrow> 'w mb_sys \<Rightarrow> reg_file" where
  "reg_abs kv y =
     \<lparr>rf_holding = hr_point (kv (sy_w y)) g_holding_keys, rf_coil = co_point (kv (sy_w y)) g_coil_keys,
      rf_input = input_reg (sy_mb y)\<rparr>"

section \<open>The environment and the invariant\<close>

text \<open>
  The parts of the platform do not disturb each other: the serial line leaves the store
  alone, the store and the submission to the server leave the serial line alone.
\<close>

definition stack_ok :: "'w mb_api \<Rightarrow> ('w \<Rightarrow> rs_line) \<Rightarrow> ('w \<Rightarrow> string \<rightharpoonup> u8 list) \<Rightarrow> bool" where
  "stack_ok api line kv \<longleftrightarrow>
     fdb_ok (mb_fdb api) kv \<and> rs_keeps (mb_rs api) kv \<and>
     (\<forall>d n w. kv (snd (uart_tx (mb_rs api) d n w)) = kv w) \<and>
     (\<forall>w. kv (snd (k_sem_take (mb_rs api) w)) = kv w) \<and>
     (\<forall>i a w. kv (snd (modbus_raw_submit_rx api i a w)) = kv w) \<and>
     (\<forall>i a w. line (snd (modbus_raw_submit_rx api i a w)) = line w) \<and>
     (\<forall>key n w. line (snd (snd (fdb_kv_get_blob (mb_fdb api) key n w))) = line w) \<and>
     (\<forall>key d w. line (snd (fdb_kv_set_blob (mb_fdb api) key d w)) = line w)"

lemma stack_okD:
  assumes "stack_ok api line kv"
  shows "fdb_ok (mb_fdb api) kv" and "rs_keeps (mb_rs api) kv"
    and "uart_tx (mb_rs api) d n w = (r, w') \<Longrightarrow> kv w' = kv w"
    and "k_sem_take (mb_rs api) w = (b, w') \<Longrightarrow> kv w' = kv w"
    and "modbus_raw_submit_rx api i a w = (r, w') \<Longrightarrow> kv w' = kv w \<and> line w' = line w"
    and "fdb_kv_get_blob (mb_fdb api) key n w = (l, v, w') \<Longrightarrow> line w' = line w"
    and "fdb_kv_set_blob (mb_fdb api) key v w = (e, w') \<Longrightarrow> line w' = line w"
proof -
  have s: "fdb_ok (mb_fdb api) kv" "rs_keeps (mb_rs api) kv"
    "\<And>d n w. kv (snd (uart_tx (mb_rs api) d n w)) = kv w" "\<And>w. kv (snd (k_sem_take (mb_rs api) w)) = kv w"
    "\<And>i a w. kv (snd (modbus_raw_submit_rx api i a w)) = kv w"
    "\<And>i a w. line (snd (modbus_raw_submit_rx api i a w)) = line w"
    "\<And>key n w. line (snd (snd (fdb_kv_get_blob (mb_fdb api) key n w))) = line w"
    "\<And>key d w. line (snd (fdb_kv_set_blob (mb_fdb api) key d w)) = line w"
    using assms by (simp_all add: stack_ok_def)
  show "fdb_ok (mb_fdb api) kv" and "rs_keeps (mb_rs api) kv" by (fact s)+
  show "uart_tx (mb_rs api) d n w = (r, w') \<Longrightarrow> kv w' = kv w" using s(3) [of d n w] by simp
  show "k_sem_take (mb_rs api) w = (b, w') \<Longrightarrow> kv w' = kv w" using s(4) [of w] by simp
  show "modbus_raw_submit_rx api i a w = (r, w') \<Longrightarrow> kv w' = kv w \<and> line w' = line w"
    using s(5,6) [of i a w] by simp
  show "fdb_kv_get_blob (mb_fdb api) key n w = (l, v, w') \<Longrightarrow> line w' = line w" using s(7) [of key n w] by simp
  show "fdb_kv_set_blob (mb_fdb api) key v w = (e, w') \<Longrightarrow> line w' = line w" using s(8) [of key v w] by simp
qed

definition sys_ok ::
  "'w mb_api \<Rightarrow> ('w \<Rightarrow> rs_line) \<Rightarrow> ('w \<Rightarrow> nat) \<Rightarrow> ('w \<Rightarrow> string \<rightharpoonup> u8 list) \<Rightarrow> 'w mb_sys \<Rightarrow> bool" where
  "sys_ok api line left kv y \<longleftrightarrow>
     rs_ok (mb_rs api) line \<and> arrivals (mb_rs api) line left \<and> stack_ok api line kv \<and>
     mb_inv api (sy_mb y) \<and> g_db_ready (sy_db y) \<and> bus_inv (W_idle 0) (line (sy_w y))"

lemma bus_idle_any: "bus_inv (W_idle q) l \<longleftrightarrow> bus_inv (W_idle 0) l"
  by simp

section \<open>Steps of the RS485 service\<close>

lemma rs_lstep_keeps:
  assumes keeps: "rs_keeps api f" and tx: "\<And>d n w. f (snd (uart_tx api d n w)) = f w"
    and sem: "\<And>w. f (snd (k_sem_take api w)) = f w" and "rs_lstep api (pc, s, w) l (pc', s', w')"
  shows "f w' = f w"
proof -
  note keep = rs_keepsD [OF keeps]
  show ?thesis
    using assms(4)
  proof (cases rule: rs_lstep.cases)
    case (W_start len)
    then show ?thesis using tx by (metis snd_conv)
  next
    case (W_refused len r)
    then show ?thesis using tx by (metis snd_conv)
  next
    case W_blocked
    then show ?thesis using sem by (metis snd_conv)
  next
    case W_wake
    then show ?thesis using sem by (metis snd_conv)
  next
    case (R_get n len d)
    then show ?thesis using keep(7) by simp
  next
    case (R_time now)
    then show ?thesis using keep(8) by simp
  next
    case (Irq ev w1)
    then show ?thesis using on_hw_keeps [OF keeps Irq(4)] keep(9) [OF Irq(3)] by simp
  qed (simp_all add: keep(1,4))
qed

lemma rs_step_keeps:
  assumes "stack_ok api line kv" and "rs_lstep (mb_rs api) (pc, s, w) l (pc', s', w')"
  shows "kv w' = kv w"
  using assms(1) by (intro rs_lstep_keeps [OF _ _ _ assms(2)]) (simp_all add: stack_ok_def)

lemma rs_steps_keep:
  assumes "stack_ok api line kv" and "(rs_step (mb_rs api))\<^sup>*\<^sup>* (pc, s, w) (pc', s', w')"
  shows "kv w' = kv w"
  using assms(2)
proof (induction "(pc', s', w')" arbitrary: pc' s' w' rule: rtranclp_induct)
  case (step c)
  obtain p t v where c: "c = (p, t, v)" by (cases c)
  show ?case using step.hyps(3) [OF c] rs_step_keeps [OF assms(1)] step.hyps(2) c by (metis rs_stepE)
qed simp

lemma read_nowait_reader_run:
  assumes "rs_ok api line" and "unat n < 2 ^ 31" and "rs485_read_nowait api sw n = Some (r, b, sw')"
  shows "reader_run api (pc, fst sw, snd sw) (take (nat r) b) (pc, fst sw', snd sw')"
  using rs485_read_reader_run [OF assms(1,2), of "replicate (unat n) 0" K_NO_WAIT "fst sw" "snd sw" r b "fst sw'" "snd sw'"]
    assms(3) by (simp add: rs485_read_nowait_def)

lemma reader_run_steps: "reader_run api c bs d \<Longrightarrow> (rs_step api)\<^sup>*\<^sup>* c d"
  unfolding reader_run_def by (auto dest: runs_rs_steps)

text \<open>Reading sends nothing.\<close>

lemma reader_keeps_sent:
  assumes ok: "rs_ok api line" and run: "reader_run api (pc, s, w) bs (pc', s', w')"
    and inv: "bus_inv (W_idle 0) (line w)"
  shows "ln_sent (line w') = ln_sent (line w)"
proof -
  let ?P = "\<lambda>c. bus_inv (W_idle 0) (line (snd (snd c))) \<and> ln_sent (line (snd (snd c))) = ln_sent (line w)"
  obtain ls where ls: "runs (rs_lstep api) (pc, s, w) ls (pc', s', w')" "L_writer \<notin> set ls"
    using run by (auto simp: reader_run_def)
  have "?P (pc', s', w')"
  proof (rule runs_keep [OF ls(1), where P = ?P])
    fix c l d
    assume P: "?P c" and l: "l \<in> set ls" and step: "rs_lstep api c l d"
    have "l \<noteq> L_writer" using l ls(2) by auto
    with step show "?P d"
    proof (cases rule: rs_lstep.cases)
      case (R_get n w1 len b w2)
      then show ?thesis using P rs_ok_calls(6) [OF ok R_get(4)] by simp
    next
      case (R_time w1 now w2)
      then show ?thesis using P rs_ok_calls(7) [OF ok R_time(4)] by simp
    next
      case (Irq w1 ev w2 t t' w3)
      have "\<not> ends_tx ev"
        using rs_ok_calls(8) [OF ok Irq(4)] P Irq(1) by (cases ev rule: ends_tx.cases) auto
      then have "same_tx (line w3) (line w1)"
        using on_hw_rx [OF ok _ Irq(5)] irq_line_rx rs_ok_calls(8) [OF ok Irq(4)] by (simp add: same_tx_def)
      then show ?thesis using P Irq(1,3) by (simp add: same_tx_def)
    qed (use P in \<open>simp_all add: rs_ok_pure [OF ok]\<close>)
  qed (use inv in simp)
  then show ?thesis by simp
qed

section \<open>Steps of the service\<close>

lemma poll_keeps:
  assumes ok: "rs_ok (mb_rs api) line" and arr: "arrivals (mb_rs api) line left" and st: "stack_ok api line kv"
    and bus: "bus_inv (W_idle 0) (line (snd sw))" and inv: "mb_inv api m"
    and poll: "modbus_rx_poll api m sw = Some (m', s', w')"
  shows "mb_inv api m' \<and> bus_inv (W_idle 0) (line w') \<and> ln_sent (line w') = ln_sent (line (snd sw)) \<and>
    kv w' = kv (snd sw)"
proof -
  let ?P = "\<lambda>m sw'. mb_inv api m \<and> bus_inv (W_idle 0) (line (snd sw')) \<and>
    ln_sent (line (snd sw')) = ln_sent (line (snd sw)) \<and> kv (snd sw') = kv (snd sw)"
  have rd: "?P m1 t" if "?P m1 u" and r: "rs485_read_nowait (mb_rs api) u MB_POLL_BUF_LEN = Some (k, b, t)"
    for m1 u k b t
  proof -
    have run: "reader_run (mb_rs api) (W_idle 0, fst u, snd u) (take (nat k) b) (W_idle 0, fst t, snd t)"
      using read_nowait_reader_run [OF ok _ r, of "W_idle 0"] by simp
    note steps = reader_run_steps [OF run]
    show ?thesis
      using bus_inv_steps [OF ok steps] rs_steps_keep [OF st steps] reader_keeps_sent [OF ok run] that(1) by metis
  qed
  have body: "(rs_ok (mb_rs api) line \<and> arrivals (mb_rs api) line left) \<and> ?P m2 s2"
    if "?P m1 s1" "0 < k" "nat k \<le> length b" "mb_absorb api m1 k b s1 = (m2, s2)" for m1 k b s1 m2 s2
  proof -
    have "mb_inv api m2" using mb_absorb_inv [of api m1 k b s1] that by simp
    moreover have "line (snd s2) = line (snd s1) \<and> kv (snd s2) = kv (snd s1)"
      using that(4) rs_ok_calls(7) [OF ok] rs_keepsD(8) [OF stack_okD(2) [OF st]]
      by (auto simp: mb_absorb_def Let_def split: if_splits prod.splits)
    ultimately show ?thesis using that(1) ok arr by metis
  qed
  have d: "?P m1 sw1" if "drain (\<lambda>sw. rs485_read_nowait (mb_rs api) sw MB_POLL_BUF_LEN) (mb_absorb api) m sw
      = Some (m1, sw1)" for m1 sw1
  proof -
    have "(rs_ok (mb_rs api) line \<and> arrivals (mb_rs api) line left) \<and> ?P m1 sw1"
    proof (rule rs485.drain_keeps [where P = ?P and body = "mb_absorb api"])
      show "unat MB_POLL_BUF_LEN < 2 ^ 31" by simp
      show "rs_ok (mb_rs api) line \<and> arrivals (mb_rs api) line left" using ok arr ..
      show "?P m sw" using bus inv by simp
      show "drain (\<lambda>sw. rs485_read_nowait (mb_rs api) sw MB_POLL_BUF_LEN) (mb_absorb api) m sw = Some (m1, sw1)"
        by (fact that)
    qed (use rd body in blast)+
    then show ?thesis ..
  qed
  show ?thesis
    using poll
  proof (cases rule: pollE)
    case (submit m1 w1 now w2)
    have up: "line w2 = line w1" "kv w2 = kv w1"
      using rs_ok_calls(7) [OF ok submit(2)] rs_keepsD(8) [OF stack_okD(2) [OF st] submit(2)] by simp_all
    have "mb_inv api m' \<and> line w' = line w2 \<and> kv w' = kv w2"
      using submit(4) d [OF submit(1)] stack_okD(5) [OF st]
      by (auto simp: modbus_submit_frame_def mb_inv_def Let_def split: if_splits prod.splits)
    then show ?thesis using d [OF submit(1)] up by (simp only: snd_conv)
  next
    case (wait w1 now)
    then show ?thesis
      using d [OF wait(1)] rs_ok_calls(7) [OF ok wait(2)] rs_keepsD(8) [OF stack_okD(2) [OF st] wait(2)]
      by (simp only: snd_conv)
  qed
qed

lemma sys_okD:
  assumes "sys_ok api line left kv y"
  shows "rs_ok (mb_rs api) line" and "arrivals (mb_rs api) line left" and "stack_ok api line kv"
    and "mb_inv api (sy_mb y)" and "g_db_ready (sy_db y)" and "bus_inv (W_idle 0) (line (sy_w y))"
  using assms unfolding sys_ok_def by blast+

lemma tick_sim:
  assumes ok: "sys_ok api line left kv y" and step: "mb_step api y Ev_tick z"
  shows "sys_ok api line left kv z \<and> reg_step (reg_abs kv y) Ev_tick (reg_abs kv z) \<and>
    ln_sent (line (sy_w z)) = ln_sent (line (sy_w y))"
proof -
  note s = sys_okD [OF ok]
  obtain y1 where tick: "modbus_service_tick api y = Some y1"
    and z: "z = y1\<lparr>sy_w := k_sleep_ms (mb_rs api) 1 (sy_w y1)\<rparr>" using step by auto
  obtain t w1 m rs w2 where up: "k_uptime_get (mb_rs api) (sy_w y) = (t, w1)"
    and poll: "modbus_rx_poll api (sy_mb y) (sy_rs y, w1) = Some (m, rs, w2)"
    and y1: "sy_w y1 = w2" "sy_db y1 = sy_db y"
    and m1: "sy_mb y1 = (if sint (t - hb_last_ms m) \<ge> 1000
      then m\<lparr>input_reg := (input_reg m)[0 := input_reg m ! 0 + 1], hb_last_ms := t\<rparr> else m)"
    using tickE [OF tick] by metis
  have w1: "line w1 = line (sy_w y)" "kv w1 = kv (sy_w y)"
    using rs_ok_calls(7) [OF s(1) up] rs_keepsD(8) [OF stack_okD(2) [OF s(3)] up] by simp_all
  have p: "mb_inv api m \<and> bus_inv (W_idle 0) (line w2) \<and> ln_sent (line w2) = ln_sent (line w1) \<and> kv w2 = kv w1"
    using poll_keeps [OF s(1-3) _ s(4) poll] s(6) w1 by (simp only: snd_conv)
  have zw: "line (sy_w z) = line w2" "kv (sy_w z) = kv (sy_w y)"
    using rs_ok_pure(6) [OF s(1)] rs_keepsD(4) [OF stack_okD(2) [OF s(3)]] p w1 z y1 by simp_all
  have "mb_inv api (sy_mb z)" using p m1 z by (simp add: mb_inv_def)
  then have "sys_ok api line left kv z"
    using s(1-3,5) p zw z y1 unfolding sys_ok_def by simp
  moreover have "reg_step (reg_abs kv y) Ev_tick (reg_abs kv z)"
    using poll_registers [OF poll] m1 zw(2) z by (simp add: reg_abs_def)
  moreover have "ln_sent (line (sy_w z)) = ln_sent (line (sy_w y))" using zw(1) p w1 by simp
  ultimately show ?thesis by blast
qed

text \<open>The callbacks are the operations of the two banks; they leave the serial line alone.\<close>

definition sys_env :: "'w mb_api \<Rightarrow> ('w \<Rightarrow> string \<rightharpoonup> u8 list) \<Rightarrow> 'w mb_sys \<Rightarrow> 'w db_env" where
  "sys_env api kv y = \<lparr>de_api = mb_fdb api, de_kv = kv, de_db = sy_db y, de_w = sy_w y\<rparr>"

lemma sys_env_inv: "stack_ok api line kv \<Longrightarrow> g_db_ready (sy_db y) \<Longrightarrow> de_inv (sys_env api kv y)"
  by (simp add: de_inv_def sys_env_def stack_ok_def)

lemma reg_abs_env:
  "reg_abs kv y = \<lparr>rf_holding = hr_points (sys_env api kv y), rf_coil = co_points (sys_env api kv y),
     rf_input = input_reg (sy_mb y)\<rparr>"
  by (simp add: reg_abs_def sys_env_def hr_points_def co_points_def)

lemma db_ops_keep:
  assumes "\<And>key n w. f (snd (snd (fdb_kv_get_blob api key n w))) = f w"
    and "\<And>key d w. f (snd (fdb_kv_set_blob api key d w)) = f w"
  shows "modbus_points_db_get_holding api s a nn w = (r, x, w') \<Longrightarrow> f w' = f w"
    and "modbus_points_db_get_coil api s a nn w = (r, b, w') \<Longrightarrow> f w' = f w"
    and "modbus_points_db_set_holding api s a v w = (r, w') \<Longrightarrow> f w' = f w"
    and "modbus_points_db_set_coil api s a c w = (r, w') \<Longrightarrow> f w' = f w"
proof -
  have get: "f w2 = f w1" if "fdb_kv_get_blob api key n w1 = (l, v, w2)" for key n w1 l v w2
    using assms(1) [of key n w1] that by simp
  have set: "f w2 = f w1" if "fdb_kv_set_blob api key d w1 = (e, w2)" for key d w1 e w2
    using assms(2) [of key d w1] that by simp
  show "modbus_points_db_get_holding api s a nn w = (r, x, w') \<Longrightarrow> f w' = f w"
    and "modbus_points_db_get_coil api s a nn w = (r, b, w') \<Longrightarrow> f w' = f w"
    and "modbus_points_db_set_holding api s a v w = (r, w') \<Longrightarrow> f w' = f w"
    and "modbus_points_db_set_coil api s a c w = (r, w') \<Longrightarrow> f w' = f w"
    using get set
    by (auto simp: modbus_points_db_get_holding_def modbus_points_db_get_coil_def
        modbus_points_db_set_holding_def modbus_points_db_set_coil_def Let_def split: if_splits prod.splits)
qed

lemma db_ops_line:
  assumes "stack_ok api line kv"
  shows "modbus_points_db_get_holding (mb_fdb api) s a nn w = (r, x, w') \<Longrightarrow> line w' = line w"
    and "modbus_points_db_get_coil (mb_fdb api) s a nn w = (r, b, w') \<Longrightarrow> line w' = line w"
    and "modbus_points_db_set_holding (mb_fdb api) s a v w = (r, w') \<Longrightarrow> line w' = line w"
    and "modbus_points_db_set_coil (mb_fdb api) s a c w = (r, w') \<Longrightarrow> line w' = line w"
proof -
  have "line (snd (snd (fdb_kv_get_blob (mb_fdb api) key n w))) = line w"
    "line (snd (fdb_kv_set_blob (mb_fdb api) key d w)) = line w" for key n d w
    using assms by (simp_all add: stack_ok_def)
  note keep = db_ops_keep [of line, OF this]
  show "modbus_points_db_get_holding (mb_fdb api) s a nn w = (r, x, w') \<Longrightarrow> line w' = line w"
    and "modbus_points_db_get_coil (mb_fdb api) s a nn w = (r, b, w') \<Longrightarrow> line w' = line w"
    and "modbus_points_db_set_holding (mb_fdb api) s a v w = (r, w') \<Longrightarrow> line w' = line w"
    and "modbus_points_db_set_coil (mb_fdb api) s a c w = (r, w') \<Longrightarrow> line w' = line w"
    by (fact keep)+
qed

text \<open>What every callback on the point database does to the system.\<close>

lemma callbackE:
  shows "coil_rd api a y = (r, x, z) \<Longrightarrow> \<exists>w. modbus_points_db_get_coil (mb_fdb api) (sy_db y) a True (sy_w y) = (r, x, w) \<and>
      z = y\<lparr>sy_w := w\<rparr>"
    and "holding_reg_rd api a y = (r, v, z) \<Longrightarrow>
      \<exists>w. modbus_points_db_get_holding (mb_fdb api) (sy_db y) a True (sy_w y) = (r, v, w) \<and> z = y\<lparr>sy_w := w\<rparr>"
    and "coil_wr api a c y = (r, z) \<Longrightarrow>
      \<exists>w. modbus_points_db_set_coil (mb_fdb api) (sy_db y) a c (sy_w y) = (r, w) \<and> z = y\<lparr>sy_w := w\<rparr>"
    and "holding_reg_wr api a h y = (r, z) \<Longrightarrow>
      \<exists>w. modbus_points_db_set_holding (mb_fdb api) (sy_db y) a h (sy_w y) = (r, w) \<and> z = y\<lparr>sy_w := w\<rparr>"
  by (auto simp: coil_rd_def holding_reg_rd_def coil_wr_def holding_reg_wr_def split: prod.splits)

text \<open>A register callback works on the store alone and does what the register file asks.\<close>

fun reg_call :: "mb_event \<Rightarrow> bool" where
  "reg_call Ev_tick = False"
| "reg_call (Ev_raw_tx adu r) = False"
| "reg_call e = True"

lemma callback_regs:
  assumes st: "stack_ok api line kv" and ready: "g_db_ready (sy_db y)" and len: "length (input_reg (sy_mb y)) = 4"
    and step: "mb_step api y e z" and "reg_call e"
  shows "(\<exists>w. z = y\<lparr>sy_w := w\<rparr> \<and> line w = line (sy_w y)) \<and> reg_step (reg_abs kv y) e (reg_abs kv z)"
proof -
  note inv = sys_env_inv [OF st ready]
  note env = reg_abs_env [where api = api]
  let ?E = "sys_env api kv"
  show ?thesis
  proof (cases e)
    case e: (Ev_coil_rd a r x)
    obtain w where g: "modbus_points_db_get_coil (mb_fdb api) (sy_db y) a True (sy_w y) = (r, x, w)"
      and z: "z = y\<lparr>sy_w := w\<rparr>" using callbackE(1) step e by (fastforce simp: server_simps)
    have "co_get (?E y) a = (r, x, ?E z)" using g z by (simp add: co_get_def sys_env_def)
    moreover have "hr_points (?E z) = hr_points (?E y)"
      using get_coil_kv [OF stack_okD(1) [OF st] g] z by (simp add: hr_points_def sys_env_def)
    ultimately show ?thesis
      using coil.get_refines_read [OF inv] db_ops_line(2) [OF st g] z e by (auto simp: env)
  next
    case e: (Ev_holding_rd a r v)
    obtain w where g: "modbus_points_db_get_holding (mb_fdb api) (sy_db y) a True (sy_w y) = (r, v, w)"
      and z: "z = y\<lparr>sy_w := w\<rparr>" using callbackE(2) step e by (fastforce simp: server_simps)
    have "hr_get (?E y) a = (r, v, ?E z)" using g z by (simp add: hr_get_def sys_env_def)
    moreover have "co_points (?E z) = co_points (?E y)"
      using get_holding_kv [OF stack_okD(1) [OF st] g] z by (simp add: co_points_def sys_env_def)
    ultimately show ?thesis
      using holding.get_refines_read [OF inv] db_ops_line(1) [OF st g] z e by (auto simp: env)
  next
    case e: (Ev_coil_wr a c r)
    obtain w where g: "modbus_points_db_set_coil (mb_fdb api) (sy_db y) a c (sy_w y) = (r, w)"
      and z: "z = y\<lparr>sy_w := w\<rparr>" using callbackE(3) step e by (fastforce simp: server_simps)
    have "co_put (?E y) a c = (r, ?E z)" using g z by (simp add: co_put_def sys_env_def)
    moreover have "hr_points (?E z) = hr_points (?E y)"
      using set_coil_hr [OF stack_okD(1) [OF st] ready g] z by (simp add: hr_points_def sys_env_def)
    ultimately show ?thesis
      using coil.put_refines_write [OF inv] db_ops_line(4) [OF st g] z e by (auto simp: env)
  next
    case e: (Ev_holding_wr a h r)
    obtain w where g: "modbus_points_db_set_holding (mb_fdb api) (sy_db y) a h (sy_w y) = (r, w)"
      and z: "z = y\<lparr>sy_w := w\<rparr>" using callbackE(4) step e by (fastforce simp: server_simps)
    have "hr_put (?E y) a h = (r, ?E z)" using g z by (simp add: hr_put_def sys_env_def)
    moreover have "co_points (?E z) = co_points (?E y)"
      using set_holding_co [OF stack_okD(1) [OF st] ready g] z by (simp add: co_points_def sys_env_def)
    ultimately show ?thesis
      using holding.put_refines_write [OF inv] db_ops_line(3) [OF st g] z e by (auto simp: env)
  next
    case e: (Ev_input_rd a r x)
    have "input_reg_rd a y = (r, x, z)" using step e by (simp add: server_simps)
    then have "z = y" "reg_step (reg_abs kv y) e (reg_abs kv z)"
      using len e by (auto simp: input_reg_rd_def reg_abs_def word_le_nat_alt split: if_splits)
    then show ?thesis by (auto intro: exI [of _ "sy_w y"])
  qed (use \<open>reg_call e\<close> in simp_all)
qed

lemma callback_sim:
  assumes ok: "sys_ok api line left kv y" and step: "mb_step api y e z" and e: "reg_call e"
  shows "sys_ok api line left kv z \<and> reg_step (reg_abs kv y) e (reg_abs kv z)"
proof -
  have "length (input_reg (sy_mb y)) = 4" using sys_okD(4) [OF ok] by (simp add: mb_inv_def)
  from callback_regs [OF sys_okD(3,5) [OF ok] this step e] show ?thesis
    using ok by (auto simp: sys_ok_def)
qed

lemma raw_tx_sim:
  assumes ok: "sys_ok api line left kv y" and step: "mb_step api y (Ev_raw_tx adu r) z"
  shows "sys_ok api line left kv z \<and> reg_step (reg_abs kv y) (Ev_raw_tx adu r) (reg_abs kv z)"
proof (cases "z = y")
  case False
  have tx: "modbus_raw_tx_cb api adu y = Some (r, z)" using step by (simp add: server_simps)
  then obtain a rs w where wr: "rs485_write (mb_rs api) (mb_frame api a) (of_nat (unat (adu_length a) + 4))
      (sy_rs y) (sy_w y) = Some (r, rs, w)" and z: "z = y\<lparr>sy_rs := rs, sy_w := w\<rparr>"
    using False by (auto simp: modbus_raw_tx_cb_def split: option.splits if_splits)
  note steps = rs485_write_steps [OF wr, of 0]
  have "bus_inv (W_idle 0) (line w)"
    using bus_inv_steps [OF sys_okD(1) [OF ok] steps sys_okD(6) [OF ok]] by simp
  moreover have "kv w = kv (sy_w y)" using rs_steps_keep [OF sys_okD(3) [OF ok] steps] .
  ultimately show ?thesis using ok z by (simp add: sys_ok_def reg_abs_def)
qed (use ok in simp)

interpretation service: trace_refinement "mb_step api" reg_step "reg_abs kv" "sys_ok api line left kv"
  for api :: "'w mb_api" and kv line left
proof
  fix c e d
  assume ok: "sys_ok api line left kv c" and step: "mb_step api c e d"
  have "sys_ok api line left kv d \<and> reg_step (reg_abs kv c) e (reg_abs kv d)"
    using tick_sim [OF ok] callback_sim [OF ok step] raw_tx_sim [OF ok] step by (cases e) auto
  then show "sys_ok api line left kv d" and "reg_step (reg_abs kv c) e (reg_abs kv d)" by blast+
qed

section \<open>Properties\<close>

lemma init_sys_ok:
  assumes "rs_ok (mb_rs api) line" and "arrivals (mb_rs api) line left" and "stack_ok api line kv"
    and "init_keeps_line api line" and "ln_tx (line (sy_w y0)) = None" and "mb_inv api (sy_mb y0)"
    and "modbus_service_init api y0 = (0, y)"
  shows "sys_ok api line left kv y"
  using modbus_init_ready [OF assms(1,4-7)] assms(1-3) unfolding sys_ok_def by blast

text \<open>
  From a successful initialisation on, whatever calls the main loop and the Modbus
  server make and in whatever order: the frame buffer and the input registers keep their
  bounds, the point database stays ready, and after every call the bus is released, with
  nothing being sent and no stale completion pending.
\<close>

lemma modbus_system_invariant:
  assumes "rs_ok (mb_rs api) line" and "arrivals (mb_rs api) line left" and "stack_ok api line kv"
    and "init_keeps_line api line" and "ln_tx (line (sy_w y0)) = None" and "mb_inv api (sy_mb y0)"
    and "modbus_service_init api y0 = (0, y)" and "runs (mb_step api) y es z"
  shows "mb_inv api (sy_mb z) \<and> g_db_ready (sy_db z) \<and> \<not> ln_de (line (sy_w z)) \<and>
    ln_tx (line (sy_w z)) = None \<and> ln_sem (line (sy_w z)) = 0"
  using sys_okD(4-6) [OF service.runs_inv [OF assms(8) init_sys_ok [OF assms(1-7)]]] by simp

text \<open>
  To its clients the service is a register file: every sequence of calls, with the
  results they returned, is a run of four holding registers, two coils and the input
  registers, in which reads return the stored value, a successful write sets its own
  register only, a failed write can affect only its own register, and only the heartbeat
  register changes by itself, by one.
\<close>

lemma modbus_refines_register_file:
  assumes "rs_ok (mb_rs api) line" and "arrivals (mb_rs api) line left" and "stack_ok api line kv"
    and "init_keeps_line api line" and "ln_tx (line (sy_w y0)) = None" and "mb_inv api (sy_mb y0)"
    and "modbus_service_init api y0 = (0, y)" and "runs (mb_step api) y es z"
  shows "runs reg_step (reg_abs kv y) es (reg_abs kv z)"
  by (rule service.runs_sim [OF assms(8) init_sys_ok [OF assms(1-7)]])

lemma reg_step_holding:
  assumes "reg_step f e g" and "\<And>v r. e \<noteq> Ev_holding_wr a v r"
  shows "rf_holding g (unat a) = rf_holding f (unat a)"
proof (cases e)
  case (Ev_holding_wr b v r)
  then have "unat a \<noteq> unat b" using assms(2) by (metis word_unat_eq_iff)
  then show ?thesis using assms(1) Ev_holding_wr by (auto simp: bank_write_def split: if_splits)
qed (use assms(1) in auto)

lemma reg_step_coil:
  assumes "reg_step f e g" and "\<And>v r. e \<noteq> Ev_coil_wr a v r"
  shows "rf_coil g (unat a) = rf_coil f (unat a)"
proof (cases e)
  case (Ev_coil_wr b v r)
  then have "unat a \<noteq> unat b" using assms(2) by (metis word_unat_eq_iff)
  then show ?thesis using assms(1) Ev_coil_wr by (auto simp: bank_write_def split: if_splits)
qed (use assms(1) in auto)

section \<open>Witnesses\<close>

abbreviation (input) sim_kv :: "mb_sim \<Rightarrow> string \<rightharpoonup> u8 list" where "sim_kv \<equiv> map_of \<circ> (fst \<circ> snd)"

lemma sim_stack_ok: "stack_ok sim_mb sim_line sim_kv"
proof -
  have k: "rs_keeps (mb_rs sim_mb) sim_kv"
    using lift_keeps [of sim_rs "map_of \<circ> fst"] by (simp add: sim_mb_rs comp_assoc)
  have "sim_kv (snd (uart_tx (mb_rs sim_mb) d n w)) = sim_kv w"
    "sim_kv (snd (k_sem_take (mb_rs sim_mb) w)) = sim_kv w" for d n w
    by (simp_all add: sim_mb_rs lift_rs_def apsnd_def map_prod_def split: prod.split)
  then show ?thesis using k sim_mb_fdb_ok by (auto simp: stack_ok_def sim_mb_def split: prod.split)
qed

lemma sim_y_ready: "ln_tx (sim_line (sy_w sim_y)) = None" "mb_inv sim_mb (sy_mb sim_y)"
  using sim_m_inv [of "[]"] by (simp_all add: sim_y_def sim_up_def idle_line_def)

lemmas sim_platform = sim_mb_ok(1,2) sim_stack_ok sim_init_keeps sim_y_ready

lemma sim_kv_init:
  "modbus_service_init sim_mb sim_y = (0, y) \<Longrightarrow> fst (snd (sy_w y)) = g_default_nodes \<and> g_db_ready (sy_db y)"
  by (auto simp: modbus_service_init_def sim_mb_def sim_y_def modbus_points_db_init_def
      rs485_init_def lift_rs_def sim_rs_def Let_def)

lemma sim_write:
  assumes "g_db_ready (sy_db y)"
  shows "\<exists>z. mb_step sim_mb y (Ev_holding_wr 2 v 0) z \<and> fst (snd (sy_w z)) = (''hr2'', le16_bytes v) # fst (snd (sy_w y))"
proof -
  obtain l kv x where w: "sy_w y = (l, kv, x)" by (cases "sy_w y")
  show ?thesis
    using assms
    by (simp add: server_simps holding_reg_wr_def modbus_points_db_set_holding_def sim_mb_def w
        g_holding_keys_def fdb_to_errno_def)
qed

lemma sim_tick: "\<exists>z. mb_step sim_mb y Ev_tick z"
  using tick_returns [OF sim_mb_ok(1,2), of y] by auto

lemma sim_run:
  obtains y y1 z where "modbus_service_init sim_mb sim_y = (0, y)" "mb_step sim_mb y (Ev_holding_wr 2 0xBEEF 0) y1"
    "mb_step sim_mb y1 Ev_tick z"
proof -
  obtain y where y: "modbus_service_init sim_mb sim_y = (0, y)" using sim_service_init by blast
  obtain y1 where "mb_step sim_mb y (Ev_holding_wr 2 0xBEEF 0) y1" using sim_write sim_kv_init [OF y] by blast
  moreover obtain z where "mb_step sim_mb y1 Ev_tick z" using sim_tick by blast
  ultimately show thesis using that y by blast
qed

lemma modbus_system_invariant_witness:
  "\<exists>y z. modbus_service_init sim_mb sim_y = (0, y) \<and>
    runs (mb_step sim_mb) y [Ev_holding_wr 2 0xBEEF 0, Ev_tick] z \<and> \<not> ln_de (sm_line (fst (sy_w z)))"
proof -
  obtain y y1 z where init: "modbus_service_init sim_mb sim_y = (0, y)"
    and s: "mb_step sim_mb y (Ev_holding_wr 2 0xBEEF 0) y1" "mb_step sim_mb y1 Ev_tick z" by (rule sim_run)
  have run: "runs (mb_step sim_mb) y [Ev_holding_wr 2 0xBEEF 0, Ev_tick] z"
    using s by (blast intro: runs.intros)
  have "\<not> ln_de (sim_line (sy_w z))" using modbus_system_invariant [OF sim_platform init run] by blast
  then show ?thesis using init run by auto
qed

lemma modbus_refines_register_file_witness:
  "\<exists>y z. modbus_service_init sim_mb sim_y = (0, y) \<and>
    runs reg_step (reg_abs sim_kv y) [Ev_holding_wr 2 0xBEEF 0, Ev_tick] (reg_abs sim_kv z) \<and>
    rf_holding (reg_abs sim_kv z) 2 = Some 0xBEEF"
proof -
  obtain y y1 z where init: "modbus_service_init sim_mb sim_y = (0, y)"
    and s: "mb_step sim_mb y (Ev_holding_wr 2 0xBEEF 0) y1" "mb_step sim_mb y1 Ev_tick z" by (rule sim_run)
  have run: "runs (mb_step sim_mb) y [Ev_holding_wr 2 0xBEEF 0, Ev_tick] z"
    using s by (blast intro: runs.intros)
  have ref: "runs reg_step (reg_abs sim_kv y) [Ev_holding_wr 2 0xBEEF 0, Ev_tick] (reg_abs sim_kv z)"
    by (rule modbus_refines_register_file [OF sim_platform init run])
  then have "rf_holding (reg_abs sim_kv z) 2 = Some 0xBEEF"
    by (auto simp: runs_Cons_iff bank_write_def)
  then show ?thesis using init ref by blast
qed

end
