(* ===== verification/ModbusThreads.thy ===== *)
theory ModbusThreads
  imports ModbusSystem
begin

text \<open>
  The controller as it runs: the main thread in the middle of its periodic task, the Modbus
  server on the system work queue, which may preempt it between any two calls or wait in
  \<^verbatim>\<open>rs485_write\<close> while the main thread goes on, and the hardware. \<open>sys_step\<close> interleaves the
  three; a step of a thread makes one call of the platform at most, or is one callback on the
  point database, which only the server uses. \<open>ModbusSystem\<close> has the same code with a call as one
  step; its calls are runs of this relation (\<open>call_thread_run\<close>, \<open>calls_run\<close>), so that every
  property of all interleavings holds of them too.
\<close>

section \<open>Two threads and the hardware\<close>

text \<open>
  Where the main thread is: before \<^verbatim>\<open>modbus_service_tick\<close>; with the time read, before a call
  of \<^verbatim>\<open>rs485_read\<close>; in its loop, with the local buffer and the number of bytes in it; back with
  that number as the result; after the polling loop; about to submit the frame; before the
  heartbeat; before the sleep of the main loop. The writer's part is that of \<open>rs_lstep\<close>.
\<close>

datatype main_pc =
    M_top
  | M_poll s64
  | M_read s64 "u8 list" usize
  | M_got s64 "u8 list" usize
  | M_drained s64
  | M_submit s64
  | M_beat s64
  | M_sleep

type_synonym 'w sys_conf = "main_pc \<times> write_pc \<times> 'w mb_sys"

text \<open>
  Who made the step: the main thread, the main thread with a heartbeat, the main thread with
  the sleep that ends a round, the server with a completed call, the server with the copy of a frame to be sent, the server on its way
  through \<^verbatim>\<open>rs485_write\<close>, or the hardware.
\<close>

datatype sys_label =
    T_main
  | T_beat
  | T_sleep
  | T_call mb_event
  | T_send modbus_adu
  | T_tx
  | T_hw hw_event

abbreviation (input) frame_len :: "modbus_adu \<Rightarrow> usize" where
  "frame_len a \<equiv> of_nat (unat (adu_length a) + 4)"

inductive sys_step :: "'w mb_api \<Rightarrow> 'w sys_conf \<Rightarrow> sys_label \<Rightarrow> 'w sys_conf \<Rightarrow> bool" for api where
  S_time: "k_uptime_get (mb_rs api) (sy_w y) = (now, w) \<Longrightarrow>
    sys_step api (M_top, p, y) T_main (M_poll now, p, y\<lparr>sy_w := w\<rparr>)"
| S_poll: "k_uptime_get (mb_rs api) (sy_w y) = (t, w) \<Longrightarrow>
    sys_step api (M_poll now, p, y) T_main
      (M_read now (replicate (unat MB_POLL_BUF_LEN) 0) 0, p, y\<lparr>sy_w := w\<rparr>)"
| S_get: "tot < MB_POLL_BUF_LEN \<Longrightarrow>
    ring_buf_get (mb_rs api) (MB_POLL_BUF_LEN - tot) (sy_w y) = (len, d, w) \<Longrightarrow> 0 < len \<Longrightarrow>
    sys_step api (M_read now tmp tot, p, y) T_main
      (M_read now (mem_write tmp (unat tot) d) (tot + len), p, y\<lparr>sy_w := w\<rparr>)"
| S_empty: "tot < MB_POLL_BUF_LEN \<Longrightarrow>
    ring_buf_get (mb_rs api) (MB_POLL_BUF_LEN - tot) (sy_w y) = (0, d, w) \<Longrightarrow>
    sys_step api (M_read now tmp tot, p, y) T_main (M_got now tmp tot, p, y\<lparr>sy_w := w\<rparr>)"
| S_full: "\<not> tot < MB_POLL_BUF_LEN \<Longrightarrow>
    sys_step api (M_read now tmp tot, p, y) T_main (M_got now tmp tot, p, y)"
| S_store: "0 < sint tot \<Longrightarrow> mb_absorb api (sy_mb y) (sint tot) tmp (sy_rs y, sy_w y) = (m, rs, w) \<Longrightarrow>
    sys_step api (M_got now tmp tot, p, y) T_main (M_poll now, p, y\<lparr>sy_mb := m, sy_rs := rs, sy_w := w\<rparr>)"
| S_none: "\<not> 0 < sint tot \<Longrightarrow> sys_step api (M_got now tmp tot, p, y) T_main (M_drained now, p, y)"
| S_due: "k_uptime_get (mb_rs api) (sy_w y) = (t, w) \<Longrightarrow>
    4 \<le> mb_rx_len (sy_mb y) \<and> sint (t - mb_last_rx_ms (sy_mb y)) \<ge> MB_FRAME_GAP_MS \<Longrightarrow>
    sys_step api (M_drained now, p, y) T_main (M_submit now, p, y\<lparr>sy_w := w\<rparr>)"
| S_wait: "k_uptime_get (mb_rs api) (sy_w y) = (t, w) \<Longrightarrow>
    \<not> (4 \<le> mb_rx_len (sy_mb y) \<and> sint (t - mb_last_rx_ms (sy_mb y)) \<ge> MB_FRAME_GAP_MS) \<Longrightarrow>
    sys_step api (M_drained now, p, y) T_main (M_beat now, p, y\<lparr>sy_w := w\<rparr>)"
| S_submit: "modbus_submit_frame api (sy_mb y) (sy_w y) = (m, w) \<Longrightarrow>
    sys_step api (M_submit now, p, y) T_main (M_beat now, p, y\<lparr>sy_mb := m, sy_w := w\<rparr>)"
| S_beat: "sy_mb y = m \<Longrightarrow> sint (now - hb_last_ms m) \<ge> 1000 \<Longrightarrow>
    sys_step api (M_beat now, p, y) T_beat
      (M_sleep, p, y\<lparr>sy_mb := m\<lparr>input_reg := (input_reg m)[0 := input_reg m ! 0 + 1], hb_last_ms := now\<rparr>\<rparr>)"
| S_still: "\<not> sint (now - hb_last_ms (sy_mb y)) \<ge> 1000 \<Longrightarrow>
    sys_step api (M_beat now, p, y) T_main (M_sleep, p, y)"
| S_sleep: "sys_step api (M_sleep, p, y) T_sleep
      (M_top, p, y\<lparr>sy_w := k_sleep_ms (mb_rs api) 1 (sy_w y)\<rparr>)"
| S_call: "reg_call e \<Longrightarrow> mb_step api y e z \<Longrightarrow>
    sys_step api (pc, W_idle r, y) (T_call e) (pc, W_idle r, z)"
| S_tx_null: "sys_step api (pc, W_idle r, y) (T_call (Ev_raw_tx None (- EINVAL))) (pc, W_idle r, y)"
| S_tx_long: "MB_FRAME_MAX_LEN api - 4 < unat (adu_length a) \<Longrightarrow>
    sys_step api (pc, W_idle r, y) (T_call (Ev_raw_tx (Some a) (- EMSGSIZE))) (pc, W_idle r, y)"
| S_tx_reject: "unat (adu_length a) \<le> MB_FRAME_MAX_LEN api - 4 \<Longrightarrow> of_nat TX_BUF_SIZE < frame_len a \<Longrightarrow>
    sys_step api (pc, W_idle r, y) (T_call (Ev_raw_tx (Some a) (- EINVAL))) (pc, W_idle r, y)"
| S_tx_copy: "unat (adu_length a) \<le> MB_FRAME_MAX_LEN api - 4 \<Longrightarrow> frame_len a \<le> of_nat TX_BUF_SIZE \<Longrightarrow>
    rs = (sy_rs y)\<lparr>tx_buf := mem_write (tx_buf (sy_rs y)) 0 (take (unat (frame_len a)) (mb_frame api a))\<rparr> \<Longrightarrow>
    sys_step api (pc, W_idle r, y) (T_send a) (pc, W_copied (frame_len a), y\<lparr>sy_rs := rs\<rparr>)"
| S_tx: "\<forall>r. p \<noteq> W_idle r \<Longrightarrow> rs_lstep (mb_rs api) (p, sy_rs y, sy_w y) L_writer (p', rs, w) \<Longrightarrow>
    sys_step api (pc, p, y) T_tx (pc, p', y\<lparr>sy_rs := rs, sy_w := w\<rparr>)"
| S_hw: "rs_lstep (mb_rs api) (p, sy_rs y, sy_w y) (L_hw ev) (p', rs, w) \<Longrightarrow>
    sys_step api (pc, p, y) (T_hw ev) (pc, p', y\<lparr>sy_rs := rs, sy_w := w\<rparr>)"

section \<open>The invariant\<close>

fun main_ok :: "main_pc \<Rightarrow> bool" where
  "main_ok (M_read now tmp tot) = (length tmp = unat MB_POLL_BUF_LEN \<and> unat tot \<le> unat MB_POLL_BUF_LEN)"
| "main_ok (M_got now tmp tot) = (length tmp = unat MB_POLL_BUF_LEN \<and> unat tot \<le> unat MB_POLL_BUF_LEN)"
| "main_ok _ = True"

definition thr_ok ::
  "'w mb_api \<Rightarrow> ('w \<Rightarrow> rs_line) \<Rightarrow> ('w \<Rightarrow> string \<rightharpoonup> u8 list) \<Rightarrow> 'w sys_conf \<Rightarrow> bool" where
  "thr_ok api line kv c \<longleftrightarrow> rs_ok (mb_rs api) line \<and> stack_ok api line kv \<and>
     (case c of (pc, p, y) \<Rightarrow> main_ok pc \<and> mb_inv api (sy_mb y) \<and> g_db_ready (sy_db y) \<and>
        bus_inv p (line (sy_w y)))"

lemma thr_okD:
  assumes "thr_ok api line kv (pc, p, y)"
  shows "rs_ok (mb_rs api) line" and "stack_ok api line kv" and "main_ok pc" and "mb_inv api (sy_mb y)"
    and "g_db_ready (sy_db y)" and "bus_inv p (line (sy_w y))"
  using assms by (simp_all add: thr_ok_def)

text \<open>The serial side of a configuration.\<close>

definition serial_part :: "'w sys_conf \<Rightarrow> write_pc \<times> rs_state \<times> 'w" where
  "serial_part c = (case c of (pc, p, y) \<Rightarrow> (p, sy_rs y, sy_w y))"

text \<open>What the main thread does to the state it shares with the others.\<close>

fun main_label :: "sys_label \<Rightarrow> bool" where
  "main_label T_main = True"
| "main_label T_beat = True"
| "main_label T_sleep = True"
| "main_label _ = False"

lemma submit_keeps:
  assumes "stack_ok api line kv" and "modbus_submit_frame api m w = (m', w')"
  shows "m' = m\<lparr>mb_rx_len := 0\<rparr> \<and> line w' = line w \<and> kv w' = kv w"
  using assms(2) stack_okD(5) [OF assms(1)]
  by (auto simp: modbus_submit_frame_def Let_def split: if_splits prod.splits)

lemma absorb_keeps:
  assumes ok: "rs_ok (mb_rs api) line" and st: "stack_ok api line kv"
    and run: "mb_absorb api m rd tmp (s, w) = (m', s', w')"
  shows "s' = s \<and> line w' = line w \<and> kv w' = kv w \<and> input_reg m' = input_reg m"
  using run rs_ok_calls(7) [OF ok] rs_keepsD(8) [OF stack_okD(2) [OF st]]
  by (auto simp: mb_absorb_def Let_def split: if_splits prod.splits)

lemma main_step:
  assumes ok: "thr_ok api line kv (pc, p, y)" and step: "sys_step api (pc, p, y) l (pc', p', z)"
    and l: "main_label l"
  shows "p' = p \<and> sy_rs z = sy_rs y \<and> sy_db z = sy_db y \<and> kv (sy_w z) = kv (sy_w y) \<and>
    (\<exists>r. line (sy_w z) = (line (sy_w y))\<lparr>ln_ring := r\<rparr>) \<and> main_ok pc' \<and> mb_inv api (sy_mb z) \<and>
    input_reg (sy_mb z) = (if l = T_beat then (input_reg (sy_mb y))[0 := input_reg (sy_mb y) ! 0 + 1]
      else input_reg (sy_mb y))"
proof -
  note t = thr_okD [OF ok]
  have same: "\<exists>r. u = u\<lparr>ln_ring := r\<rparr>" for u :: rs_line by (rule exI [of _ "ln_ring u"]) simp
  have up: "line w = line u \<and> kv w = kv u" if "k_uptime_get (mb_rs api) u = (now, w)" for u now w
    using rs_ok_calls(7) [OF t(1) that] rs_keepsD(8) [OF stack_okD(2) [OF t(2)] that] by simp
  have get: "(\<exists>r. line w = (line u)\<lparr>ln_ring := r\<rparr>) \<and> kv w = kv u"
    if "ring_buf_get (mb_rs api) n u = (len, d, w)" for n u len d w
    using rs_ok_calls(6) [OF t(1) that] rs_keepsD(7) [OF stack_okD(2) [OF t(2)] that] by auto
  show ?thesis
    using step
  proof (cases rule: sys_step.cases)
    case (S_time now w)
    then show ?thesis using up t(4) same by simp
  next
    case (S_poll t w now)
    then show ?thesis using up t(4) same by simp
  next
    case (S_get tot len d w now tmp)
    have "unat (tot + len) = unat tot + length d \<and> unat tot + length d \<le> 64"
      using ring_get_word [OF t(1) S_get(7,6)] by simp
    then show ?thesis using S_get get [OF S_get(7)] t(3,4) by simp
  next
    case (S_empty tot d w now tmp)
    then show ?thesis using get [OF S_empty(7)] t(3,4) by simp
  next
    case (S_store tot tmp m rs w now)
    have len: "nat (sint tot) \<le> length tmp" using t(3) S_store(1,6) by (simp add: sint_unat_small)
    show ?thesis
      using S_store absorb_keeps [OF t(1,2) S_store(7)] mb_absorb_inv [OF t(4) len, of "(sy_rs y, sy_w y)"] same by simp
  next
    case (S_due t w now)
    then show ?thesis using up t(4) same by simp
  next
    case (S_wait t w now)
    then show ?thesis using up t(4) same by simp
  next
    case (S_submit m w now)
    then show ?thesis using submit_keeps [OF t(2) S_submit(6)] t(4) same by (simp add: mb_inv_def)
  next
    case (S_beat m now)
    then show ?thesis using t(4) same by (simp add: mb_inv_def)
  next
    case S_sleep
    then show ?thesis
      using rs_ok_pure(6) [OF t(1)] rs_keepsD(4) [OF stack_okD(2) [OF t(2)]] t(4) same by simp
  qed (use l t(3,4) same in simp_all)
qed

lemma bus_inv_ring [simp]: "bus_inv p (l\<lparr>ln_ring := r\<rparr>) = bus_inv p l"
  by (cases p) simp_all

section \<open>Refinement of the register file\<close>

fun reg_lstep :: "reg_file \<Rightarrow> sys_label \<Rightarrow> reg_file \<Rightarrow> bool" where
  "reg_lstep f T_beat g = (g = f\<lparr>rf_input := (rf_input f)[0 := rf_input f ! 0 + 1]\<rparr>)"
| "reg_lstep f (T_call e) g = reg_step f e g"
| "reg_lstep f l g = (g = f)"

definition conf_regs :: "('w \<Rightarrow> string \<rightharpoonup> u8 list) \<Rightarrow> 'w sys_conf \<Rightarrow> reg_file" where
  "conf_regs kv c = reg_abs kv (snd (snd c))"

text \<open>A step of the writer or of the hardware changes the serial side only.\<close>

lemma line_step:
  assumes ok: "thr_ok api line kv (pc, p, y)" and step: "rs_lstep (mb_rs api) (p, sy_rs y, sy_w y) l (p', rs, w)"
  shows "thr_ok api line kv (pc, p', y\<lparr>sy_rs := rs, sy_w := w\<rparr>) \<and> kv w = kv (sy_w y)"
  using bus_inv_step [OF thr_okD(1) [OF ok] step thr_okD(6) [OF ok]] rs_step_keeps [OF thr_okD(2) [OF ok] step] ok
  by (simp add: thr_ok_def)

lemma thr_step:
  assumes ok: "thr_ok api line kv (pc, p, y)" and step: "sys_step api (pc, p, y) l (pc', p', z)"
  shows "thr_ok api line kv (pc', p', z) \<and> reg_lstep (reg_abs kv y) l (reg_abs kv z)"
proof (cases "main_label l")
  case True
  have "reg_lstep (reg_abs kv y) l (reg_abs kv z)"
    using main_step [OF ok step True] True by (cases l) (simp_all add: reg_abs_def)
  then show ?thesis using main_step [OF ok step True] ok by (auto simp: thr_ok_def)
next
  case False
  note t = thr_okD [OF ok]
  have len: "length (input_reg (sy_mb y)) = 4" using t(4) by (simp add: mb_inv_def)
  show ?thesis
    using step
  proof (cases rule: sys_step.cases)
    case (S_call e r)
    from callback_regs [OF t(2,5) len S_call(6,5)] S_call ok show ?thesis by (auto simp: thr_ok_def)
  next
    case (S_tx_copy a rs r)
    then show ?thesis using ok by (simp add: thr_ok_def reg_abs_def)
  next
    case (S_tx rs w)
    then show ?thesis using line_step [OF ok S_tx(5)] by (simp add: reg_abs_def)
  next
    case (S_hw ev rs w)
    then show ?thesis using line_step [OF ok S_hw(4)] by (simp add: reg_abs_def)
  qed (use ok False in simp_all)
qed

interpretation threads: trace_refinement "sys_step api" reg_lstep "conf_regs kv" "thr_ok api line kv"
  for api :: "'w mb_api" and kv line
  by unfold_locales (auto simp: conf_regs_def dest: thr_step)

section \<open>Calls are runs\<close>

text \<open>The order in which a state is updated does not matter.\<close>

lemma sys_mb_first:
  "y\<lparr>sy_rs := s, sy_mb := m, sy_w := w\<rparr> = y\<lparr>sy_mb := m, sy_rs := s, sy_w := w\<rparr>"
  "y\<lparr>sy_rs := s, sy_w := w, sy_mb := m\<rparr> = y\<lparr>sy_mb := m, sy_rs := s, sy_w := w\<rparr>"
  by simp_all

text \<open>Runs of one thread and the hardware.\<close>

definition thread_run ::
  "'w mb_api \<Rightarrow> (sys_label \<Rightarrow> bool) \<Rightarrow> 'w sys_conf \<Rightarrow> 'w sys_conf \<Rightarrow> bool" where
  "thread_run api P c d \<longleftrightarrow> (\<exists>ls. runs (sys_step api) c ls d \<and> (\<forall>l \<in> set ls. P l \<or> (\<exists>ev. l = T_hw ev)))"

lemma thread_run_refl [simp]: "thread_run api P c c"
  unfolding thread_run_def by (rule exI [of _ "[]"]) simp

lemma thread_run_step: "sys_step api c l d \<Longrightarrow> P l \<or> (\<exists>ev. l = T_hw ev) \<Longrightarrow> thread_run api P c d"
  unfolding thread_run_def by (rule exI [of _ "[l]"]) (auto intro: runs_Cons)

lemma thread_run_trans: "thread_run api P c d \<Longrightarrow> thread_run api P d e \<Longrightarrow> thread_run api P c e"
  unfolding thread_run_def by (metis runs_append set_append Un_iff)

lemma thread_run_mono:
  assumes "thread_run api P c d" and "\<And>l. P l \<Longrightarrow> Q l"
  shows "thread_run api Q c d"
  using assms unfolding thread_run_def by meson

lemmas thread_run_first = thread_run_trans [OF thread_run_step]

lemma hw_thread_run:
  assumes "hw_irq (mb_rs api) w = Some (ev, w1)" and "on_hw (mb_rs api) ev s w1 = (s', w2)"
  shows "thread_run api P (pc, p, y\<lparr>sy_rs := s, sy_w := w\<rparr>) (pc, p, y\<lparr>sy_rs := s', sy_w := w2\<rparr>)"
  using thread_run_step [OF S_hw [OF rs_lstep.Irq], of api "y\<lparr>sy_rs := s, sy_w := w\<rparr>" ev w1 s' w2 P pc p] assms
  by simp

lemma deliver_thread_run:
  "deliver (mb_rs api) n s w = (s', w') \<Longrightarrow>
   thread_run api P (pc, p, y\<lparr>sy_rs := s, sy_w := w\<rparr>) (pc, p, y\<lparr>sy_rs := s', sy_w := w'\<rparr>)"
proof (induction n arbitrary: s w)
  case (Suc n)
  show ?case
  proof (cases "hw_irq (mb_rs api) w")
    case (Some e)
    obtain ev w1 s1 w2 where irq: "hw_irq (mb_rs api) w = Some (ev, w1)" and cb: "on_hw (mb_rs api) ev s w1 = (s1, w2)"
      using Some by (cases e, cases "on_hw (mb_rs api) (fst e) s (snd e)") auto
    have "deliver (mb_rs api) n s1 w2 = (s', w')" using Suc.prems irq cb by simp
    from thread_run_trans [OF hw_thread_run [OF irq cb] Suc.IH [OF this]] show ?thesis .
  qed (use Suc.prems in simp)
qed simp

text \<open>The main thread: the loop of the read, the polling loop, the poll and the task.\<close>

lemma read_loop_thread_run:
  assumes "rs485_read_loop (mb_rs api) K_NO_WAIT e MB_POLL_BUF_LEN tmp tot s w = Some r"
  shows "case r of (t', tmp', s', w') \<Rightarrow>
    thread_run api main_label (M_read now tmp tot, p, y\<lparr>sy_rs := s, sy_w := w\<rparr>)
      (M_got now tmp' t', p, y\<lparr>sy_rs := s', sy_w := w'\<rparr>)"
  using assms
proof (induction rule: read_loop_induct)
  case (full tmp tot s w)
  then show ?case by (simp add: thread_run_step [OF S_full])
next
  case (get tmp tot s w s1 w1 len d w2 r)
  have "sys_step api (M_read now tmp tot, p, y\<lparr>sy_rs := s1, sy_w := w1\<rparr>) T_main
      (M_read now (mem_write tmp (unat tot) d) (tot + len), p, y\<lparr>sy_rs := s1, sy_w := w2\<rparr>)"
    using S_get [of tot api "y\<lparr>sy_rs := s1, sy_w := w1\<rparr>" len d w2 now tmp p] get(1,3,4) by simp
  then show ?case
    using thread_run_trans [OF deliver_thread_run [OF get(2)] thread_run_first] get.IH by (auto split: prod.splits)
next
  case (empty tmp tot s w s1 w1 d w2)
  have "sys_step api (M_read now tmp tot, p, y\<lparr>sy_rs := s1, sy_w := w1\<rparr>) T_main
      (M_got now tmp tot, p, y\<lparr>sy_rs := s1, sy_w := w2\<rparr>)"
    using S_empty [of tot api "y\<lparr>sy_rs := s1, sy_w := w1\<rparr>" d w2 now tmp p] empty(1,3) by simp
  then show ?case using thread_run_trans [OF deliver_thread_run [OF empty(2)] thread_run_step] by simp
qed simp_all

lemma read_thread_run:
  assumes "rs485_read_nowait (mb_rs api) (s, w) MB_POLL_BUF_LEN = Some (r, tmp, s', w')"
  obtains tot where "r = sint tot" and
    "thread_run api main_label (M_poll now, p, y\<lparr>sy_rs := s, sy_w := w\<rparr>)
      (M_got now tmp tot, p, y\<lparr>sy_rs := s', sy_w := w'\<rparr>)"
proof -
  let ?tmp = "replicate (unat MB_POLL_BUF_LEN) 0"
  obtain t w1 where up: "k_uptime_get (mb_rs api) w = (t, w1)" by (cases "k_uptime_get (mb_rs api) w")
  obtain e where e: "rs485_read_end (mb_rs api) K_NO_WAIT w = (e, w1)" by (simp add: rs485_read_end_def Let_def up)
  obtain tot where loop: "rs485_read_loop (mb_rs api) K_NO_WAIT e MB_POLL_BUF_LEN ?tmp 0 s w1 = Some (tot, tmp, s', w')"
    and r: "r = sint tot"
    using assms by (auto simp: rs485_read_nowait_def rs485_read_def e split: prod.splits)
  have "sys_step api (M_poll now, p, y\<lparr>sy_rs := s, sy_w := w\<rparr>) T_main
      (M_read now ?tmp 0, p, y\<lparr>sy_rs := s, sy_w := w1\<rparr>)"
    using S_poll [of api "y\<lparr>sy_rs := s, sy_w := w\<rparr>" t w1 now p] up by simp
  from that [OF r thread_run_first [OF this]] read_loop_thread_run [OF loop] show thesis by simp
qed

lemma drain_thread_run:
  assumes "drain (\<lambda>sw. rs485_read_nowait (mb_rs api) sw MB_POLL_BUF_LEN) (mb_absorb api) m sw = Some r"
  shows "thread_run api main_label (M_poll now, p, y\<lparr>sy_mb := m, sy_rs := fst sw, sy_w := snd sw\<rparr>)
    (M_drained now, p, y\<lparr>sy_mb := fst r, sy_rs := fst (snd r), sy_w := snd (snd r)\<rparr>)"
  using assms
proof (induction rule: drain_induct)
  case (stop m sw n tmp sw1)
  obtain tot where n: "n = sint tot" and run: "thread_run api main_label
      (M_poll now, p, y\<lparr>sy_mb := m, sy_rs := fst sw, sy_w := snd sw\<rparr>)
      (M_got now tmp tot, p, y\<lparr>sy_mb := m, sy_rs := fst sw1, sy_w := snd sw1\<rparr>)"
    using read_thread_run [of api "fst sw" "snd sw" n tmp "fst sw1" "snd sw1" now p "y\<lparr>sy_mb := m\<rparr>"] stop(1) by auto
  show ?case using thread_run_trans [OF run thread_run_step [OF S_none]] n stop(2) by simp
next
  case (step m sw n tmp sw1 m2 sw2 r)
  obtain tot where n: "n = sint tot" and run: "thread_run api main_label
      (M_poll now, p, y\<lparr>sy_mb := m, sy_rs := fst sw, sy_w := snd sw\<rparr>)
      (M_got now tmp tot, p, y\<lparr>sy_mb := m, sy_rs := fst sw1, sy_w := snd sw1\<rparr>)"
    using read_thread_run [of api "fst sw" "snd sw" n tmp "fst sw1" "snd sw1" now p "y\<lparr>sy_mb := m\<rparr>"] step(1) by auto
  have "sys_step api (M_got now tmp tot, p, y\<lparr>sy_mb := m, sy_rs := fst sw1, sy_w := snd sw1\<rparr>) T_main
      (M_poll now, p, y\<lparr>sy_mb := m2, sy_rs := fst sw2, sy_w := snd sw2\<rparr>)"
    using S_store [of tot api "y\<lparr>sy_mb := m, sy_rs := fst sw1, sy_w := snd sw1\<rparr>" tmp m2 "fst sw2" "snd sw2" now p]
      step(2,3) n by simp
  then show ?case using thread_run_trans [OF run thread_run_first] step.IH by simp
qed

lemma poll_thread_run:
  assumes "modbus_rx_poll api m (s, w) = Some (m', s', w')"
  shows "thread_run api main_label (M_poll now, p, y\<lparr>sy_mb := m, sy_rs := s, sy_w := w\<rparr>)
    (M_beat now, p, y\<lparr>sy_mb := m', sy_rs := s', sy_w := w'\<rparr>)"
proof -
  obtain m1 s1 w1 where d: "drain (\<lambda>sw. rs485_read_nowait (mb_rs api) sw MB_POLL_BUF_LEN) (mb_absorb api) m (s, w)
    = Some (m1, s1, w1)" using assms by (auto simp: modbus_rx_poll_def)
  obtain t w2 where up: "k_uptime_get (mb_rs api) w1 = (t, w2)" by (cases "k_uptime_get (mb_rs api) w1")
  let ?y = "y\<lparr>sy_mb := m1, sy_rs := s1, sy_w := w1\<rparr>"
  note run = thread_run_trans [OF drain_thread_run [OF d, of now p y, unfolded fst_conv snd_conv]]
  show ?thesis
  proof (cases "4 \<le> mb_rx_len m1 \<and> sint (t - mb_last_rx_ms m1) \<ge> MB_FRAME_GAP_MS")
    case True
    then have "s1 = s'" "modbus_submit_frame api m1 w2 = (m', w')"
      using assms d up by (auto simp: modbus_rx_poll_def split: prod.splits)
    then show ?thesis
      using run [OF thread_run_first [OF S_due [of api ?y t w2] _ thread_run_step [OF S_submit]]] up True
      by (simp add: sys_mb_first)
  next
    case False
    then have "m1 = m'" "s1 = s'" "w2 = w'"
      using assms d up by (auto simp: modbus_rx_poll_def split: prod.splits)
    then show ?thesis using run [OF thread_run_step [OF S_wait [of api ?y t w2]]] up False by simp
  qed
qed

lemma tick_round:
  assumes "mb_step api y Ev_tick z"
  obtains u where "thread_run api main_label (M_top, p, y) (M_sleep, p, u)"
    and "sys_step api (M_sleep, p, u) T_sleep (M_top, p, z)"
proof -
  obtain y1 where tick: "modbus_service_tick api y = Some y1"
    and z: "z = y1\<lparr>sy_w := k_sleep_ms (mb_rs api) 1 (sy_w y1)\<rparr>" using assms by auto
  obtain t w1 m rs w2 where up: "k_uptime_get (mb_rs api) (sy_w y) = (t, w1)"
    and poll: "modbus_rx_poll api (sy_mb y) (sy_rs y, w1) = Some (m, rs, w2)"
    and y1: "y1 = y\<lparr>sy_mb := if sint (t - hb_last_ms m) \<ge> 1000
      then m\<lparr>input_reg := (input_reg m)[0 := input_reg m ! 0 + 1], hb_last_ms := t\<rparr> else m, sy_rs := rs, sy_w := w2\<rparr>"
    using tick by (auto simp: modbus_service_tick_def Let_def split: prod.splits)
  let ?y = "y\<lparr>sy_mb := m, sy_rs := rs, sy_w := w2\<rparr>"
  have start: "thread_run api main_label (M_top, p, y) (M_beat t, p, ?y)"
    using thread_run_first [OF S_time [OF up]] poll_thread_run [OF poll, of t p y] by simp
  have "thread_run api main_label (M_beat t, p, ?y) (M_sleep, p, y1)"
  proof (cases "sint (t - hb_last_ms m) \<ge> 1000")
    case True
    then show ?thesis using thread_run_step [OF S_beat [of ?y m t api p], of main_label] y1 by (simp add: sys_mb_first)
  next
    case False
    then show ?thesis using thread_run_step [OF S_still [of t ?y api p], of main_label] y1 by simp
  qed
  from that [OF thread_run_trans [OF start this]] S_sleep [of api p y1] show thesis using z by simp
qed

lemma tick_thread_run:
  assumes "mb_step api y Ev_tick z"
  shows "thread_run api main_label (M_top, p, y) (M_top, p, z)"
proof -
  obtain u where run: "thread_run api main_label (M_top, p, y) (M_sleep, p, u)"
    and sleep: "sys_step api (M_sleep, p, u) T_sleep (M_top, p, z)" using tick_round [OF assms] .
  show ?thesis using thread_run_trans [OF run thread_run_step [OF sleep]] by simp
qed

lemma ticks_run:
  "runs (mb_step api) y (replicate n Ev_tick) z \<Longrightarrow>
   \<exists>ls. runs (sys_step api) (M_top, p, y) ls (M_top, p, z) \<and> n \<le> count_list ls T_sleep"
proof (induction n arbitrary: y)
  case 0
  then show ?case by (auto intro: exI [of _ "[]"])
next
  case (Suc n)
  then obtain v where v: "mb_step api y Ev_tick v" "runs (mb_step api) v (replicate n Ev_tick) z"
    by (auto simp: runs_Cons_iff)
  obtain u ls where ls: "runs (sys_step api) (M_top, p, y) ls (M_sleep, p, u)"
    and sleep: "sys_step api (M_sleep, p, u) T_sleep (M_top, p, v)"
    using tick_round [OF v(1)] unfolding thread_run_def by blast
  obtain ks where ks: "runs (sys_step api) (M_top, p, v) ks (M_top, p, z)" "n \<le> count_list ks T_sleep"
    using Suc.IH [OF v(2)] by blast
  have "runs (sys_step api) (M_top, p, y) (ls @ T_sleep # ks) (M_top, p, z)"
    using ls runs_Cons [where step = "sys_step api", OF sleep ks(1)] unfolding runs_append by blast
  then show ?case using ks(2) by (intro exI [of _ "ls @ T_sleep # ks"]) simp
qed

text \<open>The server: \<^verbatim>\<open>rs485_write\<close>, the response callback and the register callbacks.\<close>

abbreviation server_label :: "sys_label \<Rightarrow> bool" where
  "server_label l \<equiv> \<not> main_label l"

abbreviation send_label :: "modbus_adu \<Rightarrow> sys_label \<Rightarrow> bool" where
  "send_label a l \<equiv> l = T_send a \<or> l = T_tx"

lemma tx_thread_run:
  assumes "rs_lstep (mb_rs api) (p, s, w) L_writer (p', s', w')" and "\<And>r. p \<noteq> W_idle r"
  shows "thread_run api (send_label a) (pc, p, y\<lparr>sy_rs := s, sy_w := w\<rparr>) (pc, p', y\<lparr>sy_rs := s', sy_w := w'\<rparr>)"
  using thread_run_step [OF S_tx [of p api "y\<lparr>sy_rs := s, sy_w := w\<rparr>" p' s' w' pc], of "send_label a"] assms by simp

lemma sem_wait_thread_run:
  assumes "sem_wait (mb_rs api) s w = Some r"
  shows "thread_run api (send_label a) (pc, W_waiting, y\<lparr>sy_rs := s, sy_w := w\<rparr>)
    (pc, W_idle 0, y\<lparr>sy_rs := fst r, sy_w := snd r\<rparr>)"
  using assms
proof (induction rule: sem_wait_induct)
  case (wake s w w1)
  then show ?case using tx_thread_run [OF W_wake] by simp
next
  case (irq s w w1 ev w2 s1 w3 r)
  show ?case
    using thread_run_trans [OF tx_thread_run [OF W_blocked [OF irq(1)]]
      thread_run_trans [OF hw_thread_run [OF irq(2,3)] irq.IH]] by simp
qed

lemma write_thread_run:
  assumes "unat (adu_length a) \<le> MB_FRAME_MAX_LEN api - 4" and "frame_len a \<le> of_nat TX_BUF_SIZE"
    and wr: "rs485_write (mb_rs api) (mb_frame api a) (frame_len a) (sy_rs y) (sy_w y) = Some (r, s', w')"
  shows "thread_run api (send_label a) (pc, W_idle q, y) (pc, W_idle r, y\<lparr>sy_rs := s', sy_w := w'\<rparr>)"
proof -
  let ?s = "(sy_rs y)\<lparr>tx_buf := mem_write (tx_buf (sy_rs y)) 0 (take (unat (frame_len a)) (mb_frame api a))\<rparr>"
  let ?w = "gpio_pin_set_dt (mb_rs api) 1 (sy_w y)"
  obtain ret w2 where tx: "uart_tx (mb_rs api) (tx_buf ?s) (frame_len a) ?w = (ret, w2)"
    by (cases "uart_tx (mb_rs api) (tx_buf ?s) (frame_len a) ?w")
  have copy: "sys_step api (pc, W_idle q, y) (T_send a) (pc, W_copied (frame_len a), y\<lparr>sy_rs := ?s, sy_w := sy_w y\<rparr>)"
    using S_tx_copy [OF assms(1,2) refl, where y = y and pc = pc and r = q] by simp
  have drive: "thread_run api (send_label a) (pc, W_idle q, y) (pc, W_driving (frame_len a), y\<lparr>sy_rs := ?s, sy_w := ?w\<rparr>)"
    by (rule thread_run_first [OF copy _ tx_thread_run [OF W_drive]]) simp_all
  have nle: "\<not> frame_len a > of_nat TX_BUF_SIZE" using assms(2) by simp
  show ?thesis
  proof (cases "ret = 0")
    case True
    have wait: "sem_wait (mb_rs api) ?s w2 = Some (s', w')" and r: "r = 0"
      using wr tx True nle by (auto simp: rs485_write_def Let_def split: prod.splits)
    have "thread_run api (send_label a) (pc, W_driving (frame_len a), y\<lparr>sy_rs := ?s, sy_w := ?w\<rparr>)
        (pc, W_waiting, y\<lparr>sy_rs := ?s, sy_w := w2\<rparr>)"
      by (rule tx_thread_run [OF W_start]) (use tx True in simp_all)
    from thread_run_trans [OF drive thread_run_trans [OF this sem_wait_thread_run [OF wait]]] show ?thesis using r by simp
  next
    case False
    have r: "r = ret" "s' = ?s" "w' = gpio_pin_set_dt (mb_rs api) 0 w2"
      using wr tx False nle by (auto simp: rs485_write_def Let_def split: prod.splits)
    have "thread_run api (send_label a) (pc, W_driving (frame_len a), y\<lparr>sy_rs := ?s, sy_w := ?w\<rparr>)
        (pc, W_idle ret, y\<lparr>sy_rs := ?s, sy_w := gpio_pin_set_dt (mb_rs api) 0 w2\<rparr>)"
      by (rule thread_run_trans [OF tx_thread_run [OF W_refused [OF tx False]] tx_thread_run [OF W_release]]) simp_all
    from thread_run_trans [OF drive this] show ?thesis using r by simp
  qed
qed

lemma raw_tx_thread_run:
  assumes "modbus_raw_tx_cb api adu y = Some (r, z)"
  shows "\<exists>q'. thread_run api server_label (pc, W_idle q, y) (pc, W_idle q', z)"
proof (cases "z = y")
  case False
  then obtain a s' w' where le: "unat (adu_length a) \<le> MB_FRAME_MAX_LEN api - 4"
    and wr: "rs485_write (mb_rs api) (mb_frame api a) (frame_len a) (sy_rs y) (sy_w y) = Some (r, s', w')"
    and z: "z = y\<lparr>sy_rs := s', sy_w := w'\<rparr>"
    using assms by (auto simp: modbus_raw_tx_cb_def not_less split: option.splits if_splits)
  have "frame_len a \<le> of_nat TX_BUF_SIZE" using wr z False by (auto simp: rs485_write_def not_less split: if_splits)
  then have "thread_run api server_label (pc, W_idle q, y) (pc, W_idle r, z)"
    unfolding z by (rule thread_run_mono [OF write_thread_run [OF le _ wr]]) auto
  then show ?thesis by blast
qed (auto intro: exI [of _ q])

lemma call_thread_run:
  assumes "mb_step api y e z"
  shows "if e = Ev_tick then thread_run api main_label (M_top, p, y) (M_top, p, z)
    else \<exists>q'. thread_run api server_label (pc, W_idle q, y) (pc, W_idle q', z)"
proof (cases e)
  case (Ev_raw_tx adu r)
  then show ?thesis using assms raw_tx_thread_run by (simp add: server_simps)
qed (use assms tick_thread_run thread_run_step [OF S_call [OF _ assms], of server_label] in force)+

text \<open>A sequence of calls is an interleaved run in which no call overlaps another.\<close>

lemma calls_run:
  "runs (mb_step api) y es z \<Longrightarrow> \<exists>ls q'. runs (sys_step api) (M_top, W_idle q, y) ls (M_top, W_idle q', z)"
proof (induction arbitrary: q rule: runs.induct)
  case (runs_Cons y e u es z)
  have "\<exists>q'. \<exists>ls. runs (sys_step api) (M_top, W_idle q, y) ls (M_top, W_idle q', u)"
    using call_thread_run [OF runs_Cons.hyps(1), of "W_idle q" M_top q] unfolding thread_run_def
    by (cases "e = Ev_tick") auto
  then show ?case using runs_Cons.IH runs_append by metis
qed (blast intro: runs_Nil)

end
