(* ===== verification/PartitionIO.thy ===== *)
theory PartitionIO
  imports Prelude Simulation
begin

text \<open>
  The interface between a component that offers a range of flash and its clients: read,
  program and erase requests at a 32-bit address with a 32-bit length. Two components of
  the firmware have this interface with different return-code conventions, the flash port
  (0 or a negative errno) and the FAL adapter (the length or -1); the parameter \<open>good\<close>
  tells success from failure, and \<open>accept\<close> tells which requests are inside the range.
  \<open>contents\<close> is the flash as the client sees it. A range with these laws refines a NOR flash,
  over whole sequences of requests: \<open>io\<close> is the \<open>trace_refinement\<close> that every \<open>partition_io\<close>
  gives.
\<close>

section \<open>Requests and the NOR flash\<close>

text \<open>A request with its result.\<close>

datatype io_call =
    Io_read "32 word" "32 word" int "u8 list"
  | Io_write "32 word" "u8 list" "32 word" int
  | Io_erase "32 word" "32 word" int

fun io_step ::
  "('s \<Rightarrow> 32 word \<Rightarrow> 32 word \<Rightarrow> int \<times> u8 list \<times> 's) \<Rightarrow> ('s \<Rightarrow> 32 word \<Rightarrow> u8 list \<Rightarrow> 32 word \<Rightarrow> int \<times> 's)
     \<Rightarrow> ('s \<Rightarrow> 32 word \<Rightarrow> 32 word \<Rightarrow> int \<times> 's) \<Rightarrow> 's \<Rightarrow> io_call \<Rightarrow> 's \<Rightarrow> bool" where
  "io_step rd wr er s (Io_read a n e d) t \<longleftrightarrow> rd s a n = (e, d, t)"
| "io_step rd wr er s (Io_write a b n e) t \<longleftrightarrow> wr s a b n = (e, t)"
| "io_step rd wr er s (Io_erase a n e) t \<longleftrightarrow> er s a n = (e, t)"

text \<open>
  The NOR flash: which requests it accepts, and its bytes. A program of erased bytes stores
  the data; a failed one may leave its own bytes in any state.
\<close>

fun nor_step ::
  "(32 word \<Rightarrow> int \<Rightarrow> bool) \<Rightarrow> (32 word \<Rightarrow> 32 word \<Rightarrow> bool) \<times> (nat \<Rightarrow> u8) \<Rightarrow> io_call
     \<Rightarrow> (32 word \<Rightarrow> 32 word \<Rightarrow> bool) \<times> (nat \<Rightarrow> u8) \<Rightarrow> bool" where
  "nor_step good (acc, f) (Io_read a n e d) (acc', g) \<longleftrightarrow>
     acc' = acc \<and> g = f \<and> (good n e \<longrightarrow> acc a n \<and> d = map f [unat a ..< unat a + unat n])"
| "nor_step good (acc, f) (Io_write a b n e) (acc', g) \<longleftrightarrow>
     acc' = acc \<and> (\<forall>i. g i \<noteq> f i \<longrightarrow> acc a n \<and> i \<in> {unat a ..< unat a + unat n}) \<and>
     (good n e \<longrightarrow> acc a n \<and>
        (unat n \<le> length b \<and> (\<forall>i \<in> {unat a ..< unat a + unat n}. f i = 255) \<longrightarrow>
         map g [unat a ..< unat a + unat n] = take (unat n) b))"
| "nor_step good (acc, f) (Io_erase a n e) (acc', g) \<longleftrightarrow>
     acc' = acc \<and> (\<forall>i. g i \<noteq> f i \<longrightarrow> acc a n \<and> i \<in> {unat a ..< unat a + unat n}) \<and>
     (good n e \<longrightarrow> acc a n \<and> (\<forall>i \<in> {unat a ..< unat a + unat n}. g i = 255))"

section \<open>The contract\<close>

locale partition_io =
  fixes rd :: "'s \<Rightarrow> 32 word \<Rightarrow> 32 word \<Rightarrow> int \<times> u8 list \<times> 's"
    and wr :: "'s \<Rightarrow> 32 word \<Rightarrow> u8 list \<Rightarrow> 32 word \<Rightarrow> int \<times> 's"
    and er :: "'s \<Rightarrow> 32 word \<Rightarrow> 32 word \<Rightarrow> int \<times> 's"
    and accept :: "'s \<Rightarrow> 32 word \<Rightarrow> 32 word \<Rightarrow> bool"
    and good :: "32 word \<Rightarrow> int \<Rightarrow> bool"
    and contents :: "'s \<Rightarrow> nat \<Rightarrow> u8"
    and inv :: "'s \<Rightarrow> bool"
  assumes rd_reject: "inv s \<Longrightarrow> \<not> accept s a n \<Longrightarrow> rd s a n = (e, d, t) \<Longrightarrow> t = s \<and> d = [] \<and> \<not> good n e"
    and wr_reject: "inv s \<Longrightarrow> \<not> accept s a n \<Longrightarrow> wr s a b n = (e, t) \<Longrightarrow> t = s \<and> \<not> good n e"
    and er_reject: "inv s \<Longrightarrow> \<not> accept s a n \<Longrightarrow> er s a n = (e, t) \<Longrightarrow> t = s \<and> \<not> good n e"
    and rd_inv: "inv s \<Longrightarrow> rd s a n = (e, d, t) \<Longrightarrow> inv t \<and> accept t = accept s"
    and wr_inv: "inv s \<Longrightarrow> wr s a b n = (e, t) \<Longrightarrow> inv t \<and> accept t = accept s"
    and er_inv: "inv s \<Longrightarrow> er s a n = (e, t) \<Longrightarrow> inv t \<and> accept t = accept s"
    and rd_frame: "inv s \<Longrightarrow> accept s a n \<Longrightarrow> rd s a n = (e, d, t) \<Longrightarrow> contents t = contents s"
    and rd_good: "inv s \<Longrightarrow> accept s a n \<Longrightarrow> rd s a n = (e, d, t) \<Longrightarrow> good n e \<Longrightarrow>
      d = map (contents s) [unat a ..< unat a + unat n]"
    and wr_frame: "inv s \<Longrightarrow> accept s a n \<Longrightarrow> wr s a b n = (e, t) \<Longrightarrow>
      i \<notin> {unat a ..< unat a + unat n} \<Longrightarrow> contents t i = contents s i"
    and wr_good: "inv s \<Longrightarrow> accept s a n \<Longrightarrow> wr s a b n = (e, t) \<Longrightarrow> good n e \<Longrightarrow>
      unat n \<le> length b \<Longrightarrow> (\<And>i. i \<in> {unat a ..< unat a + unat n} \<Longrightarrow> contents s i = 255) \<Longrightarrow>
      j < unat n \<Longrightarrow> contents t (unat a + j) = b ! j"
    and er_frame: "inv s \<Longrightarrow> accept s a n \<Longrightarrow> er s a n = (e, t) \<Longrightarrow>
      i \<notin> {unat a ..< unat a + unat n} \<Longrightarrow> contents t i = contents s i"
    and er_good: "inv s \<Longrightarrow> accept s a n \<Longrightarrow> er s a n = (e, t) \<Longrightarrow> good n e \<Longrightarrow>
      i \<in> {unat a ..< unat a + unat n} \<Longrightarrow> contents t i = 255"
begin

lemma rd_state: "inv s \<Longrightarrow> rd s a n = (e, d, t) \<Longrightarrow> contents t = contents s"
  by (cases "accept s a n") (auto dest: rd_frame rd_reject)

lemma wr_outside:
  "inv s \<Longrightarrow> wr s a b n = (e, t) \<Longrightarrow> i \<notin> {unat a ..< unat a + unat n} \<Longrightarrow> contents t i = contents s i"
  using wr_frame [of s a n b e t i] wr_reject [of s a n b e t] by (cases "accept s a n") simp_all

lemma er_outside:
  "inv s \<Longrightarrow> er s a n = (e, t) \<Longrightarrow> i \<notin> {unat a ..< unat a + unat n} \<Longrightarrow> contents t i = contents s i"
  using er_frame [of s a n e t i] er_reject [of s a n e t] by (cases "accept s a n") simp_all

lemma good_accepts_rd: "inv s \<Longrightarrow> rd s a n = (e, d, t) \<Longrightarrow> good n e \<Longrightarrow> accept s a n"
  using rd_reject by blast

lemma good_accepts_wr: "inv s \<Longrightarrow> wr s a b n = (e, t) \<Longrightarrow> good n e \<Longrightarrow> accept s a n"
  using wr_reject by blast

lemma good_accepts_er: "inv s \<Longrightarrow> er s a n = (e, t) \<Longrightarrow> good n e \<Longrightarrow> accept s a n"
  using er_reject by blast

text \<open>Erase, program, read back: what a client of either component sees.\<close>

lemma erase_program_contents:
  assumes inv: "inv s" and er: "er s a m = (e1, s1)" and g1: "good m e1"
    and wr: "wr s1 a b n = (e2, s2)" and g2: "good n e2"
    and len: "unat n \<le> length b" "unat n \<le> unat m"
  shows "contents s2 i =
    (if unat a \<le> i \<and> i < unat a + unat n then b ! (i - unat a)
     else if unat a \<le> i \<and> i < unat a + unat m then 255 else contents s i)"
proof -
  have acc: "accept s a m" using inv er g1 by (rule good_accepts_er)
  have inv1: "inv s1" using er_inv [OF inv er] by simp
  have acc1: "accept s1 a n" using inv1 wr g2 by (rule good_accepts_wr)
  have erased: "contents s1 j = 255" if "j \<in> {unat a ..< unat a + unat m}" for j
    using er_good [OF inv acc er g1 that] .
  have kept: "contents s1 j = contents s j" if "j \<notin> {unat a ..< unat a + unat m}" for j
    using er_frame [OF inv acc er that] .
  have prog: "contents s2 (unat a + j) = b ! j" if "j < unat n" for j
    using wr_good [OF inv1 acc1 wr g2 len(1) _ that] erased len(2) by auto
  have same: "contents s2 j = contents s1 j" if "j \<notin> {unat a ..< unat a + unat n}" for j
    using wr_frame [OF inv1 acc1 wr that] .
  show ?thesis
    using prog [of "i - unat a"] same [of i] erased [of i] kept [of i] by auto
qed

lemma program_read_back:
  assumes inv: "inv s" and er: "er s a m = (e1, s1)" and g1: "good m e1"
    and wr: "wr s1 a b n = (e2, s2)" and g2: "good n e2"
    and len: "unat n \<le> length b" "unat n \<le> unat m"
    and rd: "rd s2 a n = (e3, d, s3)" and g3: "good n e3"
  shows "d = take (unat n) b"
proof -
  have inv2: "inv s2" using er_inv [OF inv er] wr_inv wr by blast
  have "accept s2 a n" using inv2 rd g3 by (rule good_accepts_rd)
  then have "d = map (contents s2) [unat a ..< unat a + unat n]"
    using rd_good [OF inv2 _ rd g3] by blast
  also have "\<dots> = take (unat n) b"
    using len(1) by (intro nth_equalityI)
      (auto simp: erase_program_contents [OF inv er g1 wr g2 len])
  finally show ?thesis .
qed

lemma erase_elsewhere_keeps:
  assumes inv: "inv s" and er: "er s a m = (e1, s1)"
    and rd: "rd s b n = (e0, d0, s0)" "rd s1 b n = (e2, d, s2)"
    and ok: "good n e0" "good n e2"
    and disj: "unat b + unat n \<le> unat a \<or> unat a + unat m \<le> unat b"
  shows "d = d0"
proof -
  have inv1: "inv s1" using er_inv [OF inv er] by simp
  have keep: "contents s1 i = contents s i" if "i \<in> {unat b ..< unat b + unat n}" for i
  proof (cases "accept s a m")
    case True
    then show ?thesis using er_frame [OF inv _ er] that disj by auto
  next
    case False
    then show ?thesis using er_reject [OF inv _ er] by simp
  qed
  show ?thesis
    using rd_good [OF inv good_accepts_rd [OF inv rd(1) ok(1)] rd(1) ok(1)]
      rd_good [OF inv1 good_accepts_rd [OF inv1 rd(2) ok(2)] rd(2) ok(2)] keep
    by auto
qed

lemma write_stores:
  assumes inv: "inv s" and wr: "wr s a b n = (e, t)" and g: "good n e" and len: "unat n \<le> length b"
    and er: "\<And>i. i \<in> {unat a ..< unat a + unat n} \<Longrightarrow> contents s i = 255"
  shows "map (contents t) [unat a ..< unat a + unat n] = take (unat n) b"
  using wr_good [OF inv good_accepts_wr [OF inv wr g] wr g len er] len
  by (intro nth_equalityI) auto

end

text \<open>Every partition is a NOR flash.\<close>

context partition_io
begin

lemma wr_changes: "inv s \<Longrightarrow> wr s a b n = (e, t) \<Longrightarrow> contents t i \<noteq> contents s i \<Longrightarrow>
    accept s a n \<and> i \<in> {unat a ..< unat a + unat n}"
  using wr_reject wr_frame by (cases "accept s a n") blast+

lemma er_changes: "inv s \<Longrightarrow> er s a n = (e, t) \<Longrightarrow> contents t i \<noteq> contents s i \<Longrightarrow>
    accept s a n \<and> i \<in> {unat a ..< unat a + unat n}"
  using er_reject er_frame by (cases "accept s a n") blast+

lemma io_step_nor:
  assumes inv: "inv s" and step: "io_step rd wr er s c t"
  shows "inv t \<and> nor_step good (accept s, contents s) c (accept t, contents t)"
proof (cases c)
  case (Io_read a n e d)
  then have r: "rd s a n = (e, d, t)" using step by simp
  have "good n e \<Longrightarrow> accept s a n \<and> d = map (contents s) [unat a ..< unat a + unat n]"
    using good_accepts_rd [OF inv r] rd_good [OF inv _ r] by blast
  then show ?thesis using Io_read rd_inv [OF inv r] rd_state [OF inv r] by simp
next
  case (Io_write a b n e)
  then have w: "wr s a b n = (e, t)" using step by simp
  have "good n e \<Longrightarrow> accept s a n \<and>
      (unat n \<le> length b \<and> (\<forall>i \<in> {unat a ..< unat a + unat n}. contents s i = 255) \<longrightarrow>
       map (contents t) [unat a ..< unat a + unat n] = take (unat n) b)"
    using good_accepts_wr [OF inv w] write_stores [OF inv w] by blast
  moreover have "\<forall>i. contents t i \<noteq> contents s i \<longrightarrow> accept s a n \<and> i \<in> {unat a ..< unat a + unat n}"
    using wr_changes [OF inv w] by blast
  ultimately show ?thesis using Io_write wr_inv [OF inv w] by (simp only: nor_step.simps simp_thms) blast
next
  case (Io_erase a n e)
  then have w: "er s a n = (e, t)" using step by simp
  have "good n e \<Longrightarrow> accept s a n \<and> (\<forall>i \<in> {unat a ..< unat a + unat n}. contents t i = 255)"
    using good_accepts_er [OF inv w] er_good [OF inv _ w] by blast
  moreover have "\<forall>i. contents t i \<noteq> contents s i \<longrightarrow> accept s a n \<and> i \<in> {unat a ..< unat a + unat n}"
    using er_changes [OF inv w] by blast
  ultimately show ?thesis using Io_erase er_inv [OF inv w] by (simp only: nor_step.simps simp_thms) blast
qed

end

sublocale partition_io \<subseteq> io: trace_refinement "io_step rd wr er" "nor_step good" "\<lambda>s. (accept s, contents s)" inv
  by unfold_locales (auto dest: io_step_nor)

end
