(* ===== verification/FlashPort.thy ===== *)
theory FlashPort
  imports PartitionIO
begin

text \<open>
  The flash port, \<^verbatim>\<open>ATS-M7/src/flashdb_port_zephyr.c\<close>: the handle of the FlashDB
  partition with its range check, the read, write and erase entry points and the self
  test that \<^verbatim>\<open>main\<close> runs at boot. The identification dumps of the same file are in
  \<open>FlashIdent\<close>.

  The Zephyr flash map and flash driver are not part of the repository: \<open>flash_api\<close> has
  one field per function of them that the file calls, over an arbitrary state \<open>'w\<close> of the
  hardware. \<open>flash_ok\<close> is the documented behaviour of a partition-relative flash driver
  that the correctness theorems rely on. Console output of these functions
  is left out. \<open>port_env\<close> packs driver, state and hardware, and the interpretation
  \<open>port\<close> shows that the entry points are a \<open>partition_io\<close>.
\<close>

section \<open>The platform interface\<close>

record flash_area =
  fa_off :: off_t
  fa_size :: usize
  fa_dev :: device

text \<open>The constants of the vendor's QSPI driver, by name.\<close>

datatype qspi_const = QSPI_UNSET | QSPI_ADDRESS_NONE | QSPI_ADDRESS_24_BITS | QSPI_ADDRESS_1_LINE
  | QSPI_INSTRUCTION_1_LINE | QSPI_DATA_1_LINE

record qspi_cmd =
  Instruction :: u8
  Address :: u32
  AddressSize :: qspi_const
  AddressMode :: qspi_const
  DummyCycles :: u32
  InstructionMode :: qspi_const
  DataMode :: qspi_const
  NbData :: u32

text \<open>
  A call that fills a buffer returns the bytes it stored at the buffer's start. The handle
  that \<open>flash_area_open\<close> returns is stored through the out parameter when the call
  returns 0.
\<close>

record 'w flash_api =
  flash_area_open :: "'w \<Rightarrow> int \<times> flash_area \<times> 'w"
  flash_area_device_is_ready :: "flash_area \<Rightarrow> 'w \<Rightarrow> bool"
  flash_get_page_info_by_offs :: "device \<Rightarrow> off_t \<Rightarrow> 'w \<Rightarrow> int \<times> usize"
  flash_area_align :: "flash_area \<Rightarrow> usize"
  flash_area_read :: "flash_area \<Rightarrow> off_t \<Rightarrow> usize \<Rightarrow> 'w \<Rightarrow> int \<times> u8 list \<times> 'w"
  flash_area_write :: "flash_area \<Rightarrow> off_t \<Rightarrow> u8 list \<Rightarrow> usize \<Rightarrow> 'w \<Rightarrow> int \<times> 'w"
  flash_area_erase :: "flash_area \<Rightarrow> off_t \<Rightarrow> usize \<Rightarrow> 'w \<Rightarrow> int \<times> 'w"
  flash_ex_op_generic_read :: "device \<Rightarrow> qspi_cmd \<Rightarrow> 'w \<Rightarrow> int \<times> u8 list \<times> 'w"
  flash_read_jedec_id :: "device \<Rightarrow> 'w \<Rightarrow> int \<times> u8 list \<times> 'w"
  ROUND_UP :: "usize \<Rightarrow> usize \<Rightarrow> usize"

section \<open>State and operations\<close>

record port_state =
  flashdb_area :: "flash_area option"
  flashdb_erase_size :: usize
  flashdb_write_align :: usize

definition port_state0 :: port_state where
  "port_state0 = \<lparr>flashdb_area = None, flashdb_erase_size = 0, flashdb_write_align = 0\<rparr>"

definition flashdb_check_range :: "port_state \<Rightarrow> off_t \<Rightarrow> usize \<Rightarrow> int" where
  "flashdb_check_range s off len =
     (case flashdb_area s of
        None \<Rightarrow> - EACCES
      | Some fa \<Rightarrow>
          if sint off < 0 \<or> off > fa_size fa \<or> len > fa_size fa - off then - EINVAL else 0)"

definition flashdb_port_init :: "'w flash_api \<Rightarrow> port_state \<Rightarrow> 'w \<Rightarrow> int \<times> port_state \<times> 'w" where
  "flashdb_port_init api s w =
     (let (ret, fa, w1) = flash_area_open api w in
      if ret \<noteq> 0 then (ret, s, w1)
      else
        let s1 = s\<lparr>flashdb_area := Some fa\<rparr> in
        if \<not> flash_area_device_is_ready api fa w1 then (- ENODEV, s1, w1)
        else
          let (ret, page_size) = flash_get_page_info_by_offs api (fa_dev fa) (fa_off fa) w1 in
          if ret \<noteq> 0 then (ret, s1, w1)
          else
            let align = flash_area_align api fa in
            (0, s1\<lparr>flashdb_erase_size := page_size,
                   flashdb_write_align := (if align = 0 then 1 else align)\<rparr>, w1))"

definition flashdb_port_size :: "port_state \<Rightarrow> usize" where
  "flashdb_port_size s = (case flashdb_area s of Some fa \<Rightarrow> fa_size fa | None \<Rightarrow> 0)"

definition flashdb_port_align :: "port_state \<Rightarrow> usize" where
  "flashdb_port_align s = flashdb_write_align s"

definition flashdb_port_erase_size :: "port_state \<Rightarrow> usize" where
  "flashdb_port_erase_size s = flashdb_erase_size s"

text \<open>
  The driver call after a passed range check; the check fails with a null handle, so the
  \<open>None\<close> case is never reached with return code 0.
\<close>

definition flashdb_port_read ::
  "'w flash_api \<Rightarrow> port_state \<Rightarrow> off_t \<Rightarrow> usize \<Rightarrow> 'w \<Rightarrow> int \<times> u8 list \<times> 'w" where
  "flashdb_port_read api s off len w =
     (let ret = flashdb_check_range s off len in
      if ret \<noteq> 0 then (ret, [], w)
      else case flashdb_area s of
        Some fa \<Rightarrow> flash_area_read api fa off len w
      | None \<Rightarrow> (ret, [], w))"

definition flashdb_port_write ::
  "'w flash_api \<Rightarrow> port_state \<Rightarrow> off_t \<Rightarrow> u8 list \<Rightarrow> usize \<Rightarrow> 'w \<Rightarrow> int \<times> 'w" where
  "flashdb_port_write api s off buf len w =
     (let ret = flashdb_check_range s off len in
      if ret \<noteq> 0 then (ret, w)
      else case flashdb_area s of
        Some fa \<Rightarrow> flash_area_write api fa off buf len w
      | None \<Rightarrow> (ret, w))"

definition flashdb_port_erase ::
  "'w flash_api \<Rightarrow> port_state \<Rightarrow> off_t \<Rightarrow> usize \<Rightarrow> 'w \<Rightarrow> int \<times> 'w" where
  "flashdb_port_erase api s off len w =
     (let ret = flashdb_check_range s off len in
      if ret \<noteq> 0 then (ret, w)
      else case flashdb_area s of
        Some fa \<Rightarrow> flash_area_erase api fa off len w
      | None \<Rightarrow> (ret, w))"

lemmas [port_defs] =
  flashdb_check_range_def flashdb_port_init_def flashdb_port_size_def flashdb_port_align_def
  flashdb_port_erase_size_def flashdb_port_read_def flashdb_port_write_def flashdb_port_erase_def


section \<open>The range check\<close>

definition in_area :: "flash_area \<Rightarrow> off_t \<Rightarrow> usize \<Rightarrow> bool" where
  "in_area fa off len \<longleftrightarrow> 0 \<le> sint off \<and> unat off + unat len \<le> unat (fa_size fa)"

text \<open>
  C7. The range check, computed by the code with unsigned comparisons and a subtraction,
  accepts exactly the requests whose end, taken without wrap-around, lies in the partition.
\<close>

theorem flashdb_check_range_exact:
  "flashdb_check_range s off len =
     (case flashdb_area s of
        None \<Rightarrow> - EACCES
      | Some fa \<Rightarrow> if in_area fa off len then 0 else - EINVAL)"
  by (auto simp: flashdb_check_range_def in_area_def range_check_iff split: option.split)

lemma check_range_zero:
  "flashdb_check_range s off len = 0 \<longleftrightarrow> (\<exists>fa. flashdb_area s = Some fa \<and> in_area fa off len)"
  by (auto simp: flashdb_check_range_def in_area_def range_check_iff split: option.split)

lemma port_ops_in_area:
  assumes "flashdb_area s = Some fa"
  shows "flashdb_port_read api s off len w =
           (if in_area fa off len then flash_area_read api fa off len w else (- EINVAL, [], w))"
    and "flashdb_port_write api s off buf len w =
           (if in_area fa off len then flash_area_write api fa off buf len w else (- EINVAL, w))"
    and "flashdb_port_erase api s off len w =
           (if in_area fa off len then flash_area_erase api fa off len w else (- EINVAL, w))"
  using assms
  by (auto simp: port_defs in_area_def range_check_iff)

lemma port_ops_closed:
  assumes "flashdb_area s = None"
  shows "flashdb_port_read api s off len w = (- EACCES, [], w)"
    and "flashdb_port_write api s off buf len w = (- EACCES, w)"
    and "flashdb_port_erase api s off len w = (- EACCES, w)"
  using assms by (simp_all add: port_defs)

text \<open>Two drivers that behave alike on every request inside the partition.\<close>

definition drivers_agree :: "'w flash_api \<Rightarrow> 'w flash_api \<Rightarrow> flash_area \<Rightarrow> bool" where
  "drivers_agree a b fa \<longleftrightarrow>
     (\<forall>off len w. in_area fa off len \<longrightarrow>
        flash_area_read a fa off len w = flash_area_read b fa off len w \<and>
        flash_area_erase a fa off len w = flash_area_erase b fa off len w \<and>
        (\<forall>buf. flash_area_write a fa off buf len w = flash_area_write b fa off buf len w))"

text \<open>
  C17. The entry points never let a request outside the partition reach the driver: their
  results do not depend on what the driver does with such a request, whatever offset and
  length the caller passes.
\<close>

theorem port_confined:
  assumes "flashdb_area s = Some fa" and "drivers_agree a b fa"
  shows "flashdb_port_read a s off len w = flashdb_port_read b s off len w \<and>
    flashdb_port_write a s off buf len w = flashdb_port_write b s off buf len w \<and>
    flashdb_port_erase a s off len w = flashdb_port_erase b s off len w"
  using assms by (simp_all add: port_ops_in_area drivers_agree_def)

section \<open>Initialisation\<close>

definition port_ready :: "port_state \<Rightarrow> bool" where
  "port_ready s \<longleftrightarrow> flashdb_area s \<noteq> None \<and> flashdb_write_align s \<noteq> 0"

lemma port_init_ready: "flashdb_port_init api s w = (0, s', w') \<Longrightarrow> port_ready s'"
  by (auto simp: port_defs port_ready_def Let_def split: prod.splits if_splits)

section \<open>A documented flash driver, and the port as a partition\<close>

definition flash_read_ok :: "'w flash_api \<Rightarrow> flash_area \<Rightarrow> ('w \<Rightarrow> nat \<Rightarrow> u8) \<Rightarrow> bool" where
  "flash_read_ok api fa mem \<longleftrightarrow>
     (\<forall>off len w ret data w'.
        in_area fa off len \<longrightarrow> flash_area_read api fa off len w = (ret, data, w') \<longrightarrow>
        mem w' = mem w \<and>
        (ret = 0 \<longrightarrow> data = map (mem w) [unat off ..< unat off + unat len]))"

definition flash_erase_ok :: "'w flash_api \<Rightarrow> flash_area \<Rightarrow> ('w \<Rightarrow> nat \<Rightarrow> u8) \<Rightarrow> bool" where
  "flash_erase_ok api fa mem \<longleftrightarrow>
     (\<forall>off len w ret w' i.
        in_area fa off len \<longrightarrow> flash_area_erase api fa off len w = (ret, w') \<longrightarrow>
        (if unat off \<le> i \<and> i < unat off + unat len then ret = 0 \<longrightarrow> mem w' i = 255
         else mem w' i = mem w i))"

definition flash_write_ok :: "'w flash_api \<Rightarrow> flash_area \<Rightarrow> ('w \<Rightarrow> nat \<Rightarrow> u8) \<Rightarrow> bool" where
  "flash_write_ok api fa mem \<longleftrightarrow>
     (\<forall>off buf len w ret w' i.
        in_area fa off len \<longrightarrow> flash_area_write api fa off buf len w = (ret, w') \<longrightarrow>
        (if unat off \<le> i \<and> i < unat off + unat len
         then ret = 0 \<longrightarrow> unat len \<le> length buf \<longrightarrow>
              (\<forall>k. unat off \<le> k \<and> k < unat off + unat len \<longrightarrow> mem w k = 255) \<longrightarrow>
              mem w' i = buf ! (i - unat off)
         else mem w' i = mem w i))"

definition flash_ok :: "'w flash_api \<Rightarrow> flash_area \<Rightarrow> ('w \<Rightarrow> nat \<Rightarrow> u8) \<Rightarrow> bool" where
  "flash_ok api fa mem \<longleftrightarrow>
     flash_read_ok api fa mem \<and> flash_erase_ok api fa mem \<and> flash_write_ok api fa mem"

record 'w port_env =
  pe_api :: "'w flash_api"
  pe_state :: port_state
  pe_mem :: "'w \<Rightarrow> nat \<Rightarrow> u8"
  pe_w :: 'w

definition pe_rd :: "'w port_env \<Rightarrow> 32 word \<Rightarrow> 32 word \<Rightarrow> int \<times> u8 list \<times> 'w port_env" where
  "pe_rd e a n = (case flashdb_port_read (pe_api e) (pe_state e) a n (pe_w e) of
     (ret, d, w) \<Rightarrow> (ret, d, e\<lparr>pe_w := w\<rparr>))"

definition pe_wr :: "'w port_env \<Rightarrow> 32 word \<Rightarrow> u8 list \<Rightarrow> 32 word \<Rightarrow> int \<times> 'w port_env" where
  "pe_wr e a b n = (case flashdb_port_write (pe_api e) (pe_state e) a b n (pe_w e) of
     (ret, w) \<Rightarrow> (ret, e\<lparr>pe_w := w\<rparr>))"

definition pe_er :: "'w port_env \<Rightarrow> 32 word \<Rightarrow> 32 word \<Rightarrow> int \<times> 'w port_env" where
  "pe_er e a n = (case flashdb_port_erase (pe_api e) (pe_state e) a n (pe_w e) of
     (ret, w) \<Rightarrow> (ret, e\<lparr>pe_w := w\<rparr>))"

definition pe_accept :: "'w port_env \<Rightarrow> 32 word \<Rightarrow> 32 word \<Rightarrow> bool" where
  "pe_accept e a n \<longleftrightarrow> flashdb_check_range (pe_state e) a n = 0"

definition pe_contents :: "'w port_env \<Rightarrow> nat \<Rightarrow> u8" where
  "pe_contents e = pe_mem e (pe_w e)"

definition pe_inv :: "'w port_env \<Rightarrow> bool" where
  "pe_inv e \<longleftrightarrow> (\<exists>fa. flashdb_area (pe_state e) = Some fa \<and> flash_ok (pe_api e) fa (pe_mem e))"

definition rc_zero :: "32 word \<Rightarrow> int \<Rightarrow> bool" where
  "rc_zero n ret \<longleftrightarrow> ret = 0"

lemmas pe_defs = pe_rd_def pe_wr_def pe_er_def pe_accept_def pe_contents_def pe_inv_def rc_zero_def

lemma flash_ok_read:
  assumes "flash_ok api fa mem" and "in_area fa off len"
    and "flash_area_read api fa off len w = (ret, d, w')"
  shows "mem w' = mem w"
    and "ret = 0 \<Longrightarrow> d = map (mem w) [unat off ..< unat off + unat len]"
  using assms unfolding flash_ok_def flash_read_ok_def by blast+

lemma flash_ok_erase:
  assumes "flash_ok api fa mem" and "in_area fa off len"
    and "flash_area_erase api fa off len w = (ret, w')"
  shows "i \<notin> {unat off ..< unat off + unat len} \<Longrightarrow> mem w' i = mem w i"
    and "ret = 0 \<Longrightarrow> i \<in> {unat off ..< unat off + unat len} \<Longrightarrow> mem w' i = 255"
proof -
  have "if unat off \<le> i \<and> i < unat off + unat len then ret = 0 \<longrightarrow> mem w' i = 255
        else mem w' i = mem w i"
    using assms unfolding flash_ok_def flash_erase_ok_def by blast
  then show "i \<notin> {unat off ..< unat off + unat len} \<Longrightarrow> mem w' i = mem w i"
    and "ret = 0 \<Longrightarrow> i \<in> {unat off ..< unat off + unat len} \<Longrightarrow> mem w' i = 255"
    by auto
qed

lemma flash_ok_write:
  assumes "flash_ok api fa mem" and "in_area fa off len"
    and "flash_area_write api fa off buf len w = (ret, w')"
  shows "i \<notin> {unat off ..< unat off + unat len} \<Longrightarrow> mem w' i = mem w i"
    and "ret = 0 \<Longrightarrow> unat len \<le> length buf \<Longrightarrow>
      (\<And>k. k \<in> {unat off ..< unat off + unat len} \<Longrightarrow> mem w k = 255) \<Longrightarrow>
      j < unat len \<Longrightarrow> mem w' (unat off + j) = buf ! j"
proof -
  have *: "if unat off \<le> i \<and> i < unat off + unat len
      then ret = 0 \<longrightarrow> unat len \<le> length buf \<longrightarrow>
              (\<forall>k. unat off \<le> k \<and> k < unat off + unat len \<longrightarrow> mem w k = 255) \<longrightarrow>
              mem w' i = buf ! (i - unat off)
      else mem w' i = mem w i" for i
    using assms unfolding flash_ok_def flash_write_ok_def by blast
  show "i \<notin> {unat off ..< unat off + unat len} \<Longrightarrow> mem w' i = mem w i"
    using * [of i] by auto
  show "ret = 0 \<Longrightarrow> unat len \<le> length buf \<Longrightarrow>
      (\<And>k. k \<in> {unat off ..< unat off + unat len} \<Longrightarrow> mem w k = 255) \<Longrightarrow>
      j < unat len \<Longrightarrow> mem w' (unat off + j) = buf ! j"
    using * [of "unat off + j"] by simp
qed

lemma pe_unfold:
  assumes "flashdb_area (pe_state e) = Some fa"
  shows "pe_rd e a n = (if in_area fa a n
           then (case flash_area_read (pe_api e) fa a n (pe_w e) of (r, d, w) \<Rightarrow> (r, d, e\<lparr>pe_w := w\<rparr>))
           else (- EINVAL, [], e))"
    and "pe_wr e a b n = (if in_area fa a n
           then (case flash_area_write (pe_api e) fa a b n (pe_w e) of (r, w) \<Rightarrow> (r, e\<lparr>pe_w := w\<rparr>))
           else (- EINVAL, e))"
    and "pe_er e a n = (if in_area fa a n
           then (case flash_area_erase (pe_api e) fa a n (pe_w e) of (r, w) \<Rightarrow> (r, e\<lparr>pe_w := w\<rparr>))
           else (- EINVAL, e))"
    and "pe_accept e a n \<longleftrightarrow> in_area fa a n"
  using assms by (simp_all add: pe_rd_def pe_wr_def pe_er_def port_ops_in_area pe_accept_def
      check_range_zero)

lemma pe_keep:
  "pe_rd e a n = (r, d, t) \<Longrightarrow> pe_inv e \<Longrightarrow> pe_inv t \<and> pe_accept t = pe_accept e"
  "pe_wr e a b n = (r, t) \<Longrightarrow> pe_inv e \<Longrightarrow> pe_inv t \<and> pe_accept t = pe_accept e"
  "pe_er e a n = (r, t) \<Longrightarrow> pe_inv e \<Longrightarrow> pe_inv t \<and> pe_accept t = pe_accept e"
  by (auto simp: pe_rd_def pe_wr_def pe_er_def pe_inv_def pe_accept_def fun_eq_iff
      split: prod.splits)

text \<open>An accepted request is one driver call inside the partition.\<close>

lemma pe_rdE:
  assumes "pe_inv e" and "pe_accept e a n" and "pe_rd e a n = (r, d, t)"
  obtains fa w where "flash_ok (pe_api e) fa (pe_mem e)" and "in_area fa a n"
    and "flash_area_read (pe_api e) fa a n (pe_w e) = (r, d, w)" and "t = e\<lparr>pe_w := w\<rparr>"
  using assms by (auto simp: pe_inv_def pe_unfold split: if_splits prod.splits)

lemma pe_wrE:
  assumes "pe_inv e" and "pe_accept e a n" and "pe_wr e a b n = (r, t)"
  obtains fa w where "flash_ok (pe_api e) fa (pe_mem e)" and "in_area fa a n"
    and "flash_area_write (pe_api e) fa a b n (pe_w e) = (r, w)" and "t = e\<lparr>pe_w := w\<rparr>"
  using assms by (auto simp: pe_inv_def pe_unfold split: if_splits prod.splits)

lemma pe_erE:
  assumes "pe_inv e" and "pe_accept e a n" and "pe_er e a n = (r, t)"
  obtains fa w where "flash_ok (pe_api e) fa (pe_mem e)" and "in_area fa a n"
    and "flash_area_erase (pe_api e) fa a n (pe_w e) = (r, w)" and "t = e\<lparr>pe_w := w\<rparr>"
  using assms by (auto simp: pe_inv_def pe_unfold split: if_splits prod.splits)

interpretation port: partition_io pe_rd pe_wr pe_er pe_accept rc_zero pe_contents pe_inv
proof (unfold_locales, goal_cases)
  case (1 s a n e d t)
  then show ?case by (auto simp: pe_inv_def pe_unfold rc_zero_def split: if_splits)
next
  case (2 s a n b e t)
  then show ?case by (auto simp: pe_inv_def pe_unfold rc_zero_def split: if_splits)
next
  case (3 s a n e t)
  then show ?case by (auto simp: pe_inv_def pe_unfold rc_zero_def split: if_splits)
next
  case (4 s a n e d t)
  then show ?case using pe_keep(1) by blast
next
  case (5 s a b n e t)
  then show ?case using pe_keep(2) by blast
next
  case (6 s a n e t)
  then show ?case using pe_keep(3) by blast
next
  case (7 s a n e d t)
  from this obtain fa w where c: "flash_ok (pe_api s) fa (pe_mem s)" "in_area fa a n"
    "flash_area_read (pe_api s) fa a n (pe_w s) = (e, d, w)" "t = s\<lparr>pe_w := w\<rparr>"
    by (rule pe_rdE)
  show ?case using flash_ok_read(1) [OF c(1-3)] c(4) by (simp add: pe_contents_def)
next
  case (8 s a n e d t)
  from 8(1-3) obtain fa w where c: "flash_ok (pe_api s) fa (pe_mem s)" "in_area fa a n"
    "flash_area_read (pe_api s) fa a n (pe_w s) = (e, d, w)" "t = s\<lparr>pe_w := w\<rparr>"
    by (rule pe_rdE)
  show ?case using flash_ok_read(2) [OF c(1-3)] 8(4) by (simp add: pe_contents_def rc_zero_def)
next
  case (9 s a n b e t i)
  from 9(1-3) obtain fa w where c: "flash_ok (pe_api s) fa (pe_mem s)" "in_area fa a n"
    "flash_area_write (pe_api s) fa a b n (pe_w s) = (e, w)" "t = s\<lparr>pe_w := w\<rparr>"
    by (rule pe_wrE)
  show ?case using flash_ok_write(1) [OF c(1-3) 9(4)] c(4) by (simp add: pe_contents_def)
next
  case (10 s a n b e t j)
  from 10(1-3) obtain fa w where c: "flash_ok (pe_api s) fa (pe_mem s)" "in_area fa a n"
    "flash_area_write (pe_api s) fa a b n (pe_w s) = (e, w)" "t = s\<lparr>pe_w := w\<rparr>"
    by (rule pe_wrE)
  show ?case
    using flash_ok_write(2) [OF c(1-3)] 10(4-7) c(4) by (simp add: rc_zero_def pe_contents_def)
next
  case (11 s a n e t i)
  from 11(1-3) obtain fa w where c: "flash_ok (pe_api s) fa (pe_mem s)" "in_area fa a n"
    "flash_area_erase (pe_api s) fa a n (pe_w s) = (e, w)" "t = s\<lparr>pe_w := w\<rparr>"
    by (rule pe_erE)
  show ?case using flash_ok_erase(1) [OF c(1-3) 11(4)] c(4) by (simp add: pe_contents_def)
next
  case (12 s a n e t i)
  from 12(1-3) obtain fa w where c: "flash_ok (pe_api s) fa (pe_mem s)" "in_area fa a n"
    "flash_area_erase (pe_api s) fa a n (pe_w s) = (e, w)" "t = s\<lparr>pe_w := w\<rparr>"
    by (rule pe_erE)
  show ?case
    using flash_ok_erase(2) [OF c(1-3) _ 12(5)] 12(4) c(4) by (simp add: rc_zero_def pe_contents_def)
qed

text \<open>A driver none of whose requests inside the partition fails.\<close>

definition flash_never_fails :: "'w flash_api \<Rightarrow> flash_area \<Rightarrow> bool" where
  "flash_never_fails api fa \<longleftrightarrow>
     (\<forall>off len w. in_area fa off len \<longrightarrow>
        fst (flash_area_read api fa off len w) = 0 \<and>
        fst (flash_area_erase api fa off len w) = 0 \<and>
        (\<forall>buf. fst (flash_area_write api fa off buf len w) = 0))"

lemma never_fails_ops:
  assumes "flash_never_fails api fa" and "flashdb_area s = Some fa" and "in_area fa off len"
  shows "\<exists>d w'. flashdb_port_read api s off len w = (0, d, w')"
    and "\<exists>w'. flashdb_port_erase api s off len w = (0, w')"
    and "\<exists>w'. flashdb_port_write api s off buf len w = (0, w')"
proof -
  have "fst (flash_area_read api fa off len w) = 0" "fst (flash_area_erase api fa off len w) = 0"
    "fst (flash_area_write api fa off buf len w) = 0"
    using assms(1,3) unfolding flash_never_fails_def by blast+
  then show "\<exists>d w'. flashdb_port_read api s off len w = (0, d, w')"
    and "\<exists>w'. flashdb_port_erase api s off len w = (0, w')"
    and "\<exists>w'. flashdb_port_write api s off buf len w = (0, w')"
    using assms(3)
    by (cases "flash_area_read api fa off len w"; cases "flash_area_erase api fa off len w";
        cases "flash_area_write api fa off buf len w"; simp add: port_ops_in_area [OF assms(2)])+
qed

section \<open>A simulated driver\<close>

text \<open>
  An in-memory flash for the concrete instances: the state is the partition's contents,
  every request inside it succeeds.
\<close>

definition sim_area :: flash_area where
  "sim_area = \<lparr>fa_off = 0, fa_size = 4096, fa_dev = 0\<rparr>"

definition sim_round_up :: "usize \<Rightarrow> usize \<Rightarrow> usize" where
  "sim_round_up x a = ((x + (a - 1)) div a) * a"

definition sim_flash :: "(nat \<Rightarrow> u8) flash_api" where
  "sim_flash = \<lparr>
     flash_area_open = (\<lambda>w. (0, sim_area, w)),
     flash_area_device_is_ready = (\<lambda>fa w. True),
     flash_get_page_info_by_offs = (\<lambda>dev off w. (0, 1024)),
     flash_area_align = (\<lambda>fa. 4),
     flash_area_read = (\<lambda>fa off len w. (0, map w [unat off ..< unat off + unat len], w)),
     flash_area_write = (\<lambda>fa off buf len w.
        (0, \<lambda>i. if unat off \<le> i \<and> i < unat off + unat len then buf ! (i - unat off) else w i)),
     flash_area_erase = (\<lambda>fa off len w.
        (0, \<lambda>i. if unat off \<le> i \<and> i < unat off + unat len then 255 else w i)),
     flash_ex_op_generic_read = (\<lambda>dev cmd w. (0, replicate (unat (NbData cmd)) 0, w)),
     flash_read_jedec_id = (\<lambda>dev w. (0, [0xC2, 0x20, 0x1A], w)),
     ROUND_UP = sim_round_up\<rparr>"

definition sim_port :: port_state where
  "sim_port = fst (snd (flashdb_port_init sim_flash port_state0 (\<lambda>i. 0)))"

lemma sim_port_eq:
  "sim_port = \<lparr>flashdb_area = Some sim_area, flashdb_erase_size = 1024, flashdb_write_align = 4\<rparr>"
  by (simp add: sim_port_def flashdb_port_init_def sim_flash_def port_state0_def Let_def)

lemma sim_flash_ok: "flash_ok sim_flash sim_area (\<lambda>w. w)"
  by (auto simp: flash_ok_def flash_read_ok_def flash_erase_ok_def flash_write_ok_def sim_flash_def)

lemma sim_flash_never_fails: "flash_never_fails sim_flash fa"
  by (simp add: flash_never_fails_def sim_flash_def)

lemma round_up_nat:
  fixes x a :: nat
  assumes "0 < a"
  shows "a dvd (x + (a - 1)) div a * a" "x \<le> (x + (a - 1)) div a * a" "(x + (a - 1)) div a * a < x + a"
proof -
  let ?r = "(x + (a - 1)) div a * a"
  have *: "?r + (x + (a - 1)) mod a = x + (a - 1)" by simp
  have "(x + (a - 1)) mod a < a" using assms by simp
  then show "x \<le> ?r" "?r < x + a" using * assms by linarith+
qed simp

lemma sim_round_up: "a \<noteq> 0 \<Longrightarrow> unat x + unat a \<le> 2 ^ 32 \<Longrightarrow>
   unat (sim_round_up x a) = (unat x + (unat a - 1)) div unat a * unat a"
proof -
  assume a: "a \<noteq> 0" and le: "unat x + unat a \<le> 2 ^ 32"
  have pos: "0 < unat a" using a by (simp add: unat_gt_0)
  have 1: "unat (a - 1) = unat a - 1" using a unat_minus_one by auto
  have 2: "unat (x + (a - 1)) = unat x + (unat a - 1)" using le pos
    by (simp add: unat_word_ariths(1) 1)
  have 3: "unat ((x + (a - 1)) div a) = (unat x + (unat a - 1)) div unat a"
    by (simp add: unat_div 2)
  have 4: "(unat x + (unat a - 1)) div unat a * unat a < 2 ^ 32"
    using round_up_nat(3) [OF pos, of "unat x"] le by linarith
  show ?thesis unfolding sim_round_up_def unat_word_ariths(2) 3 using 4 by simp
qed
definition sim_flash_wild :: "(nat \<Rightarrow> u8) flash_api" where
  "sim_flash_wild = sim_flash\<lparr>flash_area_read := (\<lambda>fa off len w.
     if in_area fa off len then flash_area_read sim_flash fa off len w else (0, [1, 2, 3], \<lambda>i. 0))\<rparr>"

theorem port_confined_witness:
  "flashdb_port_read sim_flash sim_port 4090 7 (\<lambda>i. 0) =
     flashdb_port_read sim_flash_wild sim_port 4090 7 (\<lambda>i. 0)"
proof -
  have "flashdb_area sim_port = Some sim_area" by (simp add: sim_port_eq)
  moreover have "drivers_agree sim_flash sim_flash_wild sim_area"
    by (simp add: drivers_agree_def sim_flash_wild_def sim_flash_def)
  ultimately show ?thesis
    using port_confined [of sim_port sim_area sim_flash sim_flash_wild] by blast
qed

section \<open>Erase, program and read back through the port\<close>

text \<open>
  On a driver that behaves as documented, a block erased, programmed and read back
  through the port gives the programmed bytes, and no byte outside the block changes.
\<close>

lemma port_program_round_trip:
  assumes "flashdb_area s = Some fa" and "flash_ok api fa mem"
    and "flashdb_port_erase api s off m w = (0, w1)"
    and "flashdb_port_write api s off buf n w1 = (0, w2)"
    and "flashdb_port_read api s off n w2 = (0, data, w3)"
    and "unat n \<le> length buf" and "unat n \<le> unat m"
    and "i < unat off \<or> unat off + unat m \<le> i"
  shows "data = take (unat n) buf \<and> mem w3 i = mem w i"
proof -
  let ?e = "\<lambda>w. \<lparr>pe_api = api, pe_state = s, pe_mem = mem, pe_w = w\<rparr>"
  have inv: "pe_inv (?e v)" for v using assms(1,2) by (simp add: pe_inv_def)
  have er: "pe_er (?e w) off m = (0, ?e w1)" and wr: "pe_wr (?e w1) off buf n = (0, ?e w2)"
    and rd: "pe_rd (?e w2) off n = (0, data, ?e w3)"
    using assms(3-5) by (simp_all add: pe_er_def pe_wr_def pe_rd_def)
  have z: "rc_zero k 0" for k by (simp add: rc_zero_def)
  have "pe_contents (?e w3) i = pe_contents (?e w) i"
    using port.rd_state [OF inv rd] port.erase_program_contents [OF inv er z wr z assms(6,7)]
      assms(7,8) by auto
  then show ?thesis
    using port.program_read_back [OF inv er z wr z assms(6,7) rd z] by (simp add: pe_contents_def)
qed

lemma port_program_round_trip_witness:
  "\<exists>w1 w2 data w3.
     flashdb_port_erase sim_flash sim_port 1024 1024 (\<lambda>i. 7) = (0, w1) \<and>
     flashdb_port_write sim_flash sim_port 1024 [10, 20, 30] 3 w1 = (0, w2) \<and>
     flashdb_port_read sim_flash sim_port 1024 3 w2 = (0, data, w3) \<and>
     data = [10, 20, 30] \<and> w3 5 = 7"
proof -
  have area: "flashdb_area sim_port = Some sim_area" by (simp add: sim_port_eq)
  have ia: "in_area sim_area 1024 1024" "in_area sim_area 1024 3"
    by (simp_all add: in_area_def sim_area_def sint32_cases)
  obtain w1 where 1: "flashdb_port_erase sim_flash sim_port 1024 1024 (\<lambda>i. 7) = (0, w1)"
    using never_fails_ops(2) [OF sim_flash_never_fails area ia(1)] by blast
  obtain w2 where 2: "flashdb_port_write sim_flash sim_port 1024 [10, 20, 30] 3 w1 = (0, w2)"
    using never_fails_ops(3) [OF sim_flash_never_fails area ia(2)] by blast
  obtain data w3 where 3: "flashdb_port_read sim_flash sim_port 1024 3 w2 = (0, data, w3)"
    using never_fails_ops(1) [OF sim_flash_never_fails area ia(2)] by blast
  have "data = [10, 20, 30] \<and> w3 5 = 7"
    using port_program_round_trip [OF area sim_flash_ok 1 2 3, of 5] by simp
  with 1 2 3 show ?thesis by blast
qed

end
