(* ===== verification/FlashSelfTest.thy ===== *)
theory FlashSelfTest
  imports FlashPort
begin

text \<open>
  The boot-time self test of \<^verbatim>\<open>ATS-M7/src/flashdb_port_zephyr.c\<close>: erase the first
  block, program a padded test message, read it back and compare. The theorems say what a
  successful run leaves in the partition, and that it succeeds on a driver that behaves as
  documented.
\<close>

section \<open>The boot-time self test\<close>

text \<open>\<^verbatim>\<open>const char msg[]\<close>, with its terminating NUL.\<close>

definition self_test_msg :: "u8 list" where
  "self_test_msg = map of_char ''flashdb-qspi-test'' @ [0]"

definition flashdb_port_self_test :: "'w flash_api \<Rightarrow> port_state \<Rightarrow> 'w \<Rightarrow> int \<times> 'w" where
  "flashdb_port_self_test api s w =
     (case flashdb_area s of
        None \<Rightarrow> (- EACCES, w)
      | Some fa \<Rightarrow>
          let align0 = flash_area_align api fa;
              align = (if align0 = 0 then 1 else align0);
              wr_len = ROUND_UP api (of_nat (length self_test_msg)) align in
          if wr_len > 64 then (- ENOMEM, w)
          else
            let tx = mem_write (replicate 64 0xFF) 0 self_test_msg;
                rx = replicate 64 0;
                (ret, w1) = flashdb_port_erase api s 0 (flashdb_erase_size s) w in
            if ret \<noteq> 0 then (ret, w1)
            else
              let (ret, w2) = flashdb_port_write api s 0 tx wr_len w1 in
              if ret \<noteq> 0 then (ret, w2)
              else
                let (ret, data, w3) = flashdb_port_read api s 0 wr_len w2 in
                if ret \<noteq> 0 then (ret, w3)
                else if \<not> mem_eq tx (mem_write rx 0 data) (unat wr_len) then (- EIO, w3)
                else (0, w3))"

definition round_up_ok :: "'w flash_api \<Rightarrow> bool" where
  "round_up_ok api \<longleftrightarrow>
     (\<forall>x a. a \<noteq> 0 \<longrightarrow> unat x + unat a \<le> 2 ^ 32 \<longrightarrow>
        unat a dvd unat (ROUND_UP api x a) \<and>
        unat x \<le> unat (ROUND_UP api x a) \<and> unat (ROUND_UP api x a) < unat x + unat a)"

definition self_test_wr_len :: "'w flash_api \<Rightarrow> flash_area \<Rightarrow> usize" where
  "self_test_wr_len api fa =
     (let a = flash_area_align api fa in ROUND_UP api 18 (if a = 0 then 1 else a))"

definition self_test_tx :: "u8 list" where
  "self_test_tx = mem_write (replicate 64 0xFF) 0 self_test_msg"

lemma length_self_test_msg [simp]: "length self_test_msg = 18"
  by (simp add: self_test_msg_def)

lemma length_self_test_tx [simp]: "length self_test_tx = 64"
  by (simp add: self_test_tx_def)

lemma self_test_tx_nth:
  "i < 64 \<Longrightarrow> self_test_tx ! i = (if i < 18 then self_test_msg ! i else 255)"
  by (simp add: self_test_tx_def nth_mem_write)

lemma self_test_wr_len_ge:
  assumes "round_up_ok api" and "unat (flash_area_align api fa) < 2 ^ 31"
  shows "18 \<le> unat (self_test_wr_len api fa)"
proof -
  let ?a = "if flash_area_align api fa = 0 then 1 else flash_area_align api fa"
  have "?a \<noteq> 0" and "unat (18 :: 32 word) + unat ?a \<le> 2 ^ 32" using assms(2) by auto
  then have "unat (18 :: 32 word) \<le> unat (ROUND_UP api 18 ?a)"
    using assms(1) unfolding round_up_ok_def by blast
  then show ?thesis by (simp add: self_test_wr_len_def Let_def)
qed

text \<open>The self test as its three requests; \<open>er\<close>, \<open>wr\<close> and \<open>rd\<close> are the calls it makes.\<close>

lemma self_test_unfold:
  assumes "flashdb_area s = Some fa"
  shows "flashdb_port_self_test api s w =
    (let n = self_test_wr_len api fa in
     if 64 < n then (- ENOMEM, w)
     else case flashdb_port_erase api s 0 (flashdb_erase_size s) w of (r1, w1) \<Rightarrow>
       if r1 \<noteq> 0 then (r1, w1)
       else case flashdb_port_write api s 0 self_test_tx n w1 of (r2, w2) \<Rightarrow>
         if r2 \<noteq> 0 then (r2, w2)
         else case flashdb_port_read api s 0 n w2 of (r3, d, w3) \<Rightarrow>
           if r3 \<noteq> 0 then (r3, w3)
           else if mem_eq self_test_tx (mem_write (replicate 64 0) 0 d) (unat n) then (0, w3)
           else (- EIO, w3))"
  using assms
  by (simp add: flashdb_port_self_test_def self_test_wr_len_def self_test_tx_def Let_def
      split: prod.splits)

lemma self_test_zeroE:
  assumes "flashdb_area s = Some fa" and "flashdb_port_self_test api s w = (0, w3)"
  obtains w1 w2 d where "unat (self_test_wr_len api fa) \<le> 64"
    and "flashdb_port_erase api s 0 (flashdb_erase_size s) w = (0, w1)"
    and "flashdb_port_write api s 0 self_test_tx (self_test_wr_len api fa) w1 = (0, w2)"
    and "flashdb_port_read api s 0 (self_test_wr_len api fa) w2 = (0, d, w3)"
  using assms(2)
  by (auto simp: self_test_unfold [OF assms(1)] Let_def word_less_nat_alt not_less
      split: if_splits prod.splits)

lemma self_test_contents:
  assumes area: "flashdb_area s = Some fa" and ok: "flash_ok api fa mem"
    and up: "round_up_ok api" and align: "unat (flash_area_align api fa) < 2 ^ 31"
    and block: "64 \<le> unat (flashdb_erase_size s)"
    and run: "flashdb_port_self_test api s w = (0, w')"
  shows "mem w' i =
    (if i < 18 then self_test_msg ! i
     else if i < unat (flashdb_erase_size s) then 255 else mem w i)"
proof -
  let ?n = "self_test_wr_len api fa"
  let ?e = "\<lambda>w. \<lparr>pe_api = api, pe_state = s, pe_mem = mem, pe_w = w\<rparr>"
  obtain w1 w2 d where n: "unat ?n \<le> 64"
    and er: "flashdb_port_erase api s 0 (flashdb_erase_size s) w = (0, w1)"
    and wr: "flashdb_port_write api s 0 self_test_tx ?n w1 = (0, w2)"
    and rd: "flashdb_port_read api s 0 ?n w2 = (0, d, w')"
    using area run by (rule self_test_zeroE)
  have inv: "pe_inv (?e v)" for v using area ok by (simp add: pe_inv_def)
  have er': "pe_er (?e w) 0 (flashdb_erase_size s) = (0, ?e w1)"
    and wr': "pe_wr (?e w1) 0 self_test_tx ?n = (0, ?e w2)"
    and rd': "pe_rd (?e w2) 0 ?n = (0, d, ?e w')"
    using er wr rd by (simp_all add: pe_er_def pe_wr_def pe_rd_def)
  have "pe_contents (?e w') i = pe_contents (?e w2) i"
    using port.rd_state [OF inv rd'] by simp
  also have "\<dots> = (if i < unat ?n then self_test_tx ! i
      else if i < unat (flashdb_erase_size s) then 255 else pe_contents (?e w) i)"
    using port.erase_program_contents [OF inv er' _ wr'] n block by (simp add: rc_zero_def)
  finally show ?thesis
    using self_test_wr_len_ge [OF up align] n block
    by (simp add: pe_contents_def self_test_tx_nth)
qed

text \<open>Whatever it returns, the self test changes nothing outside the first erase block.\<close>

lemma port_call_confined:
  assumes area: "flashdb_area s = Some fa" and ok: "flash_ok api fa mem" and i: "i \<notin> {unat a ..< unat a + unat n}"
  shows "flashdb_port_write api s a b n w = (r, w') \<Longrightarrow> mem w' i = mem w i"
    and "flashdb_port_erase api s a n w = (r, w') \<Longrightarrow> mem w' i = mem w i"
    and "flashdb_port_read api s a m w = (r, d, w') \<Longrightarrow> mem w' i = mem w i"
proof -
  let ?e = "\<lambda>w. \<lparr>pe_api = api, pe_state = s, pe_mem = mem, pe_w = w\<rparr>"
  have inv: "pe_inv (?e v)" for v using area ok by (simp add: pe_inv_def)
  show "mem w' i = mem w i" if "flashdb_port_write api s a b n w = (r, w')"
  proof -
    have "pe_wr (?e w) a b n = (r, ?e w')" using that by (simp add: pe_wr_def)
    from port.wr_outside [OF inv this i] show ?thesis by (simp add: pe_contents_def)
  qed
  show "mem w' i = mem w i" if "flashdb_port_erase api s a n w = (r, w')"
  proof -
    have "pe_er (?e w) a n = (r, ?e w')" using that by (simp add: pe_er_def)
    from port.er_outside [OF inv this i] show ?thesis by (simp add: pe_contents_def)
  qed
  show "mem w' i = mem w i" if "flashdb_port_read api s a m w = (r, d, w')"
  proof -
    have "pe_rd (?e w) a m = (r, d, ?e w')" using that by (simp add: pe_rd_def)
    from port.rd_state [OF inv this] show ?thesis by (simp add: pe_contents_def)
  qed
qed

lemma self_test_confined:
  assumes area: "flashdb_area s = Some fa" and ok: "flash_ok api fa mem"
    and block: "64 \<le> unat (flashdb_erase_size s)" and i: "unat (flashdb_erase_size s) \<le> i"
    and run: "flashdb_port_self_test api s w = (r, w')"
  shows "mem w' i = mem w i"
proof -
  let ?n = "self_test_wr_len api fa"
  have er: "mem v i = mem u i" if "flashdb_port_erase api s 0 (flashdb_erase_size s) u = (e, v)" for e u v
    using port_call_confined(2) [OF area ok _ that] i by simp
  have wr: "mem v i = mem u i" if "flashdb_port_write api s 0 self_test_tx ?n u = (e, v)" "\<not> 64 < ?n" for e u v
    using port_call_confined(1) [OF area ok _ that(1)] that(2) i block by (simp add: word_less_nat_alt)
  have rd: "mem v i = mem u i" if "flashdb_port_read api s 0 ?n u = (e, d, v)" for e d u v
    using port_call_confined(3) [OF area ok _ that, of i 0] by simp
  show ?thesis
    using run by (auto simp: self_test_unfold [OF area] Let_def split: if_splits prod.splits dest!: er wr rd)
qed

text \<open>
  Whatever the partition held, a self test that succeeds leaves its first erase block
  with the test message followed by erased bytes, and the rest of the partition as it was.
\<close>

theorem self_test_overwrites_first_block:
  assumes area: "flashdb_area s = Some fa" and ok: "flash_ok api fa mem"
    and up: "round_up_ok api" and align: "unat (flash_area_align api fa) < 2 ^ 31"
    and block: "64 \<le> unat (flashdb_erase_size s)"
    and run: "flashdb_port_self_test api s w = (0, w')"
  shows "mem w' i =
    (if i < 18 then self_test_msg ! i
     else if i < unat (flashdb_erase_size s) then 255 else mem w i)"
  using assms by (rule self_test_contents)

lemma self_test_returns_zero:
  assumes area: "flashdb_area s = Some fa" and ok: "flash_ok api fa mem"
    and live: "flash_never_fails api fa"
    and len: "self_test_wr_len api fa \<le> 64" and block: "64 \<le> unat (flashdb_erase_size s)"
    and fits: "unat (flashdb_erase_size s) \<le> unat (fa_size fa)"
  shows "fst (flashdb_port_self_test api s w) = 0"
proof -
  let ?n = "self_test_wr_len api fa" and ?m = "flashdb_erase_size s"
  let ?e = "\<lambda>w. \<lparr>pe_api = api, pe_state = s, pe_mem = mem, pe_w = w\<rparr>"
  have n: "unat ?n \<le> 64" using len by (simp add: word_le_nat_alt)
  have ia: "in_area fa 0 ?m" "in_area fa 0 ?n" using n block fits by (simp_all add: in_area_def)
  obtain w1 where er: "flashdb_port_erase api s 0 ?m w = (0, w1)"
    using never_fails_ops(2) [OF live area ia(1)] by blast
  obtain w2 where wr: "flashdb_port_write api s 0 self_test_tx ?n w1 = (0, w2)"
    using never_fails_ops(3) [OF live area ia(2)] by blast
  obtain d w3 where rd: "flashdb_port_read api s 0 ?n w2 = (0, d, w3)"
    using never_fails_ops(1) [OF live area ia(2)] by blast
  have inv: "pe_inv (?e v)" for v using area ok by (simp add: pe_inv_def)
  have "pe_er (?e w) 0 ?m = (0, ?e w1)" "pe_wr (?e w1) 0 self_test_tx ?n = (0, ?e w2)"
    "pe_rd (?e w2) 0 ?n = (0, d, ?e w3)"
    using er wr rd by (simp_all add: pe_er_def pe_wr_def pe_rd_def)
  from port.program_read_back [OF inv this(1) _ this(2) _ _ _ this(3)]
  have "d = take (unat ?n) self_test_tx" using n block by (simp add: rc_zero_def)
  then have "mem_eq self_test_tx (mem_write (replicate 64 0) 0 d) (unat ?n)"
    using n by (simp add: mem_eq_def mem_write_def min_def)
  then show ?thesis
    using len by (simp add: self_test_unfold [OF area] er wr rd Let_def)
qed

section \<open>The self test on the simulated driver\<close>

lemma sim_round_up_ok: "round_up_ok sim_flash"
  unfolding round_up_ok_def
proof (intro allI impI)
  fix x a :: "32 word" assume a: "a \<noteq> 0" and le: "unat x + unat a \<le> 2 ^ 32"
  have pos: "0 < unat a" using a by (simp add: unat_gt_0)
  have r: "ROUND_UP sim_flash x a = sim_round_up x a" by (simp add: sim_flash_def)
  show "unat a dvd unat (ROUND_UP sim_flash x a) \<and> unat x \<le> unat (ROUND_UP sim_flash x a)
     \<and> unat (ROUND_UP sim_flash x a) < unat x + unat a" unfolding r sim_round_up [OF a le] using round_up_nat [OF pos, of "unat x"] by (intro conjI)
qed
lemma sim_wr_len: "self_test_wr_len sim_flash sim_area = 20"
  by (simp add: self_test_wr_len_def sim_flash_def sim_round_up_def Let_def)

lemma sim_self_test: "fst (flashdb_port_self_test sim_flash sim_port w) = 0"
  by (rule self_test_returns_zero [where fa = sim_area and mem = "\<lambda>w. w"])
     (simp_all add: sim_port_eq sim_wr_len sim_flash_ok sim_flash_never_fails, simp add: sim_area_def)

theorem self_test_overwrites_first_block_witness:
  "\<exists>w'. flashdb_port_self_test sim_flash sim_port (\<lambda>i. 170) = (0, w') \<and>
     w' 0 = of_char (CHR ''f'') \<and> w' 20 = 255 \<and> w' 1023 = 255 \<and> w' 1024 = 170"
proof -
  obtain w' where run: "flashdb_port_self_test sim_flash sim_port (\<lambda>i. 170) = (0, w')"
    using sim_self_test [of "\<lambda>i. 170"] by (metis prod.collapse)
  have area: "flashdb_area sim_port = Some sim_area" by (simp add: sim_port_eq)
  have "unat (flash_area_align sim_flash sim_area) < 2 ^ 31" "64 \<le> unat (flashdb_erase_size sim_port)"
    by (simp_all add: sim_flash_def sim_port_eq)
  note post = self_test_overwrites_first_block [OF area sim_flash_ok sim_round_up_ok this run]
  have "w' 0 = of_char (CHR ''f'')" "w' 20 = 255" "w' 1023 = 255" "w' 1024 = 170"
    using post [of 0] post [of 20] post [of 1023] post [of 1024]
    by (simp_all add: sim_port_eq self_test_msg_def)
  with run show ?thesis by blast
qed

text \<open>
  The self test succeeds on every driver that behaves as documented and completes the
  requests inside the partition, if the padded message fits the 64-byte buffer and the
  first erase block holds that buffer and lies inside the partition.
\<close>

theorem self_test_succeeds:
  assumes "flashdb_area s = Some fa" and "flash_ok api fa mem" and "flash_never_fails api fa"
    and "self_test_wr_len api fa \<le> 64" and "64 \<le> unat (flashdb_erase_size s)"
    and "unat (flashdb_erase_size s) \<le> unat (fa_size fa)"
  shows "\<exists>w'. flashdb_port_self_test api s w = (0, w')"
  using self_test_returns_zero [OF assms, of w] by (metis prod.collapse)

theorem self_test_succeeds_witness:
  "\<exists>w'. flashdb_port_self_test sim_flash sim_port (\<lambda>i. 0) = (0, w')"
proof (rule self_test_succeeds [where mem = "\<lambda>w. w"])
  show "flashdb_area sim_port = Some sim_area" by (simp add: sim_port_eq)
  show "self_test_wr_len sim_flash sim_area \<le> 64" by (simp add: sim_wr_len)
  show "unat (flashdb_erase_size sim_port) \<le> unat (fa_size sim_area)"
    by (simp add: sim_port_eq sim_area_def)
qed (simp_all add: sim_flash_ok sim_flash_never_fails sim_port_eq)

end
