(* ===== verification/FlashIdent.thy ===== *)
theory FlashIdent
  imports FlashPort
begin

text \<open>
  The two identification dumps of \<^verbatim>\<open>ATS-M7/src/flashdb_port_zephyr.c\<close>: the raw
  RDID reads with their fallback to the JEDEC call, and the SFDP dump that walks the
  parameter headers to the basic flash parameter table and extracts the QER field of its
  DWORD 15. Their console output is part of the model (\<open>port_msg\<close>). The theorems: the
  header loop finds the first usable table, reads nothing outside the buffer, and the
  printed QER field is bits 20 to 22 of the table's DWORD.
\<close>

text \<open>The build options the preprocessor tests; both hold in \<^verbatim>\<open>prj.conf\<close>.\<close>

record port_config =
  cfg_generic_read :: bool  \<comment> \<open>\<^verbatim>\<open>CONFIG_FLASH_EX_OP_ENABLED && CONFIG_FLASH_STM32_QSPI_GENERIC_READ\<close>\<close>
  cfg_jesd216 :: bool       \<comment> \<open>\<^verbatim>\<open>CONFIG_FLASH_JESD216_API\<close>\<close>

section \<open>Raw reads\<close>

definition qspi_read_id_raw ::
  "'w flash_api \<Rightarrow> device \<Rightarrow> u8 \<Rightarrow> qspi_const \<Rightarrow> qspi_const \<Rightarrow> usize \<Rightarrow> 'w \<Rightarrow> int \<times> u8 list \<times> 'w" where
  "qspi_read_id_raw api dev opcode instr_mode data_mode out_len w =
     flash_ex_op_generic_read api dev
       \<lparr>Instruction = opcode, Address = 0, AddressSize = QSPI_ADDRESS_NONE,
        AddressMode = QSPI_ADDRESS_NONE, DummyCycles = 0, InstructionMode = instr_mode,
        DataMode = data_mode, NbData = out_len\<rparr> w"

definition qspi_read_sfdp_raw_custom ::
  "'w flash_api \<Rightarrow> device \<Rightarrow> u32 \<Rightarrow> u8 \<Rightarrow> qspi_const \<Rightarrow> usize \<Rightarrow> 'w \<Rightarrow> int \<times> u8 list \<times> 'w" where
  "qspi_read_sfdp_raw_custom api dev addr dummy_cycles addr_size out_len w =
     flash_ex_op_generic_read api dev
       \<lparr>Instruction = 0x5A, Address = addr, AddressSize = addr_size,
        AddressMode = QSPI_ADDRESS_1_LINE, DummyCycles = ucast dummy_cycles,
        InstructionMode = QSPI_INSTRUCTION_1_LINE, DataMode = QSPI_DATA_1_LINE,
        NbData = out_len\<rparr> w"

definition qspi_read_sfdp_raw ::
  "'w flash_api \<Rightarrow> device \<Rightarrow> u32 \<Rightarrow> usize \<Rightarrow> 'w \<Rightarrow> int \<times> u8 list \<times> 'w" where
  "qspi_read_sfdp_raw api dev addr out_len w =
     qspi_read_sfdp_raw_custom api dev addr 8 QSPI_ADDRESS_24_BITS out_len w"

definition u32_from_le_bytes :: "u8 list \<Rightarrow> u32" where
  "u32_from_le_bytes p =
     ucast (p ! 0) OR push_bit 8 (ucast (p ! 1)) OR push_bit 16 (ucast (p ! 2))
       OR push_bit 24 (ucast (p ! 3))"

section \<open>The identification dumps\<close>

datatype port_msg =
    MsgRdid u8 "u8 list"            \<comment> \<open>the four bytes a RDID opcode read\<close>
  | MsgRdidDecode "u8 list"
  | MsgRdidFailed u8 int
  | MsgRdidAllFailed
  | MsgJedecFailed int
  | MsgJedec "u8 list"
  | MsgJedecUnavailable
  | MsgSfdpReadFailed int
  | MsgSfdpHeader "u8 list" u32 u8 u8 u8 u8  \<comment> \<open>magic bytes, magic, rev major, rev minor, nph, access\<close>
  | MsgSfdpMagicMismatch
  | MsgPhTruncated nat
  | MsgPh nat u16 u8 u32 u8 u8    \<comment> \<open>index, id, length, address, rev major, rev minor\<close>
  | MsgBfpTooShort usize
  | MsgBfpReadFailed u32 int
  | MsgDw15 u32 "u8 list" u32 u32  \<comment> \<open>address, bytes, DW15, QER\<close>
  | MsgSfdpUnavailable

definition jedec_fallback ::
  "port_config \<Rightarrow> 'w flash_api \<Rightarrow> flash_area \<Rightarrow> 'w \<Rightarrow> int \<times> port_msg list \<times> 'w" where
  "jedec_fallback cfg api fa w =
     (if cfg_jesd216 cfg then
        let (ret, data, w1) = flash_read_jedec_id api (fa_dev fa) w;
            ident = mem_write (replicate 3 0) 0 data in
        if ret \<noteq> 0 then (ret, [MsgJedecFailed ret], w1) else (0, [MsgJedec ident], w1)
      else (- ENOTSUP, [MsgJedecUnavailable], w))"

definition flashdb_port_print_jedec_id ::
  "port_config \<Rightarrow> 'w flash_api \<Rightarrow> port_state \<Rightarrow> 'w \<Rightarrow> int \<times> port_msg list \<times> 'w" where
  "flashdb_port_print_jedec_id cfg api s w =
     (case flashdb_area s of
        None \<Rightarrow> (- EACCES, [], w)
      | Some fa \<Rightarrow>
          if cfg_generic_read cfg then
            let (ret_9f, d9f, w1) =
                  qspi_read_id_raw api (fa_dev fa) 0x9F QSPI_INSTRUCTION_1_LINE QSPI_DATA_1_LINE 4 w;
                (ret_9e, d9e, w2) =
                  qspi_read_id_raw api (fa_dev fa) 0x9E QSPI_INSTRUCTION_1_LINE QSPI_DATA_1_LINE 4 w1;
                id_9f = mem_write (replicate 4 0) 0 d9f;
                id_9e = mem_write (replicate 4 0) 0 d9e;
                out = (if ret_9f = 0 then [MsgRdid 0x9F id_9f, MsgRdidDecode id_9f]
                       else [MsgRdidFailed 0x9F ret_9f])
                    @ (if ret_9e = 0 then [MsgRdid 0x9E id_9e] else [MsgRdidFailed 0x9E ret_9e]) in
            if ret_9f = 0 \<or> ret_9e = 0 then (0, out, w2)
            else
              let (ret, out', w3) = jedec_fallback cfg api fa w2 in
              (ret, out @ MsgRdidAllFailed # out', w3)
          else jedec_fallback cfg api fa w)"

text \<open>The fields of the parameter header at byte offset \<open>off\<close>.\<close>

definition ph_id :: "u8 list \<Rightarrow> nat \<Rightarrow> u16" where
  "ph_id hdr off = push_bit 8 (ucast (hdr ! (off + 7))) OR ucast (hdr ! (off + 0))"

definition ph_addr :: "u8 list \<Rightarrow> nat \<Rightarrow> u32" where
  "ph_addr hdr off =
     ucast (hdr ! (off + 4)) OR push_bit 8 (ucast (hdr ! (off + 5)))
       OR push_bit 16 (ucast (hdr ! (off + 6)))"

text \<open>
  The loop over the parameter headers: \<open>i\<close> is the loop variable, \<open>bfp_addr\<close> and
  \<open>bfp_len_dw\<close> the variables it assigns. The buffer \<open>hdr\<close> has \<^verbatim>\<open>sizeof(sfdp_hdr)\<close>
  bytes.
\<close>

function sfdp_ph_loop :: "u8 list \<Rightarrow> nat \<Rightarrow> nat \<Rightarrow> u32 \<Rightarrow> usize \<Rightarrow> port_msg list \<times> u32 \<times> usize" where
  "sfdp_ph_loop hdr ph_count i bfp_addr bfp_len_dw =
     (if i < ph_count then
        let off = 8 + i * 8 in
        if off + 7 \<ge> length hdr then ([MsgPhTruncated i], bfp_addr, bfp_len_dw)
        else
          let ident = ph_id hdr off;
              len_dw = hdr ! (off + 3);
              addr = ph_addr hdr off;
              msg = MsgPh i ident len_dw addr (hdr ! (off + 2)) (hdr ! (off + 1));
              (addr', len') =
                (if ident = 0xFF00 \<and> bfp_len_dw = 0 then (addr, ucast len_dw)
                 else (bfp_addr, bfp_len_dw));
              (out, res) = sfdp_ph_loop hdr ph_count (i + 1) addr' len' in
          (msg # out, res)
      else ([], bfp_addr, bfp_len_dw))"
  by pat_completeness auto
termination
  by (relation "measure (\<lambda>(hdr, ph_count, i, a, l). ph_count - i)") auto

declare sfdp_ph_loop.simps [simp del]

definition flashdb_port_print_sfdp_dw15 ::
  "port_config \<Rightarrow> 'w flash_api \<Rightarrow> port_state \<Rightarrow> 'w \<Rightarrow> int \<times> port_msg list \<times> 'w" where
  "flashdb_port_print_sfdp_dw15 cfg api s w =
     (case flashdb_area s of
        None \<Rightarrow> (- EACCES, [], w)
      | Some fa \<Rightarrow>
          if cfg_generic_read cfg then
            let (ret, data, w1) = qspi_read_sfdp_raw api (fa_dev fa) 0 64 w;
                hdr = mem_write (replicate 64 0) 0 data in
            if ret \<noteq> 0 then (ret, [MsgSfdpReadFailed ret], w1)
            else
              let magic = u32_from_le_bytes hdr;
                  nph = hdr ! 6;
                  ph_count = unat nph + 1;
                  out1 = [MsgSfdpHeader (take 4 hdr) magic (hdr ! 5) (hdr ! 4) nph (hdr ! 7)] in
              if magic \<noteq> 0x50444653 then (- EINVAL, out1 @ [MsgSfdpMagicMismatch], w1)
              else
                let (out2, bfp_addr, bfp_len_dw) = sfdp_ph_loop hdr ph_count 0 0 0 in
                if bfp_len_dw < 15 then
                  (- ENOTSUP, out1 @ out2 @ [MsgBfpTooShort bfp_len_dw], w1)
                else
                  let (ret, bdata, w2) = qspi_read_sfdp_raw api (fa_dev fa) bfp_addr 80 w1;
                      bfp = mem_write (replicate 80 0) 0 bdata in
                  if ret \<noteq> 0 then (ret, out1 @ out2 @ [MsgBfpReadFailed bfp_addr ret], w2)
                  else
                    let dw15_off = (15 - 1) * 4;
                        dw15 = u32_from_le_bytes (drop dw15_off bfp);
                        qer = drop_bit 20 dw15 AND 7 in
                    (0, out1 @ out2 @
                        [MsgDw15 (bfp_addr + of_nat dw15_off) (take 4 (drop dw15_off bfp)) dw15 qer], w2)
          else (- ENOTSUP, [MsgSfdpUnavailable], w))"

section \<open>Little-endian words\<close>

lemma u32_from_le_bytes_sum:
  "u32_from_le_bytes (a # b # c # d # r) =
     ucast a + push_bit 8 (ucast b) + push_bit 16 (ucast c) + push_bit 24 (ucast d)"
proof -
  let ?a = "ucast a :: u32" and ?b = "push_bit 8 (ucast b) :: u32"
    and ?c = "push_bit 16 (ucast c) :: u32" and ?d = "push_bit 24 (ucast d) :: u32"
  have "?c + ?d = ?c OR ?d"
    and "?b + (?c OR ?d) = ?b OR ?c OR ?d"
    and "?a + (?b OR ?c OR ?d) = ?a OR ?b OR ?c OR ?d"
    by (rule disjunctive_add; auto simp: bit_simps dest: bit_imp_le_length)+
  then have "?a OR ?b OR ?c OR ?d = ?a + ?b + ?c + ?d"
    by (simp only: add.assoc)
  moreover have "(a # b # c # d # r) ! 0 = a" "(a # b # c # d # r) ! 1 = b"
    "(a # b # c # d # r) ! 2 = c" "(a # b # c # d # r) ! 3 = d" by simp_all
  ultimately show ?thesis by (simp only: u32_from_le_bytes_def)
qed

definition le32_bytes :: "u32 \<Rightarrow> u8 list" where
  "le32_bytes v = [ucast v, ucast (drop_bit 8 v), ucast (drop_bit 16 v), ucast (drop_bit 24 v)]"

lemma u32_from_le_bytes_roundtrip: "u32_from_le_bytes (le32_bytes v @ r) = v"
proof (rule bit_word_eqI)
  fix n assume "n < LENGTH(32)"
  then have n: "n < 32" by simp
  then consider "n < 8" | "8 \<le> n" "n < 16" | "16 \<le> n" "n < 24" | "24 \<le> n" "n < 32" by linarith
  then show "bit (u32_from_le_bytes (le32_bytes v @ r)) n = bit v n"
    by cases (auto simp: u32_from_le_bytes_def le32_bytes_def bit_simps)
qed

lemma le32_bytes_u32_from:
  assumes "4 \<le> length p"
  shows "le32_bytes (u32_from_le_bytes p) = take 4 p"
proof -
  obtain a b c d r where p: "p = a # b # c # d # r"
    using assms by (auto simp: numeral_eq_Suc Suc_le_length_iff)
  let ?v = "ucast a OR push_bit 8 (ucast b) OR push_bit 16 (ucast c) OR push_bit 24 (ucast d) :: u32"
  have high: "\<not> bit x (8 + n)" for x :: u8 and n using bit_imp_le_length [of x "8 + n"] by auto
  have "ucast ?v = a" "ucast (drop_bit 8 ?v) = b" "ucast (drop_bit 16 ?v) = c" "ucast (drop_bit 24 ?v) = d"
    using high high [of _ "8 + n" for n] high [of _ "16 + n" for n]
    by (auto simp: bit_eq_iff bit_simps dest: bit_imp_le_length)
  moreover have "u32_from_le_bytes p = ?v" by (simp add: p u32_from_le_bytes_def)
  ultimately show ?thesis by (simp add: p le32_bytes_def)
qed

section \<open>The header loop\<close>

definition ph_usable :: "u8 list \<Rightarrow> nat \<Rightarrow> bool" where
  "ph_usable hdr k \<longleftrightarrow> ph_id hdr (8 + k * 8) = 0xFF00 \<and> hdr ! (8 + k * 8 + 3) \<noteq> 0"

definition first_usable :: "u8 list \<Rightarrow> nat \<Rightarrow> nat \<Rightarrow> nat option" where
  "first_usable hdr i n = find (ph_usable hdr) [i ..< min n (length hdr div 8 - Suc 0)]"

lemma ph_in_buffer: "8 + i * 8 + 7 < length hdr \<longleftrightarrow> i < length hdr div 8 - (1::nat)"
  by linarith

lemma sfdp_ph_loop_found:
  assumes "bfp_len \<noteq> 0"
  shows "snd (sfdp_ph_loop hdr n i a bfp_len) = (a, bfp_len)"
  using assms
proof (induction hdr n i a bfp_len rule: sfdp_ph_loop.induct)
  case (1 hdr n i a l)
  then show ?case
    by (subst sfdp_ph_loop.simps) (auto simp: Let_def split: prod.splits)
qed

lemma unat_ucast_u8_u32: "unat (ucast (b :: u8) :: u32) = unat b"
  by transfer simp

lemma ucast_u8_nonzero: "(ucast (b :: u8) :: u32) = 0 \<longleftrightarrow> b = 0"
  by transfer simp

lemma sfdp_ph_loop_first:
  "snd (snd (sfdp_ph_loop hdr n i a 0)) =
     (case first_usable hdr i n of Some k \<Rightarrow> ucast (hdr ! (8 + k * 8 + 3)) | None \<Rightarrow> 0) \<and>
   (\<forall>k. first_usable hdr i n = Some k \<longrightarrow> fst (snd (sfdp_ph_loop hdr n i a 0)) = ph_addr hdr (8 + k * 8))"
proof (induction "n - i" arbitrary: i a)
  case 0
  then show ?case by (subst (1 2) sfdp_ph_loop.simps) (simp add: first_usable_def)
next
  case (Suc d)
  then have i: "i < n" and d: "d = n - Suc i" by simp_all
  show ?case
  proof (cases "8 + i * 8 + 7 < length hdr")
    case False
    then have "first_usable hdr i n = None"
      by (simp add: first_usable_def ph_in_buffer min_def)
    with False i show ?thesis by (subst (1 2) sfdp_ph_loop.simps) (simp add: not_less)
  next
    case True
    then have up: "[i ..< min n (length hdr div 8 - Suc 0)] = i # [Suc i ..< min n (length hdr div 8 - Suc 0)]"
      using i by (intro upt_conv_Cons) (simp add: ph_in_buffer)
    show ?thesis
    proof (cases "ph_usable hdr i")
      case usable: True
      then have "first_usable hdr i n = Some i" by (simp add: first_usable_def up)
      moreover obtain out where
        "sfdp_ph_loop hdr n (Suc i) (ph_addr hdr (8 + i * 8)) (ucast (hdr ! (8 + i * 8 + 3)))
           = (out, ph_addr hdr (8 + i * 8), ucast (hdr ! (8 + i * 8 + 3)))"
        using sfdp_ph_loop_found usable unfolding ph_usable_def
        by (metis prod.collapse ucast_u8_nonzero)
      then have "snd (sfdp_ph_loop hdr n i a 0) =
          (ph_addr hdr (8 + i * 8), ucast (hdr ! (8 + i * 8 + 3)))"
        using i True usable by (subst sfdp_ph_loop.simps) (simp add: not_less ph_usable_def Let_def)
      ultimately show ?thesis by simp
    next
      case unusable: False
      then have f: "first_usable hdr i n = first_usable hdr (Suc i) n" by (simp add: first_usable_def up)
      have "snd (sfdp_ph_loop hdr n i a 0) =
          snd (sfdp_ph_loop hdr n (Suc i) (if ph_id hdr (8 + i * 8) = 0xFF00
             then ph_addr hdr (8 + i * 8) else a) 0)"
        using i True unusable
        by (subst sfdp_ph_loop.simps) (auto simp: not_less ph_usable_def Let_def split: prod.splits)
      then show ?thesis using Suc.hyps(1) [OF d] unfolding f by metis
    qed
  qed
qed

text \<open>
  C36. The loop over the SFDP parameter headers returns the address and length of the first
  header inside the buffer that describes a basic flash parameter table of nonzero length,
  and length 0 when there is none.
\<close>

theorem sfdp_ph_loop_finds_first_table:
  "case first_usable hdr 0 n of
     Some k \<Rightarrow> snd (sfdp_ph_loop hdr n 0 0 0) =
       (ph_addr hdr (8 + k * 8), ucast (hdr ! (8 + k * 8 + 3)))
   | None \<Rightarrow> snd (snd (sfdp_ph_loop hdr n 0 0 0)) = 0"
  using sfdp_ph_loop_first [of hdr n 0 0] by (auto split: option.splits intro: prod_eqI)

section \<open>The dump of DWORD 15\<close>

lemma and_7_take_bit: "x AND 7 = take_bit 3 (x :: 32 word)"
  by (simp add: take_bit_eq_mask mask_eq_exp_minus_1)

lemma qer_field: "drop_bit 20 (v :: 32 word) AND 7 = of_nat (unat v div 2 ^ 20 mod 8)"
proof -
  have "unat (take_bit 3 (drop_bit 20 v) :: 32 word) = unat v div 2 ^ 20 mod 8"
    unfolding unsigned_take_bit_eq unat_drop_bit_eq by (simp add: take_bit_eq_mod drop_bit_eq_div)
  then have "of_nat (unat (take_bit 3 (drop_bit 20 v) :: 32 word)) = (of_nat (unat v div 2 ^ 20 mod 8) :: 32 word)"
    by (rule arg_cong)
  then show ?thesis unfolding and_7_take_bit by simp
qed

lemma mem_write_all: "length src = length buf \<Longrightarrow> mem_write buf 0 src = src"
  by (simp add: mem_write_def)

text \<open>The dump once the header has been read and has its magic.\<close>

lemma sfdp_dump_table:
  assumes area: "flashdb_area s = Some fa" and cfg: "cfg_generic_read cfg"
    and hdr: "qspi_read_sfdp_raw api (fa_dev fa) 0 64 w = (0, hdr, w1)" and len: "length hdr = 64"
    and bfp: "\<And>a. qspi_read_sfdp_raw api (fa_dev fa) a 80 w1 = (r2 a, bfp a, w2 a)"
      "\<And>a. r2 a = 0 \<Longrightarrow> length (bfp a) = 80"
    and magic: "u32_from_le_bytes hdr = 0x50444653"
  shows "\<exists>out. flashdb_port_print_sfdp_dw15 cfg api s w =
    (case first_usable hdr 0 (unat (hdr ! 6) + 1) of
       None \<Rightarrow> (- ENOTSUP, out, w1)
     | Some k \<Rightarrow>
         let a = ph_addr hdr (8 + k * 8); v = u32_from_le_bytes (drop 56 (bfp a)) in
         if unat (hdr ! (8 + k * 8 + 3)) < 15 then (- ENOTSUP, out, w1)
         else if r2 a \<noteq> 0 then (r2 a, out, w2 a)
         else (0, out @ [MsgDw15 (a + 56) (le32_bytes v) v (of_nat (unat v div 2 ^ 20 mod 8))], w2 a))"
proof -
  obtain out a l where loop: "sfdp_ph_loop hdr (unat (hdr ! 6) + 1) 0 0 0 = (out, a, l)"
    by (cases "sfdp_ph_loop hdr (unat (hdr ! 6) + 1) 0 0 0")
  note first = sfdp_ph_loop_first [of hdr "unat (hdr ! 6) + 1" 0 0, unfolded loop]
  note defs = flashdb_port_print_sfdp_dw15_def mem_write_all [of hdr "replicate 64 0"] Let_def
  show ?thesis
  proof (cases "first_usable hdr 0 (unat (hdr ! 6) + 1)")
    case None
    then show ?thesis using area cfg hdr len magic loop first by (simp add: defs)
  next
    case (Some k)
    let ?l = "hdr ! (8 + k * 8 + 3)"
    have a: "a = ph_addr hdr (8 + k * 8)" "l = ucast ?l" using first Some by simp_all
    have short: "l < 15 \<longleftrightarrow> unat ?l < 15" by (simp add: a(2) word_less_nat_alt unat_ucast_u8_u32)
    show ?thesis
    proof (cases "l < 15 \<or> r2 a \<noteq> 0")
      case True
      then show ?thesis using area cfg hdr len magic loop bfp(1) [of a] short Some a(1) by (auto simp: defs)
    next
      case False
      then have len2: "length (bfp a) = 80" using bfp(2) by simp
      have v: "take 4 (drop 56 (bfp a)) = le32_bytes (u32_from_le_bytes (drop 56 (bfp a)))"
        using le32_bytes_u32_from [of "drop 56 (bfp a)"] len2 by simp
      show ?thesis
        using False area cfg hdr len magic loop bfp(1) [of a] short Some a(1) len2 v
        by (simp add: defs mem_write_all qer_field)
    qed
  qed
qed

text \<open>
  C37. The outcome of the SFDP dump, on every branch: the error of a failed read of the header
  or of the table is returned; a header without the SFDP magic gives \<open>-EINVAL\<close>; no basic
  parameter table in the buffer, or one of less than 15 DWORDs, gives \<open>-ENOTSUP\<close>, without a
  second read; otherwise the table that is read is the first one, the dump returns 0, and its
  last line shows DWORD 15, the four bytes at offset 56 read little-endian, with bits 20 to
  22 as the QER value.
\<close>

theorem sfdp_dump_outcome:
  assumes area: "flashdb_area s = Some fa" and cfg: "cfg_generic_read cfg"
    and hdr: "qspi_read_sfdp_raw api (fa_dev fa) 0 64 w = (r1, hdr, w1)" "r1 = 0 \<Longrightarrow> length hdr = 64"
    and bfp: "\<And>a. qspi_read_sfdp_raw api (fa_dev fa) a 80 w1 = (r2 a, bfp a, w2 a)"
      "\<And>a. r2 a = 0 \<Longrightarrow> length (bfp a) = 80"
  shows "\<exists>out. flashdb_port_print_sfdp_dw15 cfg api s w =
    (if r1 \<noteq> 0 then (r1, out, w1)
     else if take 4 hdr \<noteq> le32_bytes 0x50444653 then (- EINVAL, out, w1)
     else case first_usable hdr 0 (unat (hdr ! 6) + 1) of
       None \<Rightarrow> (- ENOTSUP, out, w1)
     | Some k \<Rightarrow>
         let a = ph_addr hdr (8 + k * 8); v = u32_from_le_bytes (drop 56 (bfp a)) in
         if unat (hdr ! (8 + k * 8 + 3)) < 15 then (- ENOTSUP, out, w1)
         else if r2 a \<noteq> 0 then (r2 a, out, w2 a)
         else (0, out @ [MsgDw15 (a + 56) (le32_bytes v) v (of_nat (unat v div 2 ^ 20 mod 8))], w2 a))"
proof (cases "r1 = 0")
  case False
  then show ?thesis using area cfg hdr by (simp add: flashdb_port_print_sfdp_dw15_def Let_def)
next
  case r1: True
  have len: "length hdr = 64" using hdr(2) r1 by simp
  then have "take 4 hdr = le32_bytes (u32_from_le_bytes hdr)" using le32_bytes_u32_from [of hdr] by simp
  then have m: "u32_from_le_bytes hdr = 0x50444653 \<longleftrightarrow> take 4 hdr = le32_bytes 0x50444653"
    using u32_from_le_bytes_roundtrip [of "0x50444653" "drop 4 hdr"] by (metis append_take_drop_id)
  show ?thesis
  proof (cases "take 4 hdr = le32_bytes 0x50444653")
    case False
    then show ?thesis using area cfg hdr(1) r1 len m
      by (simp add: flashdb_port_print_sfdp_dw15_def mem_write_all [of hdr "replicate 64 0"] Let_def)
  next
    case True
    then show ?thesis using sfdp_dump_table [OF area cfg hdr(1) [unfolded r1] len bfp] m r1 by simp
  qed
qed

definition sim_sfdp_hdr :: "u8 list" where
  "sim_sfdp_hdr = le32_bytes 0x50444653 @ [6, 1, 0, 0xFF] @ [0, 6, 1, 16, 0x30, 0, 0, 0xFF]
     @ replicate 48 0"

definition sim_bfp :: "u8 list" where
  "sim_bfp = replicate 56 0 @ le32_bytes 0x00700000 @ replicate 20 0"

definition sim_flash_sfdp :: "(nat \<Rightarrow> u8) flash_api" where
  "sim_flash_sfdp = sim_flash\<lparr>flash_ex_op_generic_read :=
     (\<lambda>dev cmd w. (0, if Address cmd = 0 then sim_sfdp_hdr @ replicate (unat (NbData cmd) - 64) 0 else sim_bfp, w))\<rparr>"

theorem sfdp_dump_outcome_witness:
  "\<exists>out. flashdb_port_print_sfdp_dw15 \<lparr>cfg_generic_read = True, cfg_jesd216 = True\<rparr>
     sim_flash_sfdp sim_port (\<lambda>i. 0) =
       (0, out @ [MsgDw15 0x68 (le32_bytes 0x00700000) 0x00700000 7], \<lambda>i. 0)"
proof -
  let ?cfg = "\<lparr>cfg_generic_read = True, cfg_jesd216 = True\<rparr>"
  have area: "flashdb_area sim_port = Some sim_area" by (simp add: sim_port_eq)
  have id: "ph_id sim_sfdp_hdr 8 = 0xFF00" and ad: "ph_addr sim_sfdp_hdr 8 = 0x30"
    and l: "sim_sfdp_hdr ! 11 = 16" and n: "sim_sfdp_hdr ! 6 = 0" and len: "length sim_sfdp_hdr = 64"
    and magic: "take 4 sim_sfdp_hdr = le32_bytes 0x50444653"
    by (simp_all add: ph_id_def ph_addr_def sim_sfdp_hdr_def le32_bytes_def)
  have first: "first_usable sim_sfdp_hdr 0 (unat (sim_sfdp_hdr ! 6) + 1) = Some 0"
    by (simp add: first_usable_def n len ph_usable_def id l)
  have rd: "qspi_read_sfdp_raw sim_flash_sfdp d 0 64 w = (0, sim_sfdp_hdr, w)"
    "qspi_read_sfdp_raw sim_flash_sfdp d a 80 w = (0, if a = 0 then sim_sfdp_hdr @ replicate 16 0 else sim_bfp, w)" for d a w
    by (simp_all add: sim_flash_sfdp_def qspi_read_sfdp_raw_def qspi_read_sfdp_raw_custom_def)
  have len2: "length (if a = 0 then sim_sfdp_hdr @ replicate 16 0 else sim_bfp) = 80" for a :: u32
    using len by (simp add: sim_bfp_def le32_bytes_def)
  have v: "u32_from_le_bytes (drop 56 sim_bfp) = 0x00700000"
    using u32_from_le_bytes_roundtrip [of "0x00700000" "replicate 20 0"] by (simp add: sim_bfp_def)
  from sfdp_dump_outcome [OF area, of ?cfg sim_flash_sfdp "\<lambda>i. 0" 0 sim_sfdp_hdr "\<lambda>i. 0" "\<lambda>a. 0"
      "\<lambda>a. if a = 0 then sim_sfdp_hdr @ replicate 16 0 else sim_bfp" "\<lambda>a i. 0", OF _ rd(1) len rd(2) len2]
  show ?thesis using first magic v by (simp add: ad l Let_def)
qed

end
