(* ===== verification/FalStub.thy ===== *)
theory FalStub
  imports FlashPort
begin

text \<open>
  The FAL adapter, \<^verbatim>\<open>ATS-M7/src/fal_stub_zephyr.c\<close>: the single flash device and
  the single partition that FlashDB sees, built over the flash port. The module's statics
  are \<open>fal_state\<close>; the operations run on \<open>fal_sys\<close>, which adds the state of the flash
  port and of the hardware below it. The interpretation \<open>fal\<close> shows that the partition
  operations are a \<open>partition_io\<close> with the FAL return convention, by reducing each of
  them to the port operation whose laws are known.
\<close>

section \<open>State\<close>

text \<open>The \<open>ops\<close> table of the device is never filled in and stays all null.\<close>

record fal_flash_dev =
  fd_name :: string
  fd_addr :: u32
  fd_len :: usize
  fd_blk_size :: usize
  fd_write_gran :: usize

record fal_partition =
  magic_word :: u32
  fp_name :: string
  fp_flash_name :: string
  fp_offset :: "32 word"
  fp_len :: usize
  fp_reserved :: u32

record fal_state =
  g_flash_dev :: fal_flash_dev
  g_partition :: fal_partition
  g_fal_inited :: bool

record 'w fal_sys =
  fs_fal :: fal_state
  fs_port :: port_state
  fs_w :: 'w

abbreviation FAL_DEV_NAME_MAX :: nat where "FAL_DEV_NAME_MAX \<equiv> 24"

definition zero_flash_dev :: fal_flash_dev where
  "zero_flash_dev = \<lparr>fd_name = replicate FAL_DEV_NAME_MAX NUL, fd_addr = 0, fd_len = 0,
     fd_blk_size = 0, fd_write_gran = 0\<rparr>"

definition zero_partition :: fal_partition where
  "zero_partition = \<lparr>magic_word = 0, fp_name = replicate FAL_DEV_NAME_MAX NUL,
     fp_flash_name = replicate FAL_DEV_NAME_MAX NUL, fp_offset = 0, fp_len = 0, fp_reserved = 0\<rparr>"

definition fal_state0 :: fal_state where
  "fal_state0 = \<lparr>g_flash_dev = zero_flash_dev, g_partition = zero_partition, g_fal_inited = False\<rparr>"

definition ATS_FAL_FLASH_NAME :: string where "ATS_FAL_FLASH_NAME = ''zephyr_qspi''"
definition ATS_FAL_PART_NAME :: string where "ATS_FAL_PART_NAME = ''flashdb''"
definition ATS_FAL_PART_MAGIC :: u32 where "ATS_FAL_PART_MAGIC = 0x45504641"

text \<open>A \<^verbatim>\<open>const struct fal_partition *\<close>: null, the module's own partition, or another.\<close>

datatype part_ptr = PartNull | PartGlobal | PartOther fal_partition

section \<open>Operations\<close>

definition copy_name :: "string \<Rightarrow> nat \<Rightarrow> string \<Rightarrow> string" where
  "copy_name dst dst_size src =
     (if dst_size = 0 then dst
      else (strncpy dst src (dst_size - 1))[dst_size - 1 := NUL])"

definition part_is_valid :: "fal_state \<Rightarrow> part_ptr \<Rightarrow> bool" where
  "part_is_valid s part \<longleftrightarrow> part = PartGlobal \<and> g_fal_inited s"

definition fal_init :: "'w flash_api \<Rightarrow> 'w fal_sys \<Rightarrow> int \<times> 'w fal_sys" where
  "fal_init api s =
     (if g_fal_inited (fs_fal s) then (1, s)
      else
        let (ret, p1, w1) =
              (if flashdb_port_size (fs_port s) = 0
               then flashdb_port_init api (fs_port s) (fs_w s)
               else (0, fs_port s, fs_w s));
            s1 = s\<lparr>fs_port := p1, fs_w := w1\<rparr> in
        if ret \<noteq> 0 then (- 1, s1)
        else
          let area_size = flashdb_port_size p1;
              erase_size = flashdb_port_erase_size p1 in
          if area_size = 0 \<or> erase_size = 0 then (- 1, s1)
          else
            let dev = zero_flash_dev\<lparr>
                  fd_name := copy_name (fd_name zero_flash_dev) FAL_DEV_NAME_MAX ATS_FAL_FLASH_NAME,
                  fd_addr := 0, fd_len := area_size, fd_blk_size := erase_size, fd_write_gran := 1\<rparr>;
                part = zero_partition\<lparr>
                  magic_word := ATS_FAL_PART_MAGIC,
                  fp_name := copy_name (fp_name zero_partition) FAL_DEV_NAME_MAX ATS_FAL_PART_NAME,
                  fp_flash_name := copy_name (fp_flash_name zero_partition) FAL_DEV_NAME_MAX
                    ATS_FAL_FLASH_NAME,
                  fp_offset := 0, fp_len := area_size, fp_reserved := 0\<rparr> in
            (1, s1\<lparr>fs_fal := \<lparr>g_flash_dev = dev, g_partition = part, g_fal_inited = True\<rparr>\<rparr>))"

text \<open>The guard \<^verbatim>\<open>!g_fal_inited && fal_init() < 0\<close> of the lookups; true when it fails.\<close>

definition fal_init_fails :: "'w flash_api \<Rightarrow> 'w fal_sys \<Rightarrow> bool \<times> 'w fal_sys" where
  "fal_init_fails api s =
     (if g_fal_inited (fs_fal s) then (False, s)
      else let (r, s1) = fal_init api s in (r < 0, s1))"

text \<open>The lookups return whether they found the one device or partition (else null).\<close>

definition fal_flash_device_find ::
  "'w flash_api \<Rightarrow> string option \<Rightarrow> 'w fal_sys \<Rightarrow> bool \<times> 'w fal_sys" where
  "fal_flash_device_find api name s =
     (case name of
        None \<Rightarrow> (False, s)
      | Some n \<Rightarrow>
          let (failed, s1) = fal_init_fails api s in
          if failed then (False, s1)
          else (strcmp_eq n (fd_name (g_flash_dev (fs_fal s1))), s1))"

definition fal_partition_find ::
  "'w flash_api \<Rightarrow> string option \<Rightarrow> 'w fal_sys \<Rightarrow> part_ptr \<times> 'w fal_sys" where
  "fal_partition_find api name s =
     (case name of
        None \<Rightarrow> (PartNull, s)
      | Some n \<Rightarrow>
          let (failed, s1) = fal_init_fails api s in
          if failed then (PartNull, s1)
          else if strcmp_eq n (fp_name (g_partition (fs_fal s1))) then (PartGlobal, s1)
          else (PartNull, s1))"

text \<open>Second component: the value stored through a non-null \<open>len\<close>.\<close>

definition fal_get_partition_table ::
  "'w flash_api \<Rightarrow> bool \<Rightarrow> 'w fal_sys \<Rightarrow> part_ptr \<times> usize option \<times> 'w fal_sys" where
  "fal_get_partition_table api len_nonnull s =
     (let (failed, s1) = fal_init_fails api s in
      if failed then (PartNull, if len_nonnull then Some 0 else None, s1)
      else (PartGlobal, if len_nonnull then Some 1 else None, s1))"

definition fal_set_partition_table_temp :: "fal_partition list \<Rightarrow> usize \<Rightarrow> 'w fal_sys \<Rightarrow> 'w fal_sys" where
  "fal_set_partition_table_temp table len s = s"

definition fal_partition_read ::
  "'w flash_api \<Rightarrow> part_ptr \<Rightarrow> u32 \<Rightarrow> bool \<Rightarrow> usize \<Rightarrow> 'w fal_sys \<Rightarrow> int \<times> u8 list \<times> 'w fal_sys" where
  "fal_partition_read api part addr buf_nonnull sz s =
     (let plen = fp_len (g_partition (fs_fal s)) in
      if \<not> part_is_valid (fs_fal s) part \<or> \<not> buf_nonnull then (- 1, [], s)
      else if addr > plen \<or> sz > plen - addr then (- 1, [], s)
      else
        let (ret, d, w1) = flashdb_port_read api (fs_port s) addr sz (fs_w s) in
        (if ret = 0 then sint sz else - 1, d, s\<lparr>fs_w := w1\<rparr>))"

definition fal_partition_write ::
  "'w flash_api \<Rightarrow> part_ptr \<Rightarrow> u32 \<Rightarrow> u8 list option \<Rightarrow> usize \<Rightarrow> 'w fal_sys \<Rightarrow> int \<times> 'w fal_sys" where
  "fal_partition_write api part addr buf sz s =
     (case buf of
        None \<Rightarrow> (- 1, s)
      | Some b \<Rightarrow>
          let plen = fp_len (g_partition (fs_fal s)) in
          if \<not> part_is_valid (fs_fal s) part then (- 1, s)
          else if addr > plen \<or> sz > plen - addr then (- 1, s)
          else
            let (ret, w1) = flashdb_port_write api (fs_port s) addr b sz (fs_w s) in
            (if ret = 0 then sint sz else - 1, s\<lparr>fs_w := w1\<rparr>))"

definition fal_partition_erase ::
  "'w flash_api \<Rightarrow> part_ptr \<Rightarrow> u32 \<Rightarrow> usize \<Rightarrow> 'w fal_sys \<Rightarrow> int \<times> 'w fal_sys" where
  "fal_partition_erase api part addr sz s =
     (let plen = fp_len (g_partition (fs_fal s)) in
      if \<not> part_is_valid (fs_fal s) part then (- 1, s)
      else if addr > plen \<or> sz > plen - addr then (- 1, s)
      else
        let (ret, w1) = flashdb_port_erase api (fs_port s) addr sz (fs_w s) in
        (if ret = 0 then sint sz else - 1, s\<lparr>fs_w := w1\<rparr>))"

definition fal_partition_erase_all :: "'w flash_api \<Rightarrow> part_ptr \<Rightarrow> 'w fal_sys \<Rightarrow> int \<times> 'w fal_sys" where
  "fal_partition_erase_all api part s =
     (if \<not> part_is_valid (fs_fal s) part then (- 1, s)
      else fal_partition_erase api part 0 (fp_len (g_partition (fs_fal s))) s)"

text \<open>The printed line: partition name, flash name, offset, length and block size.\<close>

definition fal_show_part_table ::
  "'w flash_api \<Rightarrow> 'w fal_sys \<Rightarrow> (string \<times> string \<times> u32 \<times> usize \<times> usize) option \<times> 'w fal_sys" where
  "fal_show_part_table api s =
     (let (failed, s1) = fal_init_fails api s in
      if failed then (None, s1)
      else let p = g_partition (fs_fal s1) in
        (Some (c_str (fp_name p), c_str (fp_flash_name p), fp_offset p, fp_len p,
           fd_blk_size (g_flash_dev (fs_fal s1))), s1))"

lemmas [fal_defs] =
  part_is_valid_def fal_init_def fal_init_fails_def fal_flash_device_find_def
  fal_partition_find_def fal_get_partition_table_def fal_partition_read_def
  fal_partition_write_def fal_partition_erase_def

section \<open>Names\<close>

lemma copy_name_terminated:
  assumes "0 < n" and "n \<le> length dst"
  shows "c_str (copy_name dst n src) = take (n - 1) (c_str src)"
proof -
  let ?k = "n - 1" and ?cs = "c_str src"
  have no: "NUL \<notin> set (take ?k ?cs)"
    using c_str_no_nul [of src] by (meson in_set_takeD)
  have len: "?k < length (strncpy dst src ?k)" using assms by (simp add: length_strncpy)
  have "take ?k (strncpy dst src ?k) = take ?k ?cs @ replicate (?k - length ?cs) NUL"
    by (simp add: strncpy_def min_def)
  then have "copy_name dst n src =
      take ?k ?cs @ replicate (?k - length ?cs) NUL @ NUL # drop n (strncpy dst src ?k)"
    using assms upd_conv_take_nth_drop [OF len, of NUL] by (simp add: copy_name_def)
  also have "\<dots> = take ?k ?cs @ NUL # replicate (?k - length ?cs) NUL @ drop n (strncpy dst src ?k)"
    by (simp add: replicate_app_Cons_same)
  finally show ?thesis using c_str_append_nul [OF no] by simp
qed

lemma length_copy_name: "n \<le> length dst \<Longrightarrow> length (copy_name dst n src) = length dst"
  by (simp add: copy_name_def length_strncpy)

definition the_flash_dev :: "usize \<Rightarrow> usize \<Rightarrow> fal_flash_dev" where
  "the_flash_dev len blk = \<lparr>fd_name = ATS_FAL_FLASH_NAME @ replicate 13 NUL, fd_addr = 0,
     fd_len = len, fd_blk_size = blk, fd_write_gran = 1\<rparr>"

definition the_partition :: "usize \<Rightarrow> fal_partition" where
  "the_partition len = \<lparr>magic_word = ATS_FAL_PART_MAGIC,
     fp_name = ATS_FAL_PART_NAME @ replicate 17 NUL,
     fp_flash_name = ATS_FAL_FLASH_NAME @ replicate 13 NUL, fp_offset = 0, fp_len = len,
     fp_reserved = 0\<rparr>"

lemma fal_names:
  "copy_name (replicate 24 NUL) 24 ATS_FAL_FLASH_NAME = ATS_FAL_FLASH_NAME @ replicate 13 NUL"
  "copy_name (replicate 24 NUL) 24 ATS_FAL_PART_NAME = ATS_FAL_PART_NAME @ replicate 17 NUL"
  by code_simp+

section \<open>Initialisation\<close>

text \<open>What an initialised adapter knows about the partition below it.\<close>

definition fal_ok :: "'w fal_sys \<Rightarrow> bool" where
  "fal_ok s \<longleftrightarrow>
     (g_fal_inited (fs_fal s) \<longrightarrow>
        flashdb_port_size (fs_port s) \<noteq> 0 \<and> flashdb_port_erase_size (fs_port s) \<noteq> 0 \<and>
        g_flash_dev (fs_fal s) =
          the_flash_dev (flashdb_port_size (fs_port s)) (flashdb_port_erase_size (fs_port s)) \<and>
        g_partition (fs_fal s) = the_partition (flashdb_port_size (fs_port s)))"

lemma fal_init_outcome:
  assumes "fal_ok s" and "fal_init api s = (r, s')"
  shows "fal_ok s' \<and> (if g_fal_inited (fs_fal s') then r = 1 else r = - 1)"
  using assms
  by (auto simp: fal_init_def fal_ok_def the_flash_dev_def the_partition_def zero_flash_dev_def
      zero_partition_def fal_names Let_def split: prod.splits if_splits)

lemma fal_init_inited: "g_fal_inited (fs_fal s) \<Longrightarrow> fal_init api s = (1, s)"
  by (simp add: fal_init_def)

lemma fal_init_fails_outcome:
  assumes "fal_ok s" and "fal_init_fails api s = (f, s')"
  shows "fal_ok s' \<and> f = (\<not> g_fal_inited (fs_fal s'))"
proof (cases "g_fal_inited (fs_fal s)")
  case False
  obtain r t where "fal_init api s = (r, t)" by (cases "fal_init api s")
  with False assms fal_init_outcome [OF assms(1) this] show ?thesis
    by (auto simp: fal_init_fails_def split: if_splits)
qed (use assms in \<open>auto simp: fal_init_fails_def\<close>)

text \<open>What an initialisation of a fresh adapter does with the port below.\<close>

lemma fal_init_fresh:
  assumes "\<not> g_fal_inited (fs_fal s)" and "fal_init api s = (r, s')"
    and "(if flashdb_port_size (fs_port s) = 0 then flashdb_port_init api (fs_port s) (fs_w s)
      else (0, fs_port s, fs_w s)) = (e, p, w)"
  shows "fs_port s' = p \<and> fs_w s' = w \<and>
    (if e = 0 \<and> flashdb_port_size p \<noteq> 0 \<and> flashdb_port_erase_size p \<noteq> 0
     then r = 1 \<and> g_fal_inited (fs_fal s') else r = - 1 \<and> fs_fal s' = fs_fal s)"
  using assms(2) assms(1) unfolding fal_init_def assms(3) Let_def prod.case by (auto split: if_splits)

lemma fal_tables:
  assumes "fal_ok s" and "g_fal_inited (fs_fal s)"
  shows "c_str (fd_name (g_flash_dev (fs_fal s))) = ''zephyr_qspi''" and "fd_addr (g_flash_dev (fs_fal s)) = 0"
    and "fd_len (g_flash_dev (fs_fal s)) = flashdb_port_size (fs_port s)"
    and "fd_blk_size (g_flash_dev (fs_fal s)) = flashdb_port_erase_size (fs_port s)"
    and "c_str (fp_name (g_partition (fs_fal s))) = ''flashdb''"
    and "c_str (fp_flash_name (g_partition (fs_fal s))) = ''zephyr_qspi''"
    and "fp_offset (g_partition (fs_fal s)) = 0"
    and "fp_len (g_partition (fs_fal s)) = flashdb_port_size (fs_port s)"
proof -
  have "c_str (ATS_FAL_FLASH_NAME @ replicate 13 NUL) = ''zephyr_qspi''"
    "c_str (ATS_FAL_PART_NAME @ replicate 17 NUL) = ''flashdb''" by code_simp+
  then show "c_str (fd_name (g_flash_dev (fs_fal s))) = ''zephyr_qspi''" "fd_addr (g_flash_dev (fs_fal s)) = 0"
    "fd_len (g_flash_dev (fs_fal s)) = flashdb_port_size (fs_port s)"
    "fd_blk_size (g_flash_dev (fs_fal s)) = flashdb_port_erase_size (fs_port s)"
    "c_str (fp_name (g_partition (fs_fal s))) = ''flashdb''"
    "c_str (fp_flash_name (g_partition (fs_fal s))) = ''zephyr_qspi''"
    "fp_offset (g_partition (fs_fal s)) = 0"
    "fp_len (g_partition (fs_fal s)) = flashdb_port_size (fs_port s)"
    using assms by (simp_all add: fal_ok_def the_flash_dev_def the_partition_def)
qed

text \<open>
  C26. Initialisation of an adapter that is not initialised yet reuses the port when it knows
  its size and initialises it otherwise. When the port is then up, of non-zero size and block
  size, it returns 1 and the tables describe that port: device and partition have the names
  FlashDB looks up, terminated, offset 0, the length of the whole partition, and its erase
  size as the block size. In every other case it returns -1 and the tables stay as they are.
  In particular it succeeds on a fresh port whenever the partition opens, its device is ready
  and the geometry is known and not zero; and it is a no-op on an initialised adapter.
\<close>

theorem fal_init_correct:
  assumes ok: "fal_ok s" and run: "fal_init api s = (r, s')"
    and port: "(if flashdb_port_size (fs_port s) = 0 then flashdb_port_init api (fs_port s) (fs_w s)
      else (0, fs_port s, fs_w s)) = (e, p, w)"
  shows "(g_fal_inited (fs_fal s) \<longrightarrow> r = 1 \<and> s' = s) \<and>
    (\<not> g_fal_inited (fs_fal s) \<longrightarrow> fs_port s' = p \<and> fs_w s' = w \<and>
      (if e = 0 \<and> flashdb_port_size p \<noteq> 0 \<and> flashdb_port_erase_size p \<noteq> 0
       then r = 1 \<and> g_fal_inited (fs_fal s') else r = - 1 \<and> fs_fal s' = fs_fal s)) \<and>
    (\<not> g_fal_inited (fs_fal s) \<and> flashdb_port_size (fs_port s) = 0 \<and> flash_area_open api (fs_w s) = (0, fa, v) \<and>
      flash_area_device_is_ready api fa v \<and> flash_get_page_info_by_offs api (fa_dev fa) (fa_off fa) v = (0, n) \<and>
      fa_size fa \<noteq> 0 \<and> n \<noteq> 0 \<longrightarrow> r = 1 \<and> flashdb_port_size (fs_port s') = fa_size fa \<and>
        flashdb_port_erase_size (fs_port s') = n) \<and>
    (r = 1 \<longrightarrow>
      c_str (fd_name (g_flash_dev (fs_fal s'))) = ''zephyr_qspi'' \<and> fd_addr (g_flash_dev (fs_fal s')) = 0 \<and>
      fd_len (g_flash_dev (fs_fal s')) = flashdb_port_size (fs_port s') \<and>
      fd_blk_size (g_flash_dev (fs_fal s')) = flashdb_port_erase_size (fs_port s') \<and>
      c_str (fp_name (g_partition (fs_fal s'))) = ''flashdb'' \<and>
      c_str (fp_flash_name (g_partition (fs_fal s'))) = ''zephyr_qspi'' \<and> fp_offset (g_partition (fs_fal s')) = 0 \<and>
      fp_len (g_partition (fs_fal s')) = flashdb_port_size (fs_port s'))"
proof (intro conjI impI)
  note out = fal_init_outcome [OF ok run]
  have up: "g_fal_inited (fs_fal s')" if "r = 1" using out that by (auto split: if_splits)
  note t = fal_tables [OF conjunct1 [OF out] up]
  show "c_str (fd_name (g_flash_dev (fs_fal s'))) = ''zephyr_qspi''" "fd_addr (g_flash_dev (fs_fal s')) = 0"
    "fd_len (g_flash_dev (fs_fal s')) = flashdb_port_size (fs_port s')"
    "fd_blk_size (g_flash_dev (fs_fal s')) = flashdb_port_erase_size (fs_port s')"
    "c_str (fp_name (g_partition (fs_fal s'))) = ''flashdb''"
    "c_str (fp_flash_name (g_partition (fs_fal s'))) = ''zephyr_qspi''" "fp_offset (g_partition (fs_fal s')) = 0"
    "fp_len (g_partition (fs_fal s')) = flashdb_port_size (fs_port s')" if "r = 1"
    by (fact t [OF that])+
next
  assume fresh: "\<not> g_fal_inited (fs_fal s)"
  note f = fal_init_fresh [OF fresh run port]
  show "fs_port s' = p" "fs_w s' = w" "if e = 0 \<and> flashdb_port_size p \<noteq> 0 \<and> flashdb_port_erase_size p \<noteq> 0
      then r = 1 \<and> g_fal_inited (fs_fal s') else r = - 1 \<and> fs_fal s' = fs_fal s"
    using f by blast+
next
  assume a: "\<not> g_fal_inited (fs_fal s) \<and> flashdb_port_size (fs_port s) = 0 \<and>
      flash_area_open api (fs_w s) = (0, fa, v) \<and> flash_area_device_is_ready api fa v \<and>
      flash_get_page_info_by_offs api (fa_dev fa) (fa_off fa) v = (0, n) \<and> fa_size fa \<noteq> 0 \<and> n \<noteq> 0"
  then have "e = 0" "flashdb_port_size p = fa_size fa" "flashdb_port_erase_size p = n"
    using port by (auto simp: flashdb_port_init_def flashdb_port_size_def flashdb_port_erase_size_def Let_def)
  then show "r = 1" "flashdb_port_size (fs_port s') = fa_size fa" "flashdb_port_erase_size (fs_port s') = n"
    using fal_init_fresh [OF _ run port] a by simp_all
qed (use run in \<open>simp_all add: fal_init_inited\<close>)

text \<open>
  A partition lookup answers null or the module's partition, and the partition exactly
  when the adapter is initialised by then and the name is the FlashDB partition's.
\<close>

theorem fal_partition_find_correct:
  assumes "fal_ok s" and "fal_partition_find api name s = (p, s')"
  shows "fal_ok s' \<and>
    p = (if g_fal_inited (fs_fal s') \<and> (\<exists>n. name = Some n \<and> c_str n = ''flashdb'')
         then PartGlobal else PartNull)"
proof (cases name)
  case None
  then show ?thesis using assms by (simp add: fal_partition_find_def)
next
  case (Some n)
  obtain f t where f: "fal_init_fails api s = (f, t)" by (cases "fal_init_fails api s")
  have ok: "fal_ok t" "f = (\<not> g_fal_inited (fs_fal t))"
    using fal_init_fails_outcome [OF assms(1) f] by simp_all
  have name: "c_str (ATS_FAL_PART_NAME @ replicate 17 NUL) = ''flashdb''" by code_simp
  show ?thesis
    using assms(2) ok
    by (auto simp: fal_partition_find_def Some f strcmp_eq_def name fal_ok_def the_partition_def
        split: if_splits)
qed

text \<open>
  C27. An initialisation of the port that opened the partition but found its device not
  ready is never repeated: every later initialisation of the adapter fails, on any driver
  and however ready the device has become.
\<close>

theorem fal_init_never_retries:
  assumes "flash_area_open api w = (0, fa, w1)" and "fa_size fa \<noteq> 0"
    and "\<not> flash_area_device_is_ready api fa w1"
    and "flashdb_port_init api port_state0 w = (ret, p, w2)"
  shows "ret = - ENODEV \<and>
    fal_init later \<lparr>fs_fal = fal_state0, fs_port = p, fs_w = v\<rparr> =
      (- 1, \<lparr>fs_fal = fal_state0, fs_port = p, fs_w = v\<rparr>)"
  using assms
  by (auto simp: flashdb_port_init_def port_state0_def fal_init_def fal_state0_def
      flashdb_port_size_def flashdb_port_erase_size_def Let_def)

section \<open>The adapter as a partition\<close>

record 'w fal_env =
  fv_api :: "'w flash_api"
  fv_mem :: "'w \<Rightarrow> nat \<Rightarrow> u8"
  fv_sys :: "'w fal_sys"

definition fv_rd :: "'w fal_env \<Rightarrow> 32 word \<Rightarrow> 32 word \<Rightarrow> int \<times> u8 list \<times> 'w fal_env" where
  "fv_rd e a n = (case fal_partition_read (fv_api e) PartGlobal a True n (fv_sys e) of
     (r, d, s) \<Rightarrow> (r, d, e\<lparr>fv_sys := s\<rparr>))"

definition fv_wr :: "'w fal_env \<Rightarrow> 32 word \<Rightarrow> u8 list \<Rightarrow> 32 word \<Rightarrow> int \<times> 'w fal_env" where
  "fv_wr e a b n = (case fal_partition_write (fv_api e) PartGlobal a (Some b) n (fv_sys e) of
     (r, s) \<Rightarrow> (r, e\<lparr>fv_sys := s\<rparr>))"

definition fv_er :: "'w fal_env \<Rightarrow> 32 word \<Rightarrow> 32 word \<Rightarrow> int \<times> 'w fal_env" where
  "fv_er e a n = (case fal_partition_erase (fv_api e) PartGlobal a n (fv_sys e) of
     (r, s) \<Rightarrow> (r, e\<lparr>fv_sys := s\<rparr>))"

definition fv_len :: "'w fal_env \<Rightarrow> nat" where
  "fv_len e = unat (fp_len (g_partition (fs_fal (fv_sys e))))"

definition fv_accept :: "'w fal_env \<Rightarrow> 32 word \<Rightarrow> 32 word \<Rightarrow> bool" where
  "fv_accept e a n \<longleftrightarrow> unat a + unat n \<le> fv_len e"

definition fv_contents :: "'w fal_env \<Rightarrow> nat \<Rightarrow> u8" where
  "fv_contents e = fv_mem e (fs_w (fv_sys e))"

definition rc_len :: "32 word \<Rightarrow> int \<Rightarrow> bool" where
  "rc_len n ret \<longleftrightarrow> ret = uint n"

text \<open>
  An initialised adapter over a documented driver whose partition is smaller than 2 GiB
  (32 MiB on the board), so that lengths and offsets fit the signed types.
\<close>

definition fal_up :: "'w flash_api \<Rightarrow> ('w \<Rightarrow> nat \<Rightarrow> u8) \<Rightarrow> 'w fal_sys \<Rightarrow> bool" where
  "fal_up api mem s \<longleftrightarrow>
     g_fal_inited (fs_fal s) \<and> fal_ok s \<and>
     (\<exists>fa. flashdb_area (fs_port s) = Some fa \<and> flash_ok api fa mem \<and> unat (fa_size fa) < 2 ^ 31)"

definition fv_inv :: "'w fal_env \<Rightarrow> bool" where
  "fv_inv e \<longleftrightarrow> fal_up (fv_api e) (fv_mem e) (fv_sys e)"

text \<open>The port environment under an adapter environment.\<close>

definition fv_pe :: "'w fal_env \<Rightarrow> 'w port_env" where
  "fv_pe e = \<lparr>pe_api = fv_api e, pe_state = fs_port (fv_sys e), pe_mem = fv_mem e,
     pe_w = fs_w (fv_sys e)\<rparr>"

definition fv_set_w :: "'w fal_env \<Rightarrow> 'w \<Rightarrow> 'w fal_env" where
  "fv_set_w e w = e\<lparr>fv_sys := (fv_sys e)\<lparr>fs_w := w\<rparr>\<rparr>"

definition fal_rc :: "32 word \<Rightarrow> int \<Rightarrow> int" where
  "fal_rc n r = (if r = 0 then uint n else - 1)"

lemma fv_inv_pe: "fv_inv e \<Longrightarrow> pe_inv (fv_pe e)"
  by (auto simp: fv_inv_def fal_up_def pe_inv_def fv_pe_def)

lemma fv_accept_bounds:
  assumes "fv_inv e" and "fv_accept e a n"
  shows "pe_accept (fv_pe e) a n" and "unat a < 2 ^ 31" and "unat n < 2 ^ 31"
    and "sint n = uint n"
proof -
  obtain fa where fa: "flashdb_area (fs_port (fv_sys e)) = Some fa" "unat (fa_size fa) < 2 ^ 31"
    and "fv_len e = unat (fa_size fa)"
    using assms(1)
    by (auto simp: fv_inv_def fal_up_def fal_ok_def fv_len_def the_partition_def flashdb_port_size_def)
  with assms(2) show a: "unat a < 2 ^ 31" and n: "unat n < 2 ^ 31"
    by (auto simp: fv_accept_def)
  show "pe_accept (fv_pe e) a n"
    using assms(2) fa \<open>fv_len e = _\<close> a
    by (simp add: pe_accept_def fv_pe_def check_range_zero in_area_def sint32_nonneg_iff fv_accept_def)
  show "sint n = uint n" using n by (simp add: sint32_cases)
qed

text \<open>An accepted request is the port's request with the return code translated.\<close>

lemma fv_ops_accept:
  assumes "fv_inv e" and "fv_accept e a n"
  shows "fv_rd e a n = (case pe_rd (fv_pe e) a n of (r, d, p) \<Rightarrow> (fal_rc n r, d, fv_set_w e (pe_w p)))"
    and "fv_wr e a b n = (case pe_wr (fv_pe e) a b n of (r, p) \<Rightarrow> (fal_rc n r, fv_set_w e (pe_w p)))"
    and "fv_er e a n = (case pe_er (fv_pe e) a n of (r, p) \<Rightarrow> (fal_rc n r, fv_set_w e (pe_w p)))"
proof -
  let ?len = "fp_len (g_partition (fs_fal (fv_sys e)))"
  have init: "part_is_valid (fs_fal (fv_sys e)) PartGlobal"
    using assms(1) by (simp add: fv_inv_def fal_up_def part_is_valid_def)
  have range: "\<not> (?len < a \<or> ?len - a < n)"
    using assms(2) by (simp add: range_check_iff fv_accept_def fv_len_def)
  have n: "sint n = uint n" using assms by (rule fv_accept_bounds(4))
  note defs = init range n fv_pe_def fv_set_w_def fal_rc_def
  show "fv_rd e a n = (case pe_rd (fv_pe e) a n of (r, d, p) \<Rightarrow> (fal_rc n r, d, fv_set_w e (pe_w p)))"
    using range by (simp add: fv_rd_def fal_partition_read_def pe_rd_def defs split: prod.split)
  show "fv_wr e a b n = (case pe_wr (fv_pe e) a b n of (r, p) \<Rightarrow> (fal_rc n r, fv_set_w e (pe_w p)))"
    using range by (simp add: fv_wr_def fal_partition_write_def pe_wr_def defs split: prod.split)
  show "fv_er e a n = (case pe_er (fv_pe e) a n of (r, p) \<Rightarrow> (fal_rc n r, fv_set_w e (pe_w p)))"
    using range by (simp add: fv_er_def fal_partition_erase_def pe_er_def defs split: prod.split)
qed

lemma fv_ops_reject:
  assumes "\<not> fv_accept e a n"
  shows "fv_rd e a n = (- 1, [], e)" and "fv_wr e a b n = (- 1, e)" and "fv_er e a n = (- 1, e)"
  using assms
  by (simp_all add: fv_rd_def fv_wr_def fv_er_def fal_partition_read_def fal_partition_write_def
      fal_partition_erase_def range_check_iff fv_accept_def fv_len_def Let_def)

lemma fv_set_w_simps [simp]:
  "fv_inv (fv_set_w e w) = fv_inv e" "fv_accept (fv_set_w e w) = fv_accept e"
  "fv_contents (fv_set_w e w) = fv_mem e w" "pe_contents (fv_pe e) = fv_contents e"
  by (simp_all add: fv_inv_def fal_up_def fal_ok_def fv_accept_def fv_len_def fv_set_w_def
      fv_contents_def fun_eq_iff fv_pe_def pe_contents_def)

lemma fv_pe_mem [simp]: "pe_mem (fv_pe e) = fv_mem e"
  by (simp add: fv_pe_def)

lemma pe_ops_mem:
  "pe_rd e a n = (r, d, t) \<Longrightarrow> pe_mem t = pe_mem e"
  "pe_wr e a b n = (r, t) \<Longrightarrow> pe_mem t = pe_mem e"
  "pe_er e a n = (r, t) \<Longrightarrow> pe_mem t = pe_mem e"
  by (auto simp: pe_rd_def pe_wr_def pe_er_def split: prod.splits)

text \<open>Rule inversion for accepted requests of the adapter.\<close>

lemma fv_rdE:
  assumes "fv_inv e" and "fv_accept e a n" and "fv_rd e a n = (r, d, t)"
  obtains q p where "pe_inv (fv_pe e)" and "pe_accept (fv_pe e) a n"
    and "pe_rd (fv_pe e) a n = (q, d, p)" and "r = fal_rc n q" and "t = fv_set_w e (pe_w p)"
    and "fv_contents t = pe_contents p"
proof -
  obtain q d1 p where pe: "pe_rd (fv_pe e) a n = (q, d1, p)" by (cases "pe_rd (fv_pe e) a n")
  have "r = fal_rc n q" "d1 = d" and t: "t = fv_set_w e (pe_w p)"
    using assms(3) fv_ops_accept(1) [OF assms(1,2)] pe by simp_all
  moreover have "fv_contents t = pe_contents p"
    using pe_ops_mem(1) [OF pe] t by (simp add: pe_contents_def)
  ultimately show thesis
    using that fv_inv_pe [OF assms(1)] fv_accept_bounds(1) [OF assms(1,2)] pe by blast
qed

lemma fv_wrE:
  assumes "fv_inv e" and "fv_accept e a n" and "fv_wr e a b n = (r, t)"
  obtains q p where "pe_inv (fv_pe e)" and "pe_accept (fv_pe e) a n"
    and "pe_wr (fv_pe e) a b n = (q, p)" and "r = fal_rc n q" and "t = fv_set_w e (pe_w p)"
    and "fv_contents t = pe_contents p"
proof -
  obtain q p where pe: "pe_wr (fv_pe e) a b n = (q, p)" by (cases "pe_wr (fv_pe e) a b n")
  have "r = fal_rc n q" and t: "t = fv_set_w e (pe_w p)"
    using assms(3) fv_ops_accept(2) [OF assms(1,2)] pe by simp_all
  moreover have "fv_contents t = pe_contents p"
    using pe_ops_mem(2) [OF pe] t by (simp add: pe_contents_def)
  ultimately show thesis
    using that fv_inv_pe [OF assms(1)] fv_accept_bounds(1) [OF assms(1,2)] pe by blast
qed

lemma fv_erE:
  assumes "fv_inv e" and "fv_accept e a n" and "fv_er e a n = (r, t)"
  obtains q p where "pe_inv (fv_pe e)" and "pe_accept (fv_pe e) a n"
    and "pe_er (fv_pe e) a n = (q, p)" and "r = fal_rc n q" and "t = fv_set_w e (pe_w p)"
    and "fv_contents t = pe_contents p"
proof -
  obtain q p where pe: "pe_er (fv_pe e) a n = (q, p)" by (cases "pe_er (fv_pe e) a n")
  have "r = fal_rc n q" and t: "t = fv_set_w e (pe_w p)"
    using assms(3) fv_ops_accept(3) [OF assms(1,2)] pe by simp_all
  moreover have "fv_contents t = pe_contents p"
    using pe_ops_mem(3) [OF pe] t by (simp add: pe_contents_def)
  ultimately show thesis
    using that fv_inv_pe [OF assms(1)] fv_accept_bounds(1) [OF assms(1,2)] pe by blast
qed

lemma rc_len_error [simp]: "\<not> rc_len n (- 1)"
  using uint_nonnegative [of n] unfolding rc_len_def by linarith

lemma rc_len_fal_rc [simp]: "rc_len n (fal_rc n q) \<longleftrightarrow> rc_zero n q"
  using rc_len_error [of n] by (simp add: rc_len_def fal_rc_def rc_zero_def)

interpretation fal: partition_io fv_rd fv_wr fv_er fv_accept rc_len fv_contents fv_inv
proof (unfold_locales, goal_cases)
  case (1 s a n e d t)
  then show ?case by (auto simp: fv_ops_reject)
next
  case (2 s a n b e t)
  then show ?case by (auto simp: fv_ops_reject)
next
  case (3 s a n e t)
  then show ?case by (auto simp: fv_ops_reject)
next
  case (4 s a n e d t)
  show ?case
  proof (cases "fv_accept s a n")
    case True
    from 4(1) True 4(2) show ?thesis by (rule fv_rdE) (use 4(1) in simp)
  qed (use 4 in \<open>auto simp: fv_ops_reject\<close>)
next
  case (5 s a b n e t)
  show ?case
  proof (cases "fv_accept s a n")
    case True
    from 5(1) True 5(2) show ?thesis by (rule fv_wrE) (use 5(1) in simp)
  qed (use 5 in \<open>auto simp: fv_ops_reject\<close>)
next
  case (6 s a n e t)
  show ?case
  proof (cases "fv_accept s a n")
    case True
    from 6(1) True 6(2) show ?thesis by (rule fv_erE) (use 6(1) in simp)
  qed (use 6 in \<open>auto simp: fv_ops_reject\<close>)
next
  case (7 s a n e d t)
  then obtain q p where p: "pe_inv (fv_pe s)" "pe_accept (fv_pe s) a n"
    "pe_rd (fv_pe s) a n = (q, d, p)" "fv_contents t = pe_contents p" by (rule fv_rdE)
  show ?case using port.rd_frame [OF p(1-3)] p(4) by simp
next
  case (8 s a n e d t)
  from 8(1-3) obtain q p where p: "pe_inv (fv_pe s)" "pe_accept (fv_pe s) a n"
    "pe_rd (fv_pe s) a n = (q, d, p)" "e = fal_rc n q" by (rule fv_rdE)
  show ?case using port.rd_good [OF p(1-3)] p(4) 8(4) by simp
next
  case (9 s a n b e t i)
  from 9(1-3) obtain q p where p: "pe_inv (fv_pe s)" "pe_accept (fv_pe s) a n"
    "pe_wr (fv_pe s) a b n = (q, p)" "fv_contents t = pe_contents p" by (rule fv_wrE)
  show ?case using port.wr_frame [OF p(1-3) 9(4)] p(4) by simp
next
  case (10 s a n b e t j)
  from 10(1-3) obtain q p where p: "pe_inv (fv_pe s)" "pe_accept (fv_pe s) a n"
    "pe_wr (fv_pe s) a b n = (q, p)" "e = fal_rc n q" "fv_contents t = pe_contents p" by (rule fv_wrE)
  show ?case using port.wr_good [OF p(1-3)] p(4,5) 10(4-7) by simp
next
  case (11 s a n e t i)
  from 11(1-3) obtain q p where p: "pe_inv (fv_pe s)" "pe_accept (fv_pe s) a n"
    "pe_er (fv_pe s) a n = (q, p)" "fv_contents t = pe_contents p" by (rule fv_erE)
  show ?case using port.er_frame [OF p(1-3) 11(4)] p(4) by simp
next
  case (12 s a n e t i)
  from 12(1-3) obtain q p where p: "pe_inv (fv_pe s)" "pe_accept (fv_pe s) a n"
    "pe_er (fv_pe s) a n = (q, p)" "e = fal_rc n q" "fv_contents t = pe_contents p" by (rule fv_erE)
  show ?case using port.er_good [OF p(1-3) _ 12(5)] p(4,5) 12(4) by simp
qed


section \<open>Reads, writes and erases through the adapter\<close>

text \<open>
  On an initialised adapter a read is accepted exactly when it lies in the partition;
  an accepted read is the port's read, answered by the length or by -1, and every other
  read is answered by -1 without touching the flash. The adapter's own check subsumes the
  port's: no accepted request is refused for a negative offset.
\<close>

theorem fal_partition_read_correct:
  assumes "fal_up api mem s"
  shows "fal_partition_read api PartGlobal a True n s =
    (if unat a + unat n \<le> unat (flashdb_port_size (fs_port s))
     then (case flash_area_read api (the (flashdb_area (fs_port s))) a n (fs_w s) of
             (r, d, w) \<Rightarrow> (if r = 0 then uint n else - 1, d, s\<lparr>fs_w := w\<rparr>))
     else (- 1, [], s))"
proof -
  obtain fa where fa: "flashdb_area (fs_port s) = Some fa" "unat (fa_size fa) < 2 ^ 31"
    and up: "g_fal_inited (fs_fal s)" "fp_len (g_partition (fs_fal s)) = fa_size fa"
    using assms by (auto simp: fal_up_def fal_ok_def the_partition_def flashdb_port_size_def)
  show ?thesis
  proof (cases "unat a + unat n \<le> unat (fa_size fa)")
    case True
    then have "in_area fa a n" and "sint n = uint n"
      using fa(2) by (simp_all add: in_area_def sint32_nonneg_iff sint32_cases)
    then show ?thesis
      using True fa(1) up
      by (simp add: fal_partition_read_def part_is_valid_def range_check_iff flashdb_port_size_def
          port_ops_in_area [OF fa(1)] split: prod.split)
  next
    case False
    then show ?thesis
      using fa(1) up
      by (simp add: fal_partition_read_def part_is_valid_def range_check_iff flashdb_port_size_def)
  qed
qed

text \<open>
  C12. What FlashDB programs through the adapter it reads back: after an erase, a program and a
  read at the same address that each returned the length they were asked for, the data are the
  programmed bytes, and the contents outside the erased range are untouched.
\<close>

theorem fal_program_round_trip:
  assumes "fal_up api mem s"
    and "fal_partition_erase api PartGlobal a m s = (uint m, s1)"
    and "fal_partition_write api PartGlobal a (Some buf) n s1 = (uint n, s2)"
    and "fal_partition_read api PartGlobal a True n s2 = (uint n, data, s3)"
    and "unat n \<le> length buf" and "unat n \<le> unat m"
    and "i < unat a \<or> unat a + unat m \<le> i"
  shows "data = take (unat n) buf \<and> mem (fs_w s3) i = mem (fs_w s) i"
proof -
  let ?e = "\<lambda>s. \<lparr>fv_api = api, fv_mem = mem, fv_sys = s\<rparr>"
  have inv: "fv_inv (?e s)" using assms(1) by (simp add: fv_inv_def)
  have er: "fv_er (?e s) a m = (uint m, ?e s1)" and wr: "fv_wr (?e s1) a buf n = (uint n, ?e s2)"
    and rd: "fv_rd (?e s2) a n = (uint n, data, ?e s3)"
    using assms(2-4) by (simp_all add: fv_er_def fv_wr_def fv_rd_def)
  have g: "rc_len k (uint k)" for k by (simp add: rc_len_def)
  have inv2: "fv_inv (?e s2)" using fal.er_inv [OF inv er] fal.wr_inv [OF _ wr] by blast
  have "fv_contents (?e s3) i = fv_contents (?e s) i"
    using fal.rd_state [OF inv2 rd] fal.erase_program_contents [OF inv er g wr g assms(5,6)]
      assms(6,7) by auto
  then show ?thesis
    using fal.program_read_back [OF inv er g wr g assms(5,6) rd g] by (simp add: fv_contents_def)
qed

text \<open>
  A successful erase of the whole partition leaves every byte of it erased.
\<close>

theorem fal_erase_all_correct:
  assumes "fal_up api mem s" and "fal_partition_erase_all api PartGlobal s = (r, s')"
    and "0 \<le> r" and "i < unat (flashdb_port_size (fs_port s))"
  shows "mem (fs_w s') i = 255"
proof -
  let ?e = "\<lambda>s. \<lparr>fv_api = api, fv_mem = mem, fv_sys = s\<rparr>" and ?n = "fp_len (g_partition (fs_fal s))"
  have inv: "fv_inv (?e s)" using assms(1) by (simp add: fv_inv_def)
  have up: "g_fal_inited (fs_fal s)" "?n = flashdb_port_size (fs_port s)"
    using assms(1) by (auto simp: fal_up_def fal_ok_def the_partition_def)
  have er: "fv_er (?e s) 0 ?n = (r, ?e s')"
    using assms(2) up(1) by (simp add: fal_partition_erase_all_def part_is_valid_def fv_er_def)
  have acc: "fv_accept (?e s) 0 ?n" by (simp add: fv_accept_def fv_len_def)
  obtain q where "r = fal_rc ?n q" using inv acc er by (rule fv_erE)
  then have "rc_len ?n r" using assms(3) by (auto simp: fal_rc_def rc_len_def split: if_splits)
  then show ?thesis
    using fal.er_good [OF inv acc er, of i] assms(4) up(2) by (simp add: fv_contents_def)
qed


section \<open>Concrete instances\<close>

definition sim_reset :: "(nat \<Rightarrow> u8) fal_sys" where
  "sim_reset = \<lparr>fs_fal = fal_state0, fs_port = port_state0, fs_w = \<lambda>i. 0\<rparr>"

definition sim_sys :: "(nat \<Rightarrow> u8) \<Rightarrow> (nat \<Rightarrow> u8) fal_sys" where
  "sim_sys w = \<lparr>fs_fal = \<lparr>g_flash_dev = the_flash_dev 4096 1024, g_partition = the_partition 4096,
     g_fal_inited = True\<rparr>, fs_port = sim_port, fs_w = w\<rparr>"

lemma sim_fal_init: "fal_init sim_flash sim_reset = (1, sim_sys (\<lambda>i. 0))"
proof -
  have port: "flashdb_port_init sim_flash port_state0 (\<lambda>i. 0) = (0, sim_port, \<lambda>i. 0)"
    by (simp add: sim_port_eq flashdb_port_init_def sim_flash_def port_state0_def Let_def)
  show ?thesis
    by (simp add: fal_init_def sim_reset_def fal_state0_def port flashdb_port_size_def
        flashdb_port_erase_size_def sim_port_eq sim_area_def sim_sys_def the_flash_dev_def
        the_partition_def zero_flash_dev_def zero_partition_def fal_names Let_def,
        simp add: port_state0_def)
qed

lemma sim_reset_ok: "fal_ok sim_reset"
  by (simp add: fal_ok_def sim_reset_def fal_state0_def)

lemma sim_up: "fal_up sim_flash (\<lambda>w. w) (sim_sys w)"
proof -
  have "unat (fa_size sim_area) < 2 ^ 31" by (simp add: sim_area_def)
  moreover have "fal_ok (sim_sys w)"
    by (simp add: fal_ok_def sim_sys_def flashdb_port_size_def flashdb_port_erase_size_def
        sim_port_eq sim_area_def)
  ultimately show ?thesis
    using sim_flash_ok by (simp add: fal_up_def sim_sys_def sim_port_eq)
qed

theorem fal_init_correct_witness:
  "\<exists>s'. fal_init sim_flash sim_reset = (1, s') \<and> g_fal_inited (fs_fal s') \<and>
    c_str (fp_name (g_partition (fs_fal s'))) = ''flashdb'' \<and> fp_len (g_partition (fs_fal s')) = 4096"
proof -
  have port: "(if flashdb_port_size (fs_port sim_reset) = 0
      then flashdb_port_init sim_flash (fs_port sim_reset) (fs_w sim_reset)
      else (0, fs_port sim_reset, fs_w sim_reset)) = (0, sim_port, \<lambda>i. 0)"
    by (simp add: sim_port_eq flashdb_port_init_def sim_flash_def sim_reset_def port_state0_def flashdb_port_size_def Let_def)
  have size: "flashdb_port_size sim_port = 4096" "flashdb_port_erase_size sim_port = 1024"
    by (simp_all add: flashdb_port_size_def flashdb_port_erase_size_def sim_port_eq sim_area_def)
  have fresh: "\<not> g_fal_inited (fs_fal sim_reset)" by (simp add: sim_reset_def fal_state0_def)
  from fal_init_correct [OF sim_reset_ok sim_fal_init port] fresh size sim_fal_init show ?thesis by simp
qed

theorem fal_partition_find_correct_witness:
  "fst (fal_partition_find sim_flash (Some ''flashdb'') sim_reset) = PartGlobal \<and>
   fst (fal_partition_find sim_flash (Some ''modbus'') sim_reset) = PartNull"
proof -
  have "g_fal_inited (fs_fal (snd (fal_partition_find sim_flash (Some n) sim_reset)))" for n
    by (simp add: fal_partition_find_def fal_init_fails_def sim_fal_init)
       (simp add: sim_reset_def fal_state0_def sim_sys_def)
  then show ?thesis
    using fal_partition_find_correct [OF sim_reset_ok, of sim_flash "Some ''flashdb''", OF prod.collapse [symmetric]]
      fal_partition_find_correct [OF sim_reset_ok, of sim_flash "Some ''modbus''", OF prod.collapse [symmetric]]
    by (simp add: c_str_def)
qed

theorem fal_init_never_retries_witness:
  "fal_init sim_flash \<lparr>fs_fal = fal_state0,
       fs_port = fst (snd (flashdb_port_init
         (sim_flash\<lparr>flash_area_device_is_ready := \<lambda>fa w. False\<rparr>) port_state0 (\<lambda>i. 0))),
       fs_w = \<lambda>i. 0\<rparr> =
     (- 1, \<lparr>fs_fal = fal_state0,
       fs_port = fst (snd (flashdb_port_init
         (sim_flash\<lparr>flash_area_device_is_ready := \<lambda>fa w. False\<rparr>) port_state0 (\<lambda>i. 0))),
       fs_w = \<lambda>i. 0\<rparr>)"
proof -
  let ?a = "sim_flash\<lparr>flash_area_device_is_ready := \<lambda>fa w. False\<rparr>"
  have "flash_area_open ?a (\<lambda>i. 0) = (0, sim_area, \<lambda>i. 0)" and "fa_size sim_area \<noteq> 0"
    and "\<not> flash_area_device_is_ready ?a sim_area (\<lambda>i. 0)"
    by (simp_all add: sim_flash_def sim_area_def)
  moreover obtain ret p w2 where "flashdb_port_init ?a port_state0 (\<lambda>i. 0) = (ret, p, w2)"
    by (cases "flashdb_port_init ?a port_state0 (\<lambda>i. 0)")
  ultimately show ?thesis
    using fal_init_never_retries [of ?a "\<lambda>i. 0" sim_area "\<lambda>i. 0" ret p w2 sim_flash "\<lambda>i. 0"]
    by simp
qed

theorem fal_partition_read_correct_witness:
  "fal_partition_read sim_flash PartGlobal 4094 True 2 (sim_sys (\<lambda>i. 9)) =
     (2, [9, 9], sim_sys (\<lambda>i. 9)) \<and>
   fal_partition_read sim_flash PartGlobal 4094 True 3 (sim_sys (\<lambda>i. 9)) =
     (- 1, [], sim_sys (\<lambda>i. 9))"
proof -
  have z: "flashdb_port_size (fs_port (sim_sys w)) = 4096" "the (flashdb_area (fs_port (sim_sys w))) = sim_area"
    "fs_w (sim_sys w) = w" "(sim_sys w)\<lparr>fs_w := v\<rparr> = sim_sys v" for w v
    by (simp_all add: sim_sys_def flashdb_port_size_def sim_port_eq sim_area_def)
  show ?thesis
    using fal_partition_read_correct [OF sim_up, of 4094 2 "\<lambda>i. 9"]
      fal_partition_read_correct [OF sim_up, of 4094 3 "\<lambda>i. 9"]
    by (simp add: z) (simp add: sim_flash_def z upt_conv_Cons)
qed

lemma sim_fal_ops:
  "fal_partition_erase sim_flash PartGlobal 1024 1024 (sim_sys w) =
     (1024, sim_sys (\<lambda>i. if 1024 \<le> i \<and> i < 2048 then 255 else w i))"
  "fal_partition_write sim_flash PartGlobal 1024 (Some [10, 20, 30]) 3 (sim_sys w) =
     (3, sim_sys (\<lambda>i. if 1024 \<le> i \<and> i < 1027 then [10, 20, 30] ! (i - unat (1024 :: u32)) else w i))"
  "fal_partition_read sim_flash PartGlobal 1024 True 3 (sim_sys w) =
     (3, map w [1024 ..< 1027], sim_sys w)"
  "fal_partition_erase_all sim_flash PartGlobal (sim_sys w) =
     (4096, sim_sys (\<lambda>i. if i < 4096 then 255 else w i))"
  by (simp_all add: fal_partition_erase_def fal_partition_write_def fal_partition_read_def
      fal_partition_erase_all_def part_is_valid_def sim_sys_def the_partition_def
      flashdb_port_erase_def flashdb_port_write_def flashdb_port_read_def flashdb_check_range_def
      sim_port_eq sim_area_def sint32_cases Let_def, simp_all add: sim_flash_def)

theorem fal_program_round_trip_witness:
  "\<exists>s1 s2 data s3.
     fal_partition_erase sim_flash PartGlobal 1024 1024 (sim_sys (\<lambda>i. 0)) = (1024, s1) \<and>
     fal_partition_write sim_flash PartGlobal 1024 (Some [10, 20, 30]) 3 s1 = (3, s2) \<and>
     fal_partition_read sim_flash PartGlobal 1024 True 3 s2 = (3, data, s3) \<and>
     data = [10, 20, 30] \<and> fs_w s3 0 = 0"
proof -
  obtain s1 w1 where 1: "fal_partition_erase sim_flash PartGlobal 1024 1024 (sim_sys (\<lambda>i. 0)) = (1024, s1)"
    and s1: "s1 = sim_sys w1" using sim_fal_ops(1) by blast
  obtain s2 w2 where 2: "fal_partition_write sim_flash PartGlobal 1024 (Some [10, 20, 30]) 3 s1 = (3, s2)"
    and s2: "s2 = sim_sys w2" using sim_fal_ops(2) unfolding s1 by blast
  obtain data s3 where 3: "fal_partition_read sim_flash PartGlobal 1024 True 3 s2 = (3, data, s3)"
    using sim_fal_ops(3) unfolding s2 by blast
  have "fs_w (sim_sys (\<lambda>i. 0)) 0 = 0" by (simp add: sim_sys_def)
  then have "data = [10, 20, 30] \<and> fs_w s3 0 = 0"
    using fal_program_round_trip [OF sim_up, of 1024 1024 "\<lambda>i. 0" s1 "[10, 20, 30]" 3 s2 data s3 0]
      1 2 3 by simp
  with 1 2 3 show ?thesis by blast
qed

theorem fal_erase_all_correct_witness:
  "fs_w (snd (fal_partition_erase_all sim_flash PartGlobal (sim_sys (\<lambda>i. 0)))) 4095 = 255"
proof -
  have "(4095::nat) < unat (flashdb_port_size (fs_port (sim_sys (\<lambda>i. 0))))"
    by (simp add: sim_sys_def flashdb_port_size_def sim_port_eq sim_area_def)
  then show ?thesis
    using fal_erase_all_correct [OF sim_up sim_fal_ops(4), of 4095 "\<lambda>i. 0"]
    by (simp add: sim_fal_ops(4))
qed

end
