(* ===== verification/AtsMain.thy ===== *)
theory AtsMain
  imports ModbusTask FlashSelfTest FlashIdent FalStub
begin

text \<open>
  The controller's entry point, \<^verbatim>\<open>ATS-M7/src/main.c\<close>: bring up the flash port, print
  the chip identification, run the flash self test, start the Modbus service, then execute
  the periodic task forever with a sleep of 1 ms. The state below the Modbus service is
  \<open>fal_sys\<close>: the statics of the FAL adapter and of the flash port, and the hardware.
  \<open>ats_loop\<close> is the loop cut off after \<open>n\<close> rounds.
\<close>

section \<open>Boot stages\<close>

text \<open>How far a boot got: where it stopped, or that the loop was entered.\<close>

datatype boot_stage = At_port_init | At_self_test | At_service_init | At_loop

primrec stage_no :: "boot_stage \<Rightarrow> nat" where
  "stage_no At_port_init = 0"
| "stage_no At_self_test = 1"
| "stage_no At_service_init = 2"
| "stage_no At_loop = 3"

lemma stage_no_inj: "stage_no a = stage_no b \<Longrightarrow> a = b"
  by (cases a; cases b) simp_all

instantiation boot_stage :: linorder
begin

definition less_eq_boot_stage :: "boot_stage \<Rightarrow> boot_stage \<Rightarrow> bool" where
  "less_eq_boot_stage a b \<longleftrightarrow> stage_no a \<le> stage_no b"

definition less_boot_stage :: "boot_stage \<Rightarrow> boot_stage \<Rightarrow> bool" where
  "less_boot_stage a b \<longleftrightarrow> stage_no a < stage_no b"

instance
  by standard (auto simp: less_eq_boot_stage_def less_boot_stage_def intro: stage_no_inj)

end

section \<open>The program\<close>

type_synonym 'w ats_sys = "'w fal_sys mb_sys"

definition ats_set_hw :: "'w ats_sys \<Rightarrow> port_state \<Rightarrow> 'w \<Rightarrow> 'w ats_sys" where
  "ats_set_hw y p w = y\<lparr>sy_w := (sy_w y)\<lparr>fs_port := p, fs_w := w\<rparr>\<rparr>"

text \<open>Result: the stage reached, the return code of its call, what was printed, the state.\<close>

definition ats_boot ::
  "port_config \<Rightarrow> 'w flash_api \<Rightarrow> 'w fal_sys mb_api \<Rightarrow> 'w ats_sys
     \<Rightarrow> boot_stage \<times> int \<times> port_msg list \<times> 'w ats_sys" where
  "ats_boot cfg fa mb y =
     (let (ret, p, w1) = flashdb_port_init fa (fs_port (sy_w y)) (fs_w (sy_w y)) in
      if ret \<noteq> 0 then (At_port_init, ret, [], ats_set_hw y p w1)
      else
        let (ret_id, out1, w2) = flashdb_port_print_jedec_id cfg fa p w1;
            (ret_sfdp, out2, w3) = flashdb_port_print_sfdp_dw15 cfg fa p w2;
            (ret, w4) = flashdb_port_self_test fa p w3;
            y1 = ats_set_hw y p w4 in
        if ret \<noteq> 0 then (At_self_test, ret, out1 @ out2, y1)
        else
          let (ret, y2) = modbus_service_init mb y1 in
          if ret \<noteq> 0 then (At_service_init, ret, out1 @ out2, y2)
          else (At_loop, ret, out1 @ out2, y2))"

primrec ats_loop :: "'w mb_api \<Rightarrow> nat \<Rightarrow> 'w mb_sys \<Rightarrow> 'w mb_sys option" where
  "ats_loop mb 0 y = Some y"
| "ats_loop mb (Suc n) y =
     (case modbus_service_tick mb y of
        None \<Rightarrow> None
      | Some y1 \<Rightarrow> ats_loop mb n (y1\<lparr>sy_w := k_sleep_ms (mb_rs mb) 1 (sy_w y1)\<rparr>))"

text \<open>\<open>main\<close> run for \<open>n\<close> rounds of its loop; \<open>Inl\<close> when it has returned, with its code 0.\<close>

definition ats_main ::
  "port_config \<Rightarrow> 'w flash_api \<Rightarrow> 'w fal_sys mb_api \<Rightarrow> nat \<Rightarrow> 'w ats_sys \<Rightarrow> (int + 'w ats_sys) option" where
  "ats_main cfg fa mb n y =
     (case ats_boot cfg fa mb y of (stage, ret, out, y1) \<Rightarrow>
        if stage < At_loop then Some (Inl 0) else map_option Inr (ats_loop mb n y1))"

section \<open>What the flash part of the boot leaves alone\<close>

text \<open>
  Opening the partition and identifying the chip do not change the view \<open>l\<close> of the hardware;
  with \<open>flash_keeps\<close>, nothing the flash driver does changes it.
\<close>

definition flash_asks_keep :: "'w flash_api \<Rightarrow> ('w \<Rightarrow> 'a) \<Rightarrow> bool" where
  "flash_asks_keep fa l \<longleftrightarrow>
     (\<forall>w. l (snd (snd (flash_area_open fa w))) = l w) \<and>
     (\<forall>dev cmd w. l (snd (snd (flash_ex_op_generic_read fa dev cmd w))) = l w) \<and>
     (\<forall>dev w. l (snd (snd (flash_read_jedec_id fa dev w))) = l w)"

definition flash_keeps :: "'w flash_api \<Rightarrow> ('w \<Rightarrow> 'a) \<Rightarrow> bool" where
  "flash_keeps fa l \<longleftrightarrow> flash_asks_keep fa l \<and>
     (\<forall>a off len w. l (snd (snd (flash_area_read fa a off len w))) = l w) \<and>
     (\<forall>a off buf len w. l (snd (flash_area_write fa a off buf len w)) = l w) \<and>
     (\<forall>a off len w. l (snd (flash_area_erase fa a off len w)) = l w)"

lemma flash_asksD:
  assumes "flash_asks_keep fa l"
  shows "flash_area_open fa w = (r, a, w') \<Longrightarrow> l w' = l w"
    and "flash_ex_op_generic_read fa dev cmd w = (r, d, w') \<Longrightarrow> l w' = l w"
    and "flash_read_jedec_id fa dev w = (r, d, w') \<Longrightarrow> l w' = l w"
  using assms unfolding flash_asks_keep_def by (metis snd_conv)+

lemma flash_keepsD:
  assumes "flash_keeps fa l"
  shows "flash_asks_keep fa l" and "flash_area_read fa a off len w = (r, d, w') \<Longrightarrow> l w' = l w"
    and "flash_area_write fa a off buf len w = (r, w') \<Longrightarrow> l w' = l w"
    and "flash_area_erase fa a off len w = (r, w') \<Longrightarrow> l w' = l w"
  using assms unfolding flash_keeps_def by (metis snd_conv)+

lemma init_keeps:
  assumes "flash_asks_keep fa l" and "flashdb_port_init fa s w = (r, s', w')"
  shows "l w' = l w"
  using assms(2)
  by (auto simp: flashdb_port_init_def Let_def split: if_splits prod.splits dest!: flash_asksD(1) [OF assms(1)])

lemma port_calls_keep:
  assumes "flash_keeps fa l"
  shows "flashdb_port_read fa s off len w = (r, d, w') \<Longrightarrow> l w' = l w"
    and "flashdb_port_write fa s off buf len w = (r, w') \<Longrightarrow> l w' = l w"
    and "flashdb_port_erase fa s off len w = (r, w') \<Longrightarrow> l w' = l w"
  by (auto simp: flashdb_port_read_def flashdb_port_write_def flashdb_port_erase_def Let_def
      split: if_splits option.splits prod.splits dest!: flash_keepsD(2-4) [OF assms])

lemma self_test_keeps:
  assumes "flash_keeps fa l" and "flashdb_port_self_test fa s w = (r, w')"
  shows "l w' = l w"
  using assms(2)
  by (auto simp: flashdb_port_self_test_def Let_def split: if_splits option.splits prod.splits
      dest!: port_calls_keep [OF assms(1)])

lemma ident_keeps:
  assumes "flash_asks_keep fa l"
  shows "flashdb_port_print_jedec_id cfg fa s w = (r, out, w') \<Longrightarrow> l w' = l w"
    and "flashdb_port_print_sfdp_dw15 cfg fa s w = (r, out, w') \<Longrightarrow> l w' = l w"
proof -
  have fallback: "l w2 = l w1" if "jedec_fallback cfg fa a w1 = (r, out, w2)" for a w1 r out w2
    using that by (auto simp: jedec_fallback_def Let_def split: if_splits prod.splits dest!: flash_asksD(3) [OF assms])
  have rd: "l w2 = l w1" if "qspi_read_id_raw fa dev op im dm n w1 = (r, d, w2)" for dev op im dm n w1 r d w2
    using that flash_asksD(2) [OF assms] by (simp add: qspi_read_id_raw_def)
  have sfdp: "l w2 = l w1" if "qspi_read_sfdp_raw fa dev addr n w1 = (r, d, w2)" for dev addr n w1 r d w2
    using that flash_asksD(2) [OF assms] by (simp add: qspi_read_sfdp_raw_def qspi_read_sfdp_raw_custom_def)
  show "flashdb_port_print_jedec_id cfg fa s w = (r, out, w') \<Longrightarrow> l w' = l w"
    by (auto simp: flashdb_port_print_jedec_id_def Let_def split: if_splits option.splits prod.splits
        dest!: fallback rd)
  show "flashdb_port_print_sfdp_dw15 cfg fa s w = (r, out, w') \<Longrightarrow> l w' = l w"
    by (auto simp: flashdb_port_print_sfdp_dw15_def Let_def split: if_splits option.splits prod.splits
        dest!: sfdp)
qed

lemma port_init_area:
  assumes "flashdb_port_init fa s w = (0, p, w1)"
  obtains area w2 n where "flash_area_open fa w = (0, area, w2)" and "flashdb_area p = Some area"
    and "flash_get_page_info_by_offs fa (fa_dev area) (fa_off area) w2 = (0, n)" and "flashdb_erase_size p = n"
  using assms by (auto simp: flashdb_port_init_def Let_def split: if_splits prod.splits)

text \<open>The boot as its calls.\<close>

lemma ats_boot_calls:
  assumes "ats_boot cfg fa mb y = (stage, ret, out, y')"
  obtains r1 p w1 w3 r2 w4 where "flashdb_port_init fa (fs_port (sy_w y)) (fs_w (sy_w y)) = (r1, p, w1)"
    and "\<And>l :: _ \<Rightarrow> 'l. flash_asks_keep fa l \<Longrightarrow> l w3 = l w1" and "flashdb_port_self_test fa p w3 = (r2, w4)"
    and "stage = At_port_init \<and> r1 \<noteq> 0 \<and> ret = r1 \<and> y' = ats_set_hw y p w1 \<or>
      stage = At_self_test \<and> r1 = 0 \<and> r2 \<noteq> 0 \<and> ret = r2 \<and> y' = ats_set_hw y p w4 \<or>
      At_service_init \<le> stage \<and> r1 = 0 \<and> r2 = 0 \<and> (ret = 0 \<longleftrightarrow> stage = At_loop) \<and>
        modbus_service_init mb (ats_set_hw y p w4) = (ret, y')"
proof -
  obtain r1 p w1 where init: "flashdb_port_init fa (fs_port (sy_w y)) (fs_w (sy_w y)) = (r1, p, w1)"
    by (cases "flashdb_port_init fa (fs_port (sy_w y)) (fs_w (sy_w y))")
  obtain i out1 w2 where id: "flashdb_port_print_jedec_id cfg fa p w1 = (i, out1, w2)"
    by (cases "flashdb_port_print_jedec_id cfg fa p w1")
  obtain d out2 w3 where dump: "flashdb_port_print_sfdp_dw15 cfg fa p w2 = (d, out2, w3)"
    by (cases "flashdb_port_print_sfdp_dw15 cfg fa p w2")
  obtain r2 w4 where test: "flashdb_port_self_test fa p w3 = (r2, w4)"
    by (cases "flashdb_port_self_test fa p w3")
  obtain r3 y2 where srv: "modbus_service_init mb (ats_set_hw y p w4) = (r3, y2)"
    by (cases "modbus_service_init mb (ats_set_hw y p w4)")
  have keep: "l w3 = l w1" if "flash_asks_keep fa l" for l :: "_ \<Rightarrow> 'l"
    using ident_keeps(1) [OF that id] ident_keeps(2) [OF that dump] by simp
  show thesis
    using that [OF init _ test] keep assms [unfolded ats_boot_def init id dump test srv Let_def prod.case] srv
    by (auto simp: less_eq_boot_stage_def split: if_splits)
qed

section \<open>Properties\<close>

text \<open>
  C20. Every boot that gets as far as the Modbus service has, just before, erased the first
  block of the partition the point database lives in and written the test message there:
  whatever the database had stored in that block is gone when it is opened.
\<close>

theorem ats_boot_wipes_first_block:
  assumes boot: "ats_boot cfg fa mb y = (stage, ret, out, y')" and "At_service_init \<le> stage"
    and opened: "flash_area_open fa (fs_w (sy_w y)) = (0, area, v)"
    and "flash_ok fa area mem" and "round_up_ok fa" and "unat (flash_area_align fa area) < 2 ^ 31"
    and block: "\<And>dev off w r n. flash_get_page_info_by_offs fa dev off w = (r, n) \<Longrightarrow> 64 \<le> unat n"
  shows "\<exists>y1. modbus_service_init mb y1 = (ret, y') \<and>
    64 \<le> unat (flashdb_erase_size (fs_port (sy_w y1))) \<and>
    (\<forall>i < unat (flashdb_erase_size (fs_port (sy_w y1))).
      mem (fs_w (sy_w y1)) i = (if i < 18 then self_test_msg ! i else 255))"
proof -
  obtain r1 p w1 w3 r2 w4 where init: "flashdb_port_init fa (fs_port (sy_w y)) (fs_w (sy_w y)) = (r1, p, w1)"
    and test: "flashdb_port_self_test fa p w3 = (r2, w4)" and r: "r1 = 0" "r2 = 0"
    and srv: "modbus_service_init mb (ats_set_hw y p w4) = (ret, y')"
    by (rule ats_boot_calls [OF boot]) (use assms(2) in \<open>auto simp: less_eq_boot_stage_def\<close>)
  have p: "flashdb_area p = Some area" "64 \<le> unat (flashdb_erase_size p)"
    using port_init_area [OF init [unfolded r(1)]] opened block by (metis prod.inject)+
  have "\<forall>i < unat (flashdb_erase_size p). mem w4 i = (if i < 18 then self_test_msg ! i else 255)"
    using self_test_contents [OF p(1) assms(4-6) p(2) test [unfolded r]] by simp
  then show ?thesis
    using srv p by (intro exI [of _ "ats_set_hw y p w4"]) (simp add: ats_set_hw_def)
qed

text \<open>
  The heartbeat over any number of rounds. \<open>hb_lag\<close> is the time since the last count at the
  next reading of the clock; a round takes at most \<open>g\<close> ms when the readings of two
  successive rounds are at most \<open>g\<close> apart.
\<close>

definition hb_lag :: "'w mb_api \<Rightarrow> 'w mb_sys \<Rightarrow> int" where
  "hb_lag mb y = sint (fst (k_uptime_get (mb_rs mb) (sy_w y))) - sint (hb_last_ms (sy_mb y))"

definition round_time :: "'w mb_api \<Rightarrow> int \<Rightarrow> bool" where
  "round_time mb g \<longleftrightarrow> 0 \<le> g \<and>
     (\<forall>y y1. modbus_service_tick mb y = Some y1 \<longrightarrow>
        sint (fst (k_uptime_get (mb_rs mb) (k_sleep_ms (mb_rs mb) 1 (sy_w y1))))
          \<le> sint (fst (k_uptime_get (mb_rs mb) (sy_w y))) + g)"

lemma elapsed_word_eq:
  fixes a b :: s64
  assumes "0 \<le> sint a" and "0 \<le> sint b"
  shows "sint (a - b) = sint a - sint b"
proof -
  have "sint a < 2 ^ 63" "sint b < 2 ^ 63" using sint_lt [of a] sint_lt [of b] by simp_all
  then show ?thesis
    using assms by (simp add: signed_take_bit_int_eq_self_iff sint_word_ariths)
qed

lemma ats_loop_heartbeat:
  assumes clock: "\<And>w. 0 \<le> sint (fst (k_uptime_get (mb_rs mb) w))"
  shows "ats_loop mb n y = Some y' \<Longrightarrow> 0 \<le> sint (hb_last_ms (sy_mb y)) \<Longrightarrow>
    input_reg (sy_mb y) \<noteq> [] \<Longrightarrow>
    \<exists>k. k \<le> n \<and> input_reg (sy_mb y') = (input_reg (sy_mb y))[0 := input_reg (sy_mb y) ! 0 + of_nat k] \<and>
      sint (hb_last_ms (sy_mb y)) + 1000 * int k \<le> sint (hb_last_ms (sy_mb y')) \<and>
      (round_time mb g \<and> hb_lag mb y < 1000 + g \<longrightarrow> hb_lag mb y' < 1000 + g \<and>
        sint (hb_last_ms (sy_mb y')) \<le> sint (hb_last_ms (sy_mb y)) + (999 + g) * int k)"
proof (induction n arbitrary: y)
  case 0
  then show ?case by (auto intro: exI [of _ 0])
next
  case (Suc n)
  obtain y1 where tick: "modbus_service_tick mb y = Some y1"
    and rest: "ats_loop mb n (y1\<lparr>sy_w := k_sleep_ms (mb_rs mb) 1 (sy_w y1)\<rparr>) = Some y'"
    using Suc.prems(1) by (auto split: option.splits)
  obtain t w1 m rs w2 where up: "k_uptime_get (mb_rs mb) (sy_w y) = (t, w1)"
    and poll: "modbus_rx_poll mb (sy_mb y) (sy_rs y, w1) = Some (m, rs, w2)"
    and m1: "sy_mb y1 = (if sint (t - hb_last_ms m) \<ge> 1000
      then m\<lparr>input_reg := (input_reg m)[0 := input_reg m ! 0 + 1], hb_last_ms := t\<rparr> else m)"
    using tickE [OF tick] by metis
  note regs = poll_registers [OF poll]
  have t: "0 \<le> sint t" using clock [of "sy_w y"] up by simp
  let ?j = "if sint (t - hb_last_ms m) \<ge> 1000 then 1 else 0 :: nat"
  have step: "input_reg (sy_mb y1) = (input_reg (sy_mb y))[0 := input_reg (sy_mb y) ! 0 + of_nat ?j]"
    "sint (hb_last_ms (sy_mb y)) + 1000 * int ?j \<le> sint (hb_last_ms (sy_mb y1))"
    using m1 regs Suc.prems(2,3) t elapsed_word_eq [OF t, of "hb_last_ms m"] by auto
  let ?y = "y1\<lparr>sy_w := k_sleep_ms (mb_rs mb) 1 (sy_w y1)\<rparr>"
  have prompt: "hb_lag mb ?y < 1000 + g \<and>
      sint (hb_last_ms (sy_mb ?y)) \<le> sint (hb_last_ms (sy_mb y)) + (999 + g) * int ?j"
    if "round_time mb g" "hb_lag mb y < 1000 + g"
  proof -
    have "sint (fst (k_uptime_get (mb_rs mb) (k_sleep_ms (mb_rs mb) 1 (sy_w y1))))
        \<le> sint (fst (k_uptime_get (mb_rs mb) (sy_w y))) + g" "0 \<le> g"
      using that(1) tick unfolding round_time_def by blast+
    then have "sint (fst (k_uptime_get (mb_rs mb) (sy_w ?y))) \<le> sint t + g" "0 \<le> g" using up by simp_all
    then show ?thesis
      using that(2) m1 regs up Suc.prems(2) elapsed_word_eq [OF t, of "hb_last_ms m"] by (auto simp: hb_lag_def)
  qed
  have "0 \<le> sint (hb_last_ms (sy_mb y1))" "input_reg (sy_mb y1) \<noteq> []"
    using step Suc.prems(2,3) by (auto split: if_splits)
  then obtain k where k: "k \<le> n"
    "input_reg (sy_mb y') = (input_reg (sy_mb y1))[0 := input_reg (sy_mb y1) ! 0 + of_nat k]"
    "sint (hb_last_ms (sy_mb y1)) + 1000 * int k \<le> sint (hb_last_ms (sy_mb y'))"
    and k': "round_time mb g \<and> hb_lag mb ?y < 1000 + g \<longrightarrow> hb_lag mb y' < 1000 + g \<and>
      sint (hb_last_ms (sy_mb y')) \<le> sint (hb_last_ms (sy_mb ?y)) + (999 + g) * int k"
    using Suc.IH [OF rest] by auto
  have "hb_lag mb y' < 1000 + g \<and>
      sint (hb_last_ms (sy_mb y')) \<le> sint (hb_last_ms (sy_mb y)) + (999 + g) * int (?j + k)"
    if "round_time mb g \<and> hb_lag mb y < 1000 + g"
    using prompt that k' by (auto simp: distrib_left simp del: of_nat_Suc split: if_splits)
  then show ?case
    using k step Suc.prems(3)
    by (intro exI [of _ "?j + k"]) (auto simp: algebra_simps nth_list_update split: if_splits)
qed

text \<open>
  C14. The heartbeat register counts seconds: after any number of rounds of the main loop it
  has advanced by some \<open>k\<close>, modulo \<open>2 ^ 16\<close>, and the other input registers are unchanged. It
  never runs fast: the stored times are at least \<open>1000 * k\<close> ms apart. When a round takes at
  most \<open>g\<close> ms it does not run slow either: they are at most \<open>(999 + g) * k\<close> ms apart, and at
  the next reading of the clock less than \<open>1000 + g\<close> ms have passed since the last count.
\<close>

theorem ats_heartbeat_rate:
  assumes "\<And>w. 0 \<le> sint (fst (k_uptime_get (mb_rs mb) w))" and "ats_loop mb n y = Some y'"
    and "0 \<le> sint (hb_last_ms (sy_mb y))" and "input_reg (sy_mb y) \<noteq> []"
  shows "\<exists>k \<le> n. input_reg (sy_mb y') = (input_reg (sy_mb y))[0 := input_reg (sy_mb y) ! 0 + of_nat k] \<and>
    1000 * int k \<le> sint (hb_last_ms (sy_mb y')) - sint (hb_last_ms (sy_mb y)) \<and>
    (round_time mb g \<and> hb_lag mb y < 1000 + g \<longrightarrow> hb_lag mb y' < 1000 + g \<and>
      sint (hb_last_ms (sy_mb y')) - sint (hb_last_ms (sy_mb y)) \<le> (999 + g) * int k)"
proof -
  obtain k where k: "k \<le> n" "input_reg (sy_mb y') = (input_reg (sy_mb y))[0 := input_reg (sy_mb y) ! 0 + of_nat k]"
    "sint (hb_last_ms (sy_mb y)) + 1000 * int k \<le> sint (hb_last_ms (sy_mb y'))"
    "round_time mb g \<and> hb_lag mb y < 1000 + g \<longrightarrow> hb_lag mb y' < 1000 + g \<and>
      sint (hb_last_ms (sy_mb y')) \<le> sint (hb_last_ms (sy_mb y)) + (999 + g) * int k"
    using ats_loop_heartbeat [OF assms] by blast
  then show ?thesis by (intro exI [of _ k]) auto
qed

section \<open>Witnesses\<close>

text \<open>A platform for the boot: the simulated flash, and services that are always there.\<close>

definition null_rs :: "'w rs_api" where
  "null_rs =
     \<lparr>rs_device_is_ready = (\<lambda>d w. True), gpio_pin_configure_dt = id, gpio_pin_set_dt = (\<lambda>v. id),
      k_sem_init = (\<lambda>c l. id), k_sem_give = id, k_sem_take = (\<lambda>w. (True, w)),
      uart_callback_set = (\<lambda>w. (0, w)), uart_rx_enable = (\<lambda>b n t w. (0, w)),
      uart_rx_buf_rsp = (\<lambda>b n. id), uart_tx = (\<lambda>d n w. (0, w)), ring_buf_put = (\<lambda>d w. (0, w)),
      ring_buf_get = (\<lambda>n w. (0, [], w)), k_uptime_get = (\<lambda>w. (0, w)), k_sleep_ms = (\<lambda>n. id),
      k_ticks_to_ms_floor64 = id, hw_irq = (\<lambda>w. None), hw_burst = (\<lambda>w. 0)\<rparr>"

definition null_mb :: "'w mb_api" where
  "null_mb =
     \<lparr>mb_rs = null_rs,
      mb_fdb =
        \<lparr>k_mutex_init = id, k_mutex_lock = id, k_mutex_unlock = id, fdb_kvdb_control = (\<lambda>c f w. w),
         fdb_kvdb_init = (\<lambda>nm path d w. (FDB_NO_ERR, w)), fdb_kv_get_blob = (\<lambda>key n w. (0, [], w)),
         fdb_kv_set_blob = (\<lambda>key d w. (FDB_NO_ERR, w))\<rparr>,
      MODBUS_BUFFER_SIZE = 256, crc16_ansi = (\<lambda>bs. 0), sys_put_le16 = le16_bytes,
      sys_get_le16 = of_le16_bytes, modbus_iface_get_by_name = (\<lambda>n w. (0, w)),
      modbus_init_server = (\<lambda>i p w. (0, w)), modbus_raw_submit_rx = (\<lambda>i a w. (0, w))\<rparr>"

definition sim_ats :: "(nat \<Rightarrow> u8) ats_sys" where
  "sim_ats = \<lparr>sy_mb = mb_state0 256, sy_rs = rs_state0, sy_db = \<lparr>g_db_ready = False\<rparr>,
     sy_w = \<lparr>fs_fal = fal_state0, fs_port = port_state0, fs_w = (\<lambda>i. 170)\<rparr>\<rparr>"

definition sim_cfg :: port_config where
  "sim_cfg = \<lparr>cfg_generic_read = True, cfg_jesd216 = True\<rparr>"

lemma sim_port_init: "flashdb_port_init sim_flash port_state0 w = (0, sim_port, w)"
  by (simp add: flashdb_port_init_def sim_port_eq) (simp add: sim_flash_def port_state0_def)

lemma sim_ats_boots: "\<exists>out y'. ats_boot sim_cfg sim_flash null_mb sim_ats = (At_loop, 0, out, y')"
proof -
  obtain i out1 w2 where id: "flashdb_port_print_jedec_id sim_cfg sim_flash sim_port (\<lambda>i. 170) = (i, out1, w2)"
    by (cases "flashdb_port_print_jedec_id sim_cfg sim_flash sim_port (\<lambda>i. 170)")
  obtain d out2 w3 where dump: "flashdb_port_print_sfdp_dw15 sim_cfg sim_flash sim_port w2 = (d, out2, w3)"
    by (cases "flashdb_port_print_sfdp_dw15 sim_cfg sim_flash sim_port w2")
  obtain w4 where test: "flashdb_port_self_test sim_flash sim_port w3 = (0, w4)"
    using sim_self_test [of w3] by (metis prod.collapse)
  have "fst (modbus_service_init null_mb y) = 0" for y :: "(nat \<Rightarrow> u8) ats_sys"
    by (simp add: modbus_service_init_def modbus_points_db_init_def rs485_init_def null_mb_def null_rs_def Let_def)
  then obtain y2 where "modbus_service_init null_mb (ats_set_hw sim_ats sim_port w4) = (0, y2)"
    by (metis prod.collapse)
  then show ?thesis
    using id dump test by (simp add: ats_boot_def sim_ats_def sim_port_init)
qed

theorem ats_boot_wipes_first_block_witness:
  "\<exists>(y1 :: (nat \<Rightarrow> u8) ats_sys) y'. modbus_service_init null_mb y1 = (0, y') \<and>
    (\<forall>i < unat (flashdb_erase_size (fs_port (sy_w y1))).
       fs_w (sy_w y1) i = (if i < 18 then self_test_msg ! i else 255))"
proof -
  obtain out y' where boot: "ats_boot sim_cfg sim_flash null_mb sim_ats = (At_loop, 0, out, y')"
    using sim_ats_boots by blast
  have stage: "At_service_init \<le> At_loop" by (simp add: less_eq_boot_stage_def)
  have opened: "flash_area_open sim_flash (fs_w (sy_w sim_ats)) = (0, sim_area, fs_w (sy_w sim_ats))"
    and align: "unat (flash_area_align sim_flash sim_area) < 2 ^ 31"
    and block: "flash_get_page_info_by_offs sim_flash dev off w = (r, n) \<Longrightarrow> 64 \<le> unat n" for dev off w r n
    by (auto simp: sim_flash_def)
  have "\<exists>y1. modbus_service_init null_mb y1 = (0, y') \<and>
      64 \<le> unat (flashdb_erase_size (fs_port (sy_w y1))) \<and>
      (\<forall>i < unat (flashdb_erase_size (fs_port (sy_w y1))).
        fs_w (sy_w y1) i = (if i < 18 then self_test_msg ! i else 255))"
    by (rule ats_boot_wipes_first_block [OF boot stage opened sim_flash_ok sim_round_up_ok align])
      (rule block)
  then show ?thesis by blast
qed

lemma sim_uptime: "sint (fst (k_uptime_get (mb_rs sim_mb) w)) = min (int (sm_ms (fst w))) (2 ^ 63 - 1)"
proof -
  obtain t w' where up: "k_uptime_get (mb_rs sim_mb) w = (t, w')" by (cases "k_uptime_get (mb_rs sim_mb) w")
  have "sint t = min ((int \<circ> sm_ms \<circ> fst) w) (2 ^ 63 - 1)"
    using sim_mb_ok(3) up unfolding clock_runs_def by blast
  then show ?thesis using up by simp
qed

end
