(* ===== verification/ModbusDelivery.thy ===== *)
theory ModbusDelivery
  imports AtsMain
begin

text \<open>
  From the receive ring to the server, through the main loop: a request that is complete in
  the ring has been handed to the Modbus server, exactly once and unchanged, after three
  rounds of the loop.
\<close>

section \<open>Time\<close>

lemma clockD:
  assumes "clock_runs api now"
  shows "k_uptime_get api w = (t, w') \<Longrightarrow> sint t = min (now w) (2 ^ 63 - 1) \<and> now w \<le> now w'"
    and "now w + 1 \<le> now (k_sleep_ms api 1 w)"
  using assms unfolding clock_runs_def by blast+

text \<open>The time of the last reception lies in the past.\<close>

definition rx_past :: "('w \<Rightarrow> int) \<Rightarrow> mb_state \<Rightarrow> 'w \<Rightarrow> bool" where
  "rx_past now m w \<longleftrightarrow> 0 \<le> sint (mb_last_rx_ms m) \<and> sint (mb_last_rx_ms m) \<le> now w"

lemma rx_past_later: "rx_past now m w \<Longrightarrow> now w \<le> now w' \<Longrightarrow> rx_past now m w'"
  by (simp add: rx_past_def)

lemma drain_past:
  assumes ok: "rs_ok (mb_rs api) line" and arr: "arrivals (mb_rs api) line left"
    and clk: "clock_runs (mb_rs api) now" and past: "rx_past now m (snd sw)"
    and run: "drain (\<lambda>sw. rs485_read_nowait (mb_rs api) sw MB_POLL_BUF_LEN) (mb_absorb api) m sw
      = Some (m', sw')"
  shows "rx_past now m' (snd sw')"
proof -
  have body: "rx_past now m2 (snd s2)" if "rx_past now m1 (snd s1)" "mb_absorb api m1 k b s1 = (m2, s2)"
    for m1 k b s1 m2 s2
  proof -
    obtain t w1 where up: "k_uptime_get (mb_rs api) (snd s1) = (t, w1)"
      by (cases "k_uptime_get (mb_rs api) (snd s1)")
    show ?thesis using that clockD(1) [OF clk up] by (auto simp: mb_absorb_def Let_def up rx_past_def split: if_splits)
  qed
  have "(rs_ok (mb_rs api) line \<and> arrivals (mb_rs api) line left) \<and> rx_past now m' (snd sw')"
  proof (rule rs485.drain_keeps [where P = "\<lambda>m s. rx_past now m (snd s)" and body = "mb_absorb api"])
    show "unat MB_POLL_BUF_LEN < 2 ^ 31" by simp
    show "(rs_ok (mb_rs api) line \<and> arrivals (mb_rs api) line left) \<and> rx_past now m2 (snd s2)"
      if "rx_past now m1 (snd s1)" "mb_absorb api m1 r b s1 = (m2, s2)" for m1 r b s1 m2 s2
      using body [OF that] ok arr by simp
    show "rx_past now m1 (snd s')"
      if "rx_past now m1 (snd s)" "rs485_read_nowait (mb_rs api) s MB_POLL_BUF_LEN = Some (r, b, s')"
      for m1 s r b s' using rx_past_later [OF that(1) read_nowait_now [OF clk that(2)]] .
    show "rs_ok (mb_rs api) line \<and> arrivals (mb_rs api) line left" using ok arr ..
    show "rx_past now m (snd sw)" by (rule past)
    show "drain (\<lambda>sw. rs485_read_nowait (mb_rs api) sw MB_POLL_BUF_LEN) (mb_absorb api) m sw
      = Some (m', sw')" by (rule run)
  qed
  then show ?thesis ..
qed

section \<open>A round of the main loop\<close>

text \<open>
  Handing an ADU to the server and sleeping do not disturb the line, and no byte arrives
  that was not announced.
\<close>

definition server_quiet :: "'w mb_api \<Rightarrow> ('w \<Rightarrow> rs_line) \<Rightarrow> ('w \<Rightarrow> nat) \<Rightarrow> ('w \<Rightarrow> int) \<Rightarrow> bool" where
  "server_quiet api line left now \<longleftrightarrow>
     (\<forall>i a w e w'. modbus_raw_submit_rx api i a w = (e, w') \<longrightarrow>
        line w' = line w \<and> left w' = left w \<and> now w \<le> now w') \<and>
     (\<forall>w. left (k_sleep_ms (mb_rs api) 1 w) = left w)"

text \<open>The frame \<open>f\<close> is received, in part by the service and in part still in the ring.\<close>

definition receiving ::
  "'w mb_api \<Rightarrow> ('w \<Rightarrow> rs_line) \<Rightarrow> ('w \<Rightarrow> nat) \<Rightarrow> ('w \<Rightarrow> int) \<Rightarrow> u8 list \<Rightarrow> 'w mb_sys \<Rightarrow> bool" where
  "receiving api line left now f y \<longleftrightarrow>
     mb_inv api (sy_mb y) \<and> rx_bytes (sy_mb y) @ ln_ring (line (sy_w y)) = f \<and> left (sy_w y) = 0 \<and>
     rx_past now (sy_mb y) (sy_w y)"

text \<open>The platform, as one hypothesis of the lemmas below.\<close>

definition delivery_ok ::
  "'w mb_api \<Rightarrow> ('w \<Rightarrow> rs_line) \<Rightarrow> ('w \<Rightarrow> nat) \<Rightarrow> ('w \<Rightarrow> int) \<Rightarrow> ('w \<Rightarrow> modbus_adu list) \<Rightarrow> bool" where
  "delivery_ok api line left now inbox \<longleftrightarrow>
     rs_ok (mb_rs api) line \<and> arrivals (mb_rs api) line left \<and> clock_runs (mb_rs api) now \<and>
     inbox_ok api inbox \<and> server_quiet api line left now"

lemma submit_world:
  assumes "server_quiet api line left now" and "modbus_submit_frame api m w = (m', w')"
  shows "line w' = line w \<and> left w' = left w \<and> now w \<le> now w' \<and> mb_last_rx_ms m' = mb_last_rx_ms m"
  using assms
  by (auto simp: modbus_submit_frame_def server_quiet_def Let_def split: if_splits prod.splits)

lemma poll_round:
  assumes plat: "delivery_ok api line left now inbox" and inv: "mb_inv api m"
    and f: "rx_bytes m @ ln_ring (line w) = f" "f = [] \<or> frame_intact api f" "length f \<le> MODBUS_BUFFER_SIZE api"
    and quiet: "left w = 0" and past: "rx_past now m w"
    and poll: "modbus_rx_poll api m (s, w) = Some (m', s', w')"
  shows "mb_inv api m' \<and> ln_ring (line w') = [] \<and> left w' = 0 \<and> rx_past now m' w' \<and> now w \<le> now w' \<and>
    (rx_bytes m' = f \<and> inbox w' = inbox w \<and>
       (ln_ring (line w) = [] \<longrightarrow> mb_last_rx_ms m' = mb_last_rx_ms m \<and>
          \<not> (f \<noteq> [] \<and> sint (mb_last_rx_ms m) + 2 \<le> now w \<and> now w' < 2 ^ 63)) \<or>
     rx_bytes m' = [] \<and> (\<exists>a. inbox w' = inbox w @ [a] \<and> adu_matches a f))"
proof -
  have ok: "rs_ok (mb_rs api) line" and arr: "arrivals (mb_rs api) line left"
    and clk: "clock_runs (mb_rs api) now" and inbox: "inbox_ok api inbox" and sq: "server_quiet api line left now"
    using plat by (simp_all add: delivery_ok_def)
  have keeps: "rs_keeps (mb_rs api) inbox" using inbox by (simp add: inbox_ok_def)
  have fits: "mb_rx_len m + length (rs_queue line (s, w)) \<le> MODBUS_BUFFER_SIZE api"
    using arg_cong [OF f(1), of length] f(3) length_rx_bytes [OF inv] by (simp add: rs_queue_def)
  have d: "mb_inv api m1 \<and> rx_bytes m1 = f \<and> ln_ring (line w1) = [] \<and> left w1 = 0 \<and> rx_past now m1 w1 \<and>
      now w \<le> now w1 \<and> inbox w1 = inbox w \<and> (ln_ring (line w) = [] \<longrightarrow> m1 = m)"
    if run: "drain (\<lambda>sw. rs485_read_nowait (mb_rs api) sw MB_POLL_BUF_LEN) (mb_absorb api) m (s, w)
      = Some (m1, s1, w1)" for m1 s1 w1
    using poll_drain_collects [OF ok arr _ inv fits run] f(1) quiet drain_past [OF ok arr clk _ run] past
      poll_drain_now [OF ok arr clk run] poll_drain_keeps [OF ok arr keeps, where P = "\<lambda>m. True", OF _ _ run]
      poll_drain_idle [OF ok arr _ _ run] by (simp add: rs_queue_def)
  show ?thesis
    using poll
  proof (cases rule: pollE)
    case (submit m1 w1 t w2)
    note d1 = d [OF submit(1)] and sub = submit_inbox [OF inbox _ submit(4)]
    have up: "line w2 = line w1" "left w2 = left w1" "now w1 \<le> now w2" "inbox w2 = inbox w1"
      using rs_ok_calls(7) [OF ok submit(2)] clockD(1) [OF clk submit(2)] rs_keepsD(8) [OF keeps submit(2)]
        arr submit(2) unfolding arrivals_def by (simp_all) (metis snd_conv)
    have intact: "frame_intact api (rx_bytes m1)"
      using f(2) d1 submit(3) length_rx_bytes [of api m1] by auto
    then obtain a where "inbox w' = inbox w2 @ [a]" "adu_matches a f" "m' = m1\<lparr>mb_rx_len := 0\<rparr>"
      using sub d1 by auto
    then show ?thesis
      using d1 up submit_world [OF sq submit(4)] by (simp add: rx_past_def)
  next
    case (wait w1 t)
    note d1 = d [OF wait(1)]
    have up: "line w' = line w1" "left w' = left w1" "now w1 \<le> now w'" "inbox w' = inbox w1"
      and t: "sint t = min (now w1) (2 ^ 63 - 1)"
      using rs_ok_calls(7) [OF ok wait(2)] clockD(1) [OF clk wait(2)] rs_keepsD(8) [OF keeps wait(2)]
        arr wait(2) unfolding arrivals_def by (simp_all) (metis snd_conv)
    have "\<not> (f \<noteq> [] \<and> sint (mb_last_rx_ms m) + 2 \<le> now w \<and> now w' < 2 ^ 63)" if "ln_ring (line w) = []"
    proof
      assume a: "f \<noteq> [] \<and> sint (mb_last_rx_ms m) + 2 \<le> now w \<and> now w' < 2 ^ 63"
      have m: "m' = m" using d1 that by simp
      have "4 \<le> mb_rx_len m'" using f(2) a d1 length_rx_bytes [of api m'] by (auto simp: frame_intact_def)
      moreover have "2 \<le> sint (t - mb_last_rx_ms m')"
        using elapsed_word [OF t, of "mb_last_rx_ms m" 2] a d1 up past m by (simp add: rx_past_def)
      ultimately show False using wait(3) by simp
    qed
    then show ?thesis using d1 up by (auto intro: rx_past_later)
  qed
qed

lemma loop_round:
  assumes plat: "delivery_ok api line left now inbox" and rcv: "receiving api line left now f y"
    and f: "f = [] \<or> frame_intact api f" "length f \<le> MODBUS_BUFFER_SIZE api"
    and run: "ats_loop api 1 y = Some z"
  shows "now (sy_w y) + 1 \<le> now (sy_w z) \<and> ln_ring (line (sy_w z)) = [] \<and>
    (receiving api line left now f z \<and> inbox (sy_w z) = inbox (sy_w y) \<and>
       sint (mb_last_rx_ms (sy_mb z)) + 1 \<le> now (sy_w z) \<and>
       (ln_ring (line (sy_w y)) = [] \<longrightarrow> mb_last_rx_ms (sy_mb z) = mb_last_rx_ms (sy_mb y) \<and>
          \<not> (f \<noteq> [] \<and> sint (mb_last_rx_ms (sy_mb y)) + 2 \<le> now (sy_w y) \<and> now (sy_w z) < 2 ^ 63)) \<or>
     receiving api line left now [] z \<and> (\<exists>a. inbox (sy_w z) = inbox (sy_w y) @ [a] \<and> adu_matches a f))"
proof -
  have ok: "rs_ok (mb_rs api) line" and clk: "clock_runs (mb_rs api) now" and arr: "arrivals (mb_rs api) line left"
    and keeps: "rs_keeps (mb_rs api) inbox" and sq: "server_quiet api line left now"
    using plat by (simp_all add: delivery_ok_def inbox_ok_def)
  obtain y1 where tick: "modbus_service_tick api y = Some y1"
    and z: "z = y1\<lparr>sy_w := k_sleep_ms (mb_rs api) 1 (sy_w y1)\<rparr>" using run by (auto split: option.splits)
  obtain t w1 m rs w2 where up: "k_uptime_get (mb_rs api) (sy_w y) = (t, w1)"
    and poll: "modbus_rx_poll api (sy_mb y) (sy_rs y, w1) = Some (m, rs, w2)"
    and y1: "sy_w y1 = w2"
    and m1: "sy_mb y1 = (if sint (t - hb_last_ms m) \<ge> 1000
      then m\<lparr>input_reg := (input_reg m)[0 := input_reg m ! 0 + 1], hb_last_ms := t\<rparr> else m)"
    using tickE [OF tick] by metis
  have w1: "line w1 = line (sy_w y)" "left w1 = left (sy_w y)" "now (sy_w y) \<le> now w1" "inbox w1 = inbox (sy_w y)"
    using rs_ok_calls(7) [OF ok up] clockD(1) [OF clk up] rs_keepsD(8) [OF keeps up] arr up
    unfolding arrivals_def by (simp_all) (metis snd_conv)
  have mz: "mb_inv api (sy_mb z) = mb_inv api m" "rx_bytes (sy_mb z) = rx_bytes m"
    "mb_last_rx_ms (sy_mb z) = mb_last_rx_ms m"
    using m1 z by (auto simp: mb_inv_def rx_bytes_def)
  have wz: "line (sy_w z) = line w2" "left (sy_w z) = left w2" "now w2 + 1 \<le> now (sy_w z)" "inbox (sy_w z) = inbox w2"
    using rs_ok_pure(6) [OF ok] clockD(2) [OF clk] rs_keepsD(4) [OF keeps] sq z y1
    by (simp_all add: server_quiet_def)
  have r: "mb_inv api (sy_mb y)" "rx_bytes (sy_mb y) @ ln_ring (line w1) = f" "left w1 = 0" "rx_past now (sy_mb y) w1"
    using rcv w1 rx_past_later unfolding receiving_def by metis+
  note p = poll_round [OF plat r(1,2) f r(3,4) poll]
  have past: "rx_past now (sy_mb z) (sy_w z)" "sint (mb_last_rx_ms (sy_mb z)) + 1 \<le> now (sy_w z)"
    using p mz wz by (simp_all add: rx_past_def)
  have base: "mb_inv api (sy_mb z)" "ln_ring (line (sy_w z)) = []" "left (sy_w z) = 0"
    using p mz wz by simp_all
  have still: "\<not> (f \<noteq> [] \<and> sint (mb_last_rx_ms (sy_mb y)) + 2 \<le> now w1 \<and> now w2 < 2 ^ 63) \<Longrightarrow>
      \<not> (f \<noteq> [] \<and> sint (mb_last_rx_ms (sy_mb y)) + 2 \<le> now (sy_w y) \<and> now (sy_w z) < 2 ^ 63)"
    using w1(3) wz(3) by linarith
  show ?thesis
    using p
  proof (elim conjE disjE exE, goal_cases)
    case 1
    then show ?case using base past mz wz w1 still by (simp add: receiving_def)
  next
    case (2 a)
    then show ?case using base past(1) mz wz w1 by (auto simp: receiving_def)
  qed
qed

lemma loop_round_idle:
  assumes plat: "delivery_ok api line left now inbox" and rcv: "receiving api line left now [] y"
    and run: "ats_loop api 1 y = Some z"
  shows "receiving api line left now [] z \<and> inbox (sy_w z) = inbox (sy_w y)"
  using loop_round [OF plat rcv _ _ run] by (auto simp: adu_matches_def)

lemma ats_loop_3:
  assumes "ats_loop api 3 y = Some z"
  obtains y1 y2 where "ats_loop api 1 y = Some y1" and "ats_loop api 1 y1 = Some y2" and "ats_loop api 1 y2 = Some z"
proof -
  have three: "3 = Suc (Suc (Suc 0))" by simp
  show thesis using assms that unfolding three by (auto split: option.splits)
qed

lemma request_delivered:
  assumes plat: "delivery_ok api line left now inbox" and rcv: "receiving api line left now f y"
    and f: "frame_intact api f" "length f \<le> MODBUS_BUFFER_SIZE api"
    and run: "ats_loop api 3 y = Some z" and time: "now (sy_w z) < 2 ^ 63"
  shows "receiving api line left now [] z \<and> (\<exists>a. inbox (sy_w z) = inbox (sy_w y) @ [a] \<and> adu_matches a f)"
proof -
  obtain y1 y2 where l: "ats_loop api 1 y = Some y1" "ats_loop api 1 y1 = Some y2" "ats_loop api 1 y2 = Some z"
    using ats_loop_3 [OF run] .
  have fi: "f = [] \<or> frame_intact api f" "f \<noteq> []" using f(1) by (auto simp: frame_intact_def)
  let ?done = "\<lambda>v. receiving api line left now [] v \<and> (\<exists>a. inbox (sy_w v) = inbox (sy_w y) @ [a] \<and> adu_matches a f)"
  have stay: "?done v" if "?done u" "ats_loop api 1 u = Some v" for u v
    using loop_round_idle [OF plat _ that(2)] that(1) by metis
  note r1 = loop_round [OF plat rcv fi(1) f(2) l(1)]
  consider "?done y1" | "receiving api line left now f y1" "inbox (sy_w y1) = inbox (sy_w y)"
      "sint (mb_last_rx_ms (sy_mb y1)) + 1 \<le> now (sy_w y1)" "ln_ring (line (sy_w y1)) = []"
    using r1 by blast
  then show ?thesis
  proof cases
    case 1
    then show ?thesis using stay l by blast
  next
    case 2
    note r2 = loop_round [OF plat 2(1) fi(1) f(2) l(2)]
    consider "?done y2" | "receiving api line left now f y2" "inbox (sy_w y2) = inbox (sy_w y)"
        "sint (mb_last_rx_ms (sy_mb y2)) + 2 \<le> now (sy_w y2)" "ln_ring (line (sy_w y2)) = []"
      using r2 2 by auto
    then show ?thesis
    proof cases
      case 1
      then show ?thesis using stay l by blast
    next
      case 2
      then show ?thesis using loop_round [OF plat 2(1) fi(1) f(2) l(3)] fi(2) time by auto
    qed
  qed
qed

section \<open>Properties\<close>

text \<open>
  A request on the wire reaches the server: when the frame of an ADU is complete in the
  receive ring and the line is silent, then after three rounds of the main loop the server
  has received exactly one new ADU, with the unit, function code, length and payload that
  were sent, and the frame buffer is empty again.
\<close>

lemma modbus_request_delivered:
  assumes plat: "delivery_ok api line left now inbox" and codec: "codec_ok api"
    and data: "unat (adu_length a) \<le> length (adu_data a)" "unat (adu_length a) + 4 \<le> MODBUS_BUFFER_SIZE api"
    and rcv: "receiving api line left now (mb_frame api a) y"
    and run: "ats_loop api 3 y = Some z" and time: "now (sy_w z) < 2 ^ 63"
  shows "mb_rx_len (sy_mb z) = 0 \<and>
    (\<exists>b. inbox (sy_w z) = inbox (sy_w y) @ [b] \<and> adu_unit_id b = adu_unit_id a \<and> adu_fc b = adu_fc a \<and>
       adu_length b = adu_length a \<and>
       take (unat (adu_length a)) (adu_data b) = take (unat (adu_length a)) (adu_data a))"
proof -
  have f: "frame_intact api (mb_frame api a)" "length (mb_frame api a) \<le> MODBUS_BUFFER_SIZE api"
    using mb_frame_intact [OF codec data(1)] data(2) by simp_all
  obtain b where b: "inbox (sy_w z) = inbox (sy_w y) @ [b]" "adu_matches b (mb_frame api a)"
    and z: "receiving api line left now [] z"
    using request_delivered [OF plat rcv f run time] by blast
  have "mb_rx_len (sy_mb z) = 0" using z length_rx_bytes [of api "sy_mb z"] by (simp add: receiving_def)
  then show ?thesis using b adu_matches_frame [OF codec data(1), of b] by blast
qed

section \<open>Witnesses\<close>

definition sim_req :: "mb_sim mb_sys" where
  "sim_req = sim_y\<lparr>sy_w := sim_mw (mb_frame sim_mb sim_adu)\<rparr>"

lemma sim_delivery: "delivery_ok sim_mb sim_line (sim_left \<circ> fst) (int \<circ> sm_ms \<circ> fst) sim_inbox"
  using sim_mb_ok
  by (auto simp: delivery_ok_def server_quiet_def) (auto simp: sim_mb_def lift_rs_def sim_rs_def sim_left_def)

text \<open>Only the sleep of the loop takes time on the simulated platform.\<close>

abbreviation (input) sim_ms :: "mb_sim \<Rightarrow> nat" where "sim_ms \<equiv> sm_ms \<circ> fst"

lemma sim_calls_ms:
  "sim_ms (snd (deliver (mb_rs sim_mb) n s w)) = sim_ms w"
  "ring_buf_get (mb_rs sim_mb) k w = (len, d, w') \<Longrightarrow> sim_ms w' = sim_ms w"
  "k_uptime_get (mb_rs sim_mb) w = (t, w') \<Longrightarrow> sim_ms w' = sim_ms w"
  "modbus_raw_submit_rx sim_mb i a w = (e, w') \<Longrightarrow> sim_ms w' = sim_ms w"
  using sim_deliver_ms [of n s "fst w"] lift_deliver [of sim_rs n s w]
  by (auto simp: sim_mb_def lift_rs_def sim_rs_def Let_def split: prod.splits)

lemma sim_read_ms:
  assumes "rs485_read_loop (mb_rs sim_mb) K_NO_WAIT e max_len buf tot s w = Some r"
  shows "sim_ms (snd (snd (snd r))) = sim_ms w"
  using assms
proof (induction rule: read_loop_induct)
  case (get buf tot s w s1 w1 len d w2 r)
  then show ?case using sim_calls_ms(1) [of "hw_burst (mb_rs sim_mb) w" s w] sim_calls_ms(2) [OF get(3)] by simp
next
  case (empty buf tot s w s1 w1 d w2)
  then show ?case using sim_calls_ms(1) [of "hw_burst (mb_rs sim_mb) w" s w] sim_calls_ms(2) [OF empty(3)] by simp
qed simp_all

lemma sim_nowait_ms:
  assumes "rs485_read_nowait (mb_rs sim_mb) sw n = Some (r, b, sw')"
  shows "sim_ms (snd sw') = sim_ms (snd sw)"
proof -
  obtain s' w' where sw': "sw' = (s', w')" by (cases sw')
  obtain e w1 t where e: "rs485_read_end (mb_rs sim_mb) K_NO_WAIT (snd sw) = (e, w1)"
    and loop: "rs485_read_loop (mb_rs sim_mb) K_NO_WAIT e n (replicate (unat n) 0) 0 (fst sw) w1 = Some (t, b, s', w')"
    using assms by (auto simp: rs485_read_nowait_def rs485_read_def sw' split: prod.splits)
  have "sim_ms w1 = sim_ms (snd sw)"
    using e sim_calls_ms(3) by (auto simp: rs485_read_end_def Let_def split: prod.splits)
  then show ?thesis using sim_read_ms [OF loop] sw' by simp
qed

lemma sim_poll_ms:
  assumes "modbus_rx_poll sim_mb m sw = Some (m', s', w')"
  shows "sim_ms w' = sim_ms (snd sw)"
proof -
  have d: "sim_ms (snd (snd r)) = sim_ms (snd sw)"
    if "drain (\<lambda>sw. rs485_read_nowait (mb_rs sim_mb) sw MB_POLL_BUF_LEN) (mb_absorb sim_mb) m sw = Some r" for r m sw
    using that
  proof (induction rule: drain_induct)
    case (stop m s n tmp s1)
    then show ?case using sim_nowait_ms by simp
  next
    case (step m s n tmp s1 m2 s2 r)
    obtain t w1 where up: "k_uptime_get (mb_rs sim_mb) (snd s1) = (t, w1)"
      by (cases "k_uptime_get (mb_rs sim_mb) (snd s1)")
    have "sim_ms (snd s2) = sim_ms (snd s1)"
      using step(3) sim_calls_ms(3) [OF up] by (auto simp: mb_absorb_def Let_def up split: if_splits)
    then show ?case using step.IH sim_nowait_ms [OF step(1)] by simp
  qed
  show ?thesis
    using assms
  proof (cases rule: pollE)
    case (submit m1 w1 now w2)
    have "sim_ms w' = sim_ms w2"
      using submit(4) sim_calls_ms(4) by (auto simp: modbus_submit_frame_def Let_def split: if_splits prod.splits)
    then show ?thesis using d [OF submit(1)] sim_calls_ms(3) [OF submit(2)] by simp
  next
    case (wait w1 now)
    then show ?thesis using d [OF wait(1)] sim_calls_ms(3) [OF wait(2)] by simp
  qed
qed

lemma sim_loop_ms: "ats_loop sim_mb n y = Some z \<Longrightarrow> sim_ms (sy_w z) = sim_ms (sy_w y) + n"
proof (induction n arbitrary: y)
  case (Suc n)
  obtain y1 where tick: "modbus_service_tick sim_mb y = Some y1"
    and rest: "ats_loop sim_mb n (y1\<lparr>sy_w := k_sleep_ms (mb_rs sim_mb) 1 (sy_w y1)\<rparr>) = Some z"
    using Suc.prems by (auto split: option.splits)
  obtain t w1 m rs where "k_uptime_get (mb_rs sim_mb) (sy_w y) = (t, w1)"
    and "modbus_rx_poll sim_mb (sy_mb y) (sy_rs y, w1) = Some (m, rs, sy_w y1)"
    using tickE [OF tick] by metis
  then have "sim_ms (sy_w y1) = sim_ms (sy_w y)" using sim_calls_ms(3) sim_poll_ms by (metis snd_conv)
  moreover have "sim_ms (k_sleep_ms (mb_rs sim_mb) 1 w) = sim_ms w + 1" for w
    by (simp add: sim_mb_def lift_rs_def sim_rs_def)
  ultimately show ?case using Suc.IH [OF rest] by simp
qed simp

lemma sim_loop_total: "\<exists>z. ats_loop sim_mb n y = Some z"
proof (induction n arbitrary: y)
  case (Suc n)
  then show ?case using tick_returns [OF sim_mb_ok(1,2), of y] by fastforce
qed simp

theorem ats_heartbeat_rate_witness:
  "\<exists>y y' k. ats_loop sim_mb 2500 y = Some y' \<and> input_reg (sy_mb y) = [0, 0, 0, 0] \<and>
    2 \<le> k \<and> input_reg (sy_mb y') ! 0 = of_nat k \<and> sint (hb_last_ms (sy_mb y')) = 1000 * int k"
proof -
  let ?y = "sim_y\<lparr>sy_w := (sim_up, [], [])\<rparr>"
  have round: "round_time sim_mb 1"
    unfolding round_time_def
  proof (intro conjI allI impI)
    fix y y1
    assume "modbus_service_tick sim_mb y = Some y1"
    then have "ats_loop sim_mb 1 y = Some (y1\<lparr>sy_w := k_sleep_ms (mb_rs sim_mb) 1 (sy_w y1)\<rparr>)" by simp
    from sim_loop_ms [OF this] show "sint (fst (k_uptime_get (mb_rs sim_mb) (k_sleep_ms (mb_rs sim_mb) 1 (sy_w y1))))
        \<le> sint (fst (k_uptime_get (mb_rs sim_mb) (sy_w y))) + 1" by (simp add: sim_uptime min_def)
  qed simp
  obtain y' where run: "ats_loop sim_mb 2500 ?y = Some y'" using sim_loop_total by blast
  have four: "replicate 4 x = [x, x, x, x]" for x :: u16 by (simp add: numeral_eq_Suc)
  have y: "input_reg (sy_mb ?y) = [0, 0, 0, 0]" "hb_last_ms (sy_mb ?y) = 0" "hb_lag sim_mb ?y < 1000 + 1"
    by (simp_all add: hb_lag_def sim_uptime sim_y_def sim_m_def mb_state0_def four sim_up_def sim_boot_def)
  have start: "0 \<le> sint (hb_last_ms (sy_mb ?y))" "input_reg (sy_mb ?y) \<noteq> []" using y by simp_all
  have clock: "0 \<le> sint (fst (k_uptime_get (mb_rs sim_mb) w))" for w by (simp add: sim_uptime)
  obtain k where k: "input_reg (sy_mb y') = [0, 0, 0, 0][0 := 0 + of_nat k]"
    "1000 * int k \<le> sint (hb_last_ms (sy_mb y'))" "sint (hb_last_ms (sy_mb y')) \<le> (999 + 1) * int k"
    "hb_lag sim_mb y' < 1000 + 1"
    using ats_heartbeat_rate [OF clock run start, where g = 1] round y by auto
  have "sm_ms (fst (sy_w y')) = 2500" using sim_loop_ms [OF run] by (simp add: sim_up_def sim_boot_def)
  then have "2 \<le> k" using k(2-4) by (simp add: hb_lag_def sim_uptime)
  then show ?thesis using run y(1) k by (intro exI [of _ ?y] exI [of _ y'] exI [of _ k]) simp
qed

lemma modbus_request_delivered_witness:
  "\<exists>z. ats_loop sim_mb 3 sim_req = Some z \<and>
    (\<exists>b. snd (snd (sy_w z)) = [b] \<and> adu_unit_id b = 1 \<and> adu_fc b = 6 \<and> take 2 (adu_data b) = [0x12, 0x34])"
proof -
  have rcv: "receiving sim_mb sim_line (sim_left \<circ> fst) (int \<circ> sm_ms \<circ> fst) (mb_frame sim_mb sim_adu) sim_req"
    using sim_m_inv [of "[]"] by (simp add: receiving_def sim_req_def sim_y_def rx_past_def)
  have data: "unat (adu_length sim_adu) \<le> length (adu_data sim_adu)"
    "unat (adu_length sim_adu) + 4 \<le> MODBUS_BUFFER_SIZE sim_mb" by (simp_all add: sim_adu_def sim_mb_def)
  obtain z where run: "ats_loop sim_mb 3 sim_req = Some z" using sim_loop_total by blast
  have "sim_ms (sy_w z) = 53" using sim_loop_ms [OF run] by (simp add: sim_req_def)
  then have "(int \<circ> sm_ms \<circ> fst) (sy_w z) < 2 ^ 63" by simp
  from modbus_request_delivered [OF sim_delivery sim_mb_ok(4) data rcv run this] run
  show ?thesis by (auto simp: sim_req_def sim_adu_def)
qed

end
