(* ===== verification/ModbusStream.thy ===== *)
theory ModbusStream
  imports ModbusThreads ModbusDelivery
begin

text \<open>
  From the wire to the server over the whole life of the service: in every interleaving of
  the main thread, the server and the hardware, every ADU the server gets is one contiguous
  piece, with a matching CRC, of the stream of bytes that came in over the wire, the pieces
  follow each other in the order of reception and do not overlap, and what the service still
  holds is the end of the stream.
\<close>

section \<open>Pieces of a stream\<close>

text \<open>\<open>fs\<close> are pieces of \<open>xs\<close>, one after the other, and \<open>r\<close> is an end of what follows them.\<close>

primrec carved :: "'a list \<Rightarrow> 'a list list \<Rightarrow> 'a list \<Rightarrow> bool" where
  "carved xs [] r \<longleftrightarrow> (\<exists>pre. xs = pre @ r)"
| "carved xs (f # fs) r \<longleftrightarrow> (\<exists>pre ys. xs = pre @ f @ ys \<and> carved ys fs r)"

lemma carved_pre: "carved xs fs r \<Longrightarrow> carved (pre @ xs) fs r"
  by (cases fs) (simp_all, (metis append.assoc)+)

lemma carved_trans: "carved xs fs r \<Longrightarrow> carved (r @ zs) gs t \<Longrightarrow> carved (xs @ zs) (fs @ gs) t"
proof (induction fs arbitrary: xs)
  case Nil
  then show ?case using carved_pre [of "r @ zs" gs t] by auto
next
  case (Cons f fs)
  then obtain pre ys where "xs = pre @ f @ ys" "carved ys fs r" by auto
  then show ?case using Cons.IH Cons.prems(2) by force
qed

lemma carved_refl [simp]: "carved r [] r"
  by simp

section \<open>What one step delivers\<close>

text \<open>
  The bytes held: those in the frame buffer, those the main thread has read from the ring
  and not stored yet, and those in the ring.
\<close>

fun in_flight :: "main_pc \<Rightarrow> u8 list" where
  "in_flight (M_read now tmp tot) = take (unat tot) tmp"
| "in_flight (M_got now tmp tot) = take (unat tot) tmp"
| "in_flight _ = []"

definition held :: "('w \<Rightarrow> rs_line) \<Rightarrow> 'w sys_conf \<Rightarrow> u8 list" where
  "held line c = (case c of (pc, p, y) \<Rightarrow> rx_bytes (sy_mb y) @ in_flight pc @ ln_ring (line (sy_w y)))"

definition server_inbox :: "('w \<Rightarrow> modbus_adu list) \<Rightarrow> 'w sys_conf \<Rightarrow> modbus_adu list" where
  "server_inbox inbox c = inbox (sy_w (snd (snd c)))"

lemmas conf_simps = held_def server_inbox_def

text \<open>An ADU and the intact frame it stands for, with the CRC of that frame.\<close>

definition adu_of :: "'w mb_api \<Rightarrow> modbus_adu \<Rightarrow> u8 list \<Rightarrow> bool" where
  "adu_of api a f \<longleftrightarrow> adu_matches a f \<and> frame_intact api f \<and> adu_crc a = crc16_ansi api (take (length f - 2) f)"

text \<open>From \<open>c\<close> to \<open>d\<close>, while \<open>arrived\<close> came into the ring, the server got the ADUs of pieces of the stream.\<close>

definition passes ::
  "'w mb_api \<Rightarrow> ('w \<Rightarrow> rs_line) \<Rightarrow> ('w \<Rightarrow> modbus_adu list) \<Rightarrow> 'w sys_conf \<Rightarrow> u8 list \<Rightarrow> 'w sys_conf \<Rightarrow> bool" where
  "passes api line inbox c arrived d \<longleftrightarrow>
     (\<exists>fs as. server_inbox inbox d = server_inbox inbox c @ as \<and> list_all2 (adu_of api) as fs \<and>
        carved (held line c @ arrived) fs (held line d))"

lemma passes_still:
  assumes "server_inbox inbox d = server_inbox inbox c" and "held line c @ arrived = pre @ held line d"
  shows "passes api line inbox c arrived d"
  unfolding passes_def by (rule exI [of _ "[]"], rule exI [of _ "[]"]) (use assms in simp)

lemma passes_same:
  "server_inbox inbox d = server_inbox inbox c \<Longrightarrow> held line d = held line c \<Longrightarrow> passes api line inbox c [] d"
  by (rule passes_still [where pre = "[]"]) simp_all

lemma passes_trans:
  assumes "passes api line inbox c a d" and "passes api line inbox d b e"
  shows "passes api line inbox c (a @ b) e"
proof -
  obtain fs as where 1: "server_inbox inbox d = server_inbox inbox c @ as" "list_all2 (adu_of api) as fs"
    "carved (held line c @ a) fs (held line d)" using assms(1) by (auto simp: passes_def)
  obtain gs bs where 2: "server_inbox inbox e = server_inbox inbox d @ bs" "list_all2 (adu_of api) bs gs"
    "carved (held line d @ b) gs (held line e)" using assms(2) by (auto simp: passes_def)
  have "carved (held line c @ (a @ b)) (fs @ gs) (held line e)"
    using carved_trans [OF 1(3) 2(3)] by simp
  moreover have "list_all2 (adu_of api) (as @ bs) (fs @ gs)" using 1(2) 2(2) by (rule list_all2_appendI)
  moreover have "server_inbox inbox e = server_inbox inbox c @ (as @ bs)" using 1(1) 2(1) by simp
  ultimately show ?thesis unfolding passes_def by blast
qed

section \<open>What arrives\<close>

text \<open>
  The hardware's events of a run, as labels of the RS485 service, so that \<open>dma_track\<close> and
  \<open>rx_wire\<close> apply to them, and the bytes that the DMA has stored and the UART not reported yet.
\<close>

fun hw_of :: "sys_label \<Rightarrow> rs_label list" where
  "hw_of (T_hw ev) = [L_hw ev]"
| "hw_of _ = []"

abbreviation hw_labels :: "sys_label list \<Rightarrow> rs_label list" where
  "hw_labels ls \<equiv> concat (map hw_of ls)"

definition unseen :: "('w \<Rightarrow> rs_line) \<Rightarrow> 'w sys_conf \<Rightarrow> nat \<times> nat \<Rightarrow> u8 list" where
  "unseen line c g = (case c of (pc, p, y) \<Rightarrow> rx_pend (sy_rs y) (line (sy_w y)) g)"

definition ring_of :: "('w \<Rightarrow> rs_line) \<Rightarrow> 'w sys_conf \<Rightarrow> u8 list" where
  "ring_of line c = (case c of (pc, p, y) \<Rightarrow> ln_ring (line (sy_w y)))"

text \<open>
  \<open>arrived\<close> is what came into the ring: of the bytes the DMA had stored before and those that
  came in over the wire, all but those still not reported, unless the ring was too full.
\<close>

definition arrives ::
  "('w \<Rightarrow> rs_line) \<Rightarrow> 'w sys_conf \<times> nat \<times> nat \<Rightarrow> rs_label list \<Rightarrow> u8 list \<Rightarrow> 'w sys_conf \<times> nat \<times> nat \<Rightarrow> bool" where
  "arrives line c hs arrived d \<longleftrightarrow>
     rx_inv line (serial_part (fst d), snd d) \<and>
     subseq (arrived @ unseen line (fst d) (snd d)) (unseen line (fst c) (snd c) @ rx_wire hs) \<and>
     (\<forall>ks. rx_fits (length (ring_of line (fst c))) (hs @ ks) \<longrightarrow>
        arrived @ unseen line (fst d) (snd d) = unseen line (fst c) (snd c) @ rx_wire hs \<and>
        rx_fits (length (ring_of line (fst d))) ks)"

lemma arrives_trans:
  assumes "arrives line c hs a d" and "arrives line d ks b e"
  shows "arrives line c (hs @ ks) (a @ b) e"
proof -
  let ?u = "\<lambda>c. unseen line (fst c) (snd c)"
  note d = assms [unfolded arrives_def]
  have "subseq (a @ b @ ?u e) (a @ ?u d @ rx_wire ks)" using d(2) by (simp only: subseq_append')
  moreover have "subseq ((a @ ?u d) @ rx_wire ks) ((?u c @ rx_wire hs) @ rx_wire ks)"
    using d(1) by (simp only: subseq_append)
  ultimately have "subseq ((a @ b) @ ?u e) (?u c @ rx_wire (hs @ ks))"
    using subseq_order.order_trans by fastforce
  moreover have "(a @ b) @ ?u e = ?u c @ rx_wire (hs @ ks) \<and> rx_fits (length (ring_of line (fst e))) js"
    if "rx_fits (length (ring_of line (fst c))) ((hs @ ks) @ js)" for js
  proof -
    have 1: "a @ ?u d = ?u c @ rx_wire hs" "rx_fits (length (ring_of line (fst d))) (ks @ js)"
      using d(1) that by simp_all
    then have 2: "b @ ?u e = ?u d @ rx_wire ks" "rx_fits (length (ring_of line (fst e))) js" using d(2) by simp_all
    have "(a @ b) @ ?u e = (a @ ?u d) @ rx_wire ks" using 2(1) by simp
    then show ?thesis using 1(1) 2(2) by simp
  qed
  ultimately show ?thesis using d(2) by (simp add: arrives_def)
qed

lemma rx_fits_mono: "rx_fits n ls \<Longrightarrow> m \<le> n \<Longrightarrow> rx_fits m ls"
proof (induction n ls arbitrary: m rule: rx_fits.induct)
  case (2 n b off len ls)
  then show ?case using "2.IH" [of "m + len"] by simp
next
  case (3 n k d ls)
  then show ?case using "3.IH" [of "m - length d"] by simp
qed simp_all

text \<open>Nothing arrives by a step that leaves the buffers alone and takes from the ring at most.\<close>

lemma arrives_none:
  assumes inv: "rx_inv line (serial_part (pc, p, y), g)"
    and bufs: "rx_buf (sy_rs z) = rx_buf (sy_rs y)" "rx_buf_idx (sy_rs z) = rx_buf_idx (sy_rs y)"
      "ln_cur (line (sy_w z)) = ln_cur (line (sy_w y))" "ln_next (line (sy_w z)) = ln_next (line (sy_w y))"
    and ring: "length (ln_ring (line (sy_w z))) \<le> length (ln_ring (line (sy_w y)))"
  shows "arrives line ((pc, p, y), g) [] [] ((pc', p', z), g)"
proof -
  have "rx_inv line (serial_part (pc', p', z), g)"
    using inv bufs by (cases g) (simp add: rx_inv_def bufs_ok_def serial_part_def)
  moreover have "unseen line (pc', p', z) g = unseen line (pc, p, y) g"
    using bufs by (cases g) (simp add: unseen_def rx_pend_def split: option.split)
  ultimately show ?thesis using rx_fits_mono ring by (auto simp: arrives_def ring_of_def)
qed

text \<open>A step of the hardware is one of the refinement of \<open>rx_spec\<close>.\<close>

lemma hw_arrives:
  assumes ok: "rs_ok (mb_rs api) line" and inv: "rx_inv line (serial_part (pc, p, y), g)"
    and step: "rs_lstep (mb_rs api) (p, sy_rs y, sy_w y) (L_hw ev) (p', rs, w)" and dma: "dma_next g (L_hw ev) = Some g'"
    and ring: "ln_ring (line w) = ln_ring (line (sy_w y)) @ zs"
  shows "arrives line ((pc, p, y), g) [L_hw ev] zs ((pc, p', y\<lparr>sy_rs := rs, sy_w := w\<rparr>), g')"
proof -
  have "rx_step (mb_rs api) ((p, sy_rs y, sy_w y), g) (L_hw ev) ((p', rs, w), g')" using step dma by (simp add: rx_step_def)
  from rx_step_sim [OF ok _ this] inv have sim: "rx_inv line ((p', rs, w), g')"
    "spec_step (rx_abs line ((p, sy_rs y, sy_w y), g)) (L_hw ev) (rx_abs line ((p', rs, w), g'))"
    by (simp_all add: rx_sim_def serial_part_def)
  let ?u = "rx_pend (sy_rs y) (line (sy_w y)) g" and ?u' = "rx_pend rs (line w) g'" and ?r = "ln_ring (line (sy_w y))"
  have "subseq (?r @ zs @ ?u') (?r @ ?u @ wire_bytes (L_hw ev))"
    using spec_step_stream [OF sim(2)] ring by (simp add: rx_abs_def)
  then have "subseq (zs @ ?u') (?u @ wire_bytes (L_hw ev))" by (simp only: subseq_append')
  moreover have "zs @ ?u' = ?u @ wire_bytes (L_hw ev) \<and> rx_fits (length (ln_ring (line w))) ks"
    if "rx_fits (length ?r) (L_hw ev # ks)" for ks
    using spec_step_fits [OF sim(2), of ks] that ring by (simp add: rx_abs_def)
  ultimately show ?thesis using sim(1) by (simp add: arrives_def unseen_def ring_of_def serial_part_def)
qed

text \<open>Nothing but a submission touches the inbox.\<close>

definition inbox_apart :: "'w mb_api \<Rightarrow> ('w \<Rightarrow> modbus_adu list) \<Rightarrow> bool" where
  "inbox_apart api inbox \<longleftrightarrow> inbox_ok api inbox \<and>
     (\<forall>d n w. inbox (snd (uart_tx (mb_rs api) d n w)) = inbox w) \<and>
     (\<forall>w. inbox (snd (k_sem_take (mb_rs api) w)) = inbox w) \<and>
     (\<forall>key n w. inbox (snd (snd (fdb_kv_get_blob (mb_fdb api) key n w))) = inbox w) \<and>
     (\<forall>key d w. inbox (snd (fdb_kv_set_blob (mb_fdb api) key d w)) = inbox w)"

text \<open>The writer and the hardware can only append to the ring.\<close>

lemma rs_lstep_ring:
  assumes ok: "rs_ok api line" and "rs_lstep api (pc, s, w) l (pc', s', w')" and "\<And>n d. l \<noteq> L_take n d"
  shows "\<exists>zs. ln_ring (line w') = ln_ring (line w) @ zs"
proof (cases "\<exists>ev. l = L_hw ev")
  case True
  then obtain ev w1 where "hw_irq api w = Some (ev, w1)" "on_hw api ev s w1 = (s', w')"
    using assms(2) by (auto elim: rs_lstep.cases)
  then show ?thesis using on_hw_ring [OF ok] rs_ok_calls(8) [OF ok] by fastforce
next
  case False
  then have "l \<in> {L_writer, L_clock}" using assms(3) by (cases l) auto
  then show ?thesis using writer_same_rx [OF ok assms(2)] by (auto simp: same_rx_def)
qed


lemma rx_bytes_reset: "rx_bytes (m\<lparr>mb_rx_len := 0\<rparr>) = []"
  by (simp add: rx_bytes_def)

lemma absorb_fits:
  fixes tot :: usize
  assumes inv: "mb_inv api m" and "unat tot \<le> length tmp" and "unat tot < 2 ^ 31"
    and fits: "length (rx_bytes m @ take (unat tot) tmp) \<le> MODBUS_BUFFER_SIZE api"
    and run: "mb_absorb api m (sint tot) tmp sw = (m', sw')"
  shows "rx_bytes m' = rx_bytes m @ take (unat tot) tmp"
proof -
  have "nat (sint tot) = unat tot" using sint_unat_small [OF assms(3)] by simp
  then show ?thesis
    using mb_absorb_appends [OF inv, of "sint tot" tmp sw] assms(2) fits run length_rx_bytes [OF inv] by simp
qed

text \<open>
  Only the submission hands something over; the other steps of the main thread move the
  bytes on, and lose some of them only when the frame buffer is full.
\<close>

lemma main_held:
  assumes ok: "thr_ok api line kv (pc, p, y)" and step: "sys_step api (pc, p, y) l (pc', p', z)"
    and l: "main_label l" and pc: "\<And>now. pc \<noteq> M_submit now"
  shows "\<exists>pre. held line (pc, p, y) = pre @ held line (pc', p', z) \<and>
    (length (held line (pc, p, y)) \<le> MODBUS_BUFFER_SIZE api \<longrightarrow> pre = [])"
proof -
  have same: ?thesis if "held line (pc', p', z) = held line (pc, p, y)" using that by simp
  note t = thr_okD [OF ok]
  have up: "line w = line u" if "k_uptime_get (mb_rs api) u = (now, w)" for u now w
    using rs_ok_calls(7) [OF t(1) that] .
  note get = ring_get_word [OF t(1)]
  show ?thesis
    using step
  proof (cases rule: sys_step.cases)
    case (S_time now w)
    then show ?thesis using up by (intro same) (simp add: held_def)
  next
    case (S_poll t w now)
    then show ?thesis using up by (intro same) (simp add: held_def)
  next
    case (S_get tot len d w now tmp)
    have "unat tot \<le> length tmp" using t(3) S_get(1) by simp
    then have "take (unat (tot + len)) (mem_write tmp (unat tot) d) = take (unat tot) tmp @ d"
      using get [OF S_get(7,6)] take_mem_write [of "unat tot" tmp d] by simp
    then show ?thesis using S_get(1-5) get [OF S_get(7,6)] by (intro same) (simp add: held_def)
  next
    case (S_empty tot d w now tmp)
    have "d = []" using get [OF S_empty(7,6)] by simp
    then show ?thesis using S_empty(1-5) get [OF S_empty(7,6)] by (intro same) (simp add: held_def)
  next
    case (S_store tot tmp m rs w now)
    have len: "unat tot \<le> length tmp" "unat tot < 2 ^ 31" using t(3) S_store(1) by simp_all
    have n: "nat (sint tot) = unat tot" using sint_unat_small [OF len(2)] by simp
    obtain pre where pre: "rx_bytes (sy_mb y) @ take (unat tot) tmp = pre @ rx_bytes m"
      using mb_absorb_suffix [OF t(4), of "sint tot" tmp "(sy_rs y, sy_w y)"] len(1) n S_store(7) by auto
    have "pre = []" if "length (held line (pc, p, y)) \<le> MODBUS_BUFFER_SIZE api"
    proof -
      have "length (rx_bytes (sy_mb y) @ take (unat tot) tmp) \<le> MODBUS_BUFFER_SIZE api"
        using that S_store(1) by (simp add: held_def)
      from absorb_fits [OF t(4) len this S_store(7)] show ?thesis using pre by simp
    qed
    then show ?thesis
      using S_store(1-5) absorb_keeps [OF t(1,2) S_store(7)] pre by (intro exI [of _ pre]) (simp add: held_def)
  next
    case (S_none tot now tmp)
    have s: "sint tot = int (unat tot)" by (rule sint_unat_small) (use t(3) S_none(1) in simp)
    have "unat tot = 0" using S_none(6) unfolding s by linarith
    then show ?thesis using S_none(1-5) by (intro same) (simp add: held_def)
  next
    case (S_due t w now)
    then show ?thesis using up by (intro same) (simp add: held_def)
  next
    case (S_wait t w now)
    then show ?thesis using up by (intro same) (simp add: held_def)
  next
    case S_sleep
    then show ?thesis using rs_ok_pure(6) [OF t(1)] by (intro same) (simp add: held_def)
  qed (use l pc in \<open>auto simp: held_def rx_bytes_def\<close>)
qed

lemma main_inbox:
  assumes keeps: "rs_keeps (mb_rs api) inbox" and step: "sys_step api (pc, p, y) l (pc', p', z)"
    and "main_label l" and pc: "\<And>now. pc \<noteq> M_submit now"
  shows "inbox (sy_w z) = inbox (sy_w y)"
  using step
proof (cases rule: sys_step.cases)
  case (S_store tot tmp m rs w now)
  then show ?thesis
    using rs_keepsD(8) [OF keeps] by (auto simp: mb_absorb_def Let_def split: if_splits prod.splits)
qed (use rs_keepsD(4,7,8) [OF keeps] assms(3) pc in auto)

lemma main_passes:
  assumes ok: "thr_ok api line kv (pc, p, y)" and inbox: "inbox_ok api inbox"
    and step: "sys_step api (pc, p, y) l (pc', p', z)" and l: "main_label l"
  shows "passes api line inbox (pc, p, y) [] (pc', p', z)"
proof (cases "\<exists>now. pc = M_submit now")
  case False
  then have pc: "\<And>now. pc \<noteq> M_submit now" by simp
  have "rs_keeps (mb_rs api) inbox" using inbox by (simp add: inbox_ok_def)
  from main_inbox [OF this step l pc] main_held [OF ok step l pc] show ?thesis
    by (auto intro!: passes_still simp: server_inbox_def)
next
  case True
  note t = thr_okD [OF ok]
  obtain m w where sub: "modbus_submit_frame api (sy_mb y) (sy_w y) = (m, w)"
    and z: "in_flight pc' = []" "in_flight pc = []" "z = y\<lparr>sy_mb := m, sy_w := w\<rparr>"
    using step True l by (auto elim!: sys_step.cases)
  note keep = submit_keeps [OF t(2) sub] and s = submit_inbox [OF inbox t(4) sub]
  let ?f = "rx_bytes (sy_mb y)"
  have h: "held line (pc, p, y) = ?f @ held line (pc', p', z)"
    using z keep by (simp add: held_def rx_bytes_reset)
  show ?thesis
  proof (cases "frame_intact api ?f")
    case True
    then obtain a where a: "inbox w = inbox (sy_w y) @ [a]" "adu_matches a ?f"
      "adu_crc a = crc16_ansi api (take (mb_rx_len (sy_mb y) - 2) (mb_rx_frame (sy_mb y)))" using s by auto
    have "take (length ?f - 2) ?f = take (mb_rx_len (sy_mb y) - 2) (mb_rx_frame (sy_mb y))"
      using length_rx_bytes [OF t(4)] by (simp add: rx_bytes_def)
    then have "adu_of api a ?f" using a True by (simp add: adu_of_def)
    moreover have "carved (held line (pc, p, y) @ []) [?f] (held line (pc', p', z))" using h by auto
    ultimately show ?thesis using a(1) z(3) unfolding passes_def
      by (intro exI [of _ "[?f]"] exI [of _ "[a]"]) (simp add: server_inbox_def del: carved.simps)
  next
    case False
    then show ?thesis using s z(3) h
      by (intro passes_still [where pre = ?f]) (simp_all add: server_inbox_def)
  qed
qed

text \<open>The main thread takes from the ring at most.\<close>

lemma main_ring:
  assumes ok: "thr_ok api line kv (pc, p, y)" and step: "sys_step api (pc, p, y) l (pc', p', z)"
    and l: "main_label l"
  shows "length (ln_ring (line (sy_w z))) \<le> length (ln_ring (line (sy_w y)))"
proof -
  note t = thr_okD [OF ok]
  have up: "line w = line u" if "k_uptime_get (mb_rs api) u = (now, w)" for u now w
    using rs_ok_calls(7) [OF t(1) that] .
  have get: "length (ln_ring (line w)) \<le> length (ln_ring (line u))"
    if "ring_buf_get (mb_rs api) n u = (len, d, w)" for n u len d w
    using rs_ok_calls(6) [OF t(1) that] by simp
  show ?thesis
    using step
  proof (cases rule: sys_step.cases)
    case (S_store tot tmp m rs w now)
    then show ?thesis using absorb_keeps [OF t(1,2) S_store(7)] by simp
  next
    case (S_submit m w now)
    then show ?thesis using submit_keeps [OF t(2) S_submit(6)] by simp
  qed (use l up get rs_ok_pure(6) [OF t(1)] in \<open>auto\<close>)
qed

text \<open>The register callbacks work on the store alone.\<close>

lemma callback_inbox:
  assumes inbox: "inbox_apart api inbox" and step: "mb_step api y e z" and "reg_call e"
  shows "inbox (sy_w z) = inbox (sy_w y)"
proof -
  have "inbox (snd (snd (fdb_kv_get_blob (mb_fdb api) key n w))) = inbox w"
    "inbox (snd (fdb_kv_set_blob (mb_fdb api) key d w)) = inbox w" for key n d w
    using inbox by (simp_all add: inbox_apart_def)
  note keep = db_ops_keep [of inbox, OF this]
  show ?thesis
    using step \<open>reg_call e\<close>
    by (cases e)
       (auto simp: server_simps input_reg_rd_def split: if_splits dest!: callbackE dest: keep)
qed

lemma step_delivers:
  assumes ok: "thr_ok api line kv c" and inbox: "inbox_apart api inbox" and step: "sys_step api c l d"
    and inv: "rx_inv line (serial_part c, g)" and dma: "dma_track g (hw_of l) = Some g'"
  obtains arrived where "passes api line inbox c arrived d" and "arrives line (c, g) (hw_of l) arrived (d, g')"
proof -
  obtain pc p y pc' p' z where c: "c = (pc, p, y)" "d = (pc', p', z)" by (metis prod_cases3)
  note ok = ok [unfolded c] and step = step [unfolded c] and inv = inv [unfolded c]
  note t = thr_okD [OF ok]
  have i: "rs_keeps (mb_rs api) inbox" "\<And>d n w. inbox (snd (uart_tx (mb_rs api) d n w)) = inbox w"
    "\<And>w. inbox (snd (k_sem_take (mb_rs api) w)) = inbox w"
    using inbox by (simp_all add: inbox_apart_def inbox_ok_def)
  have still: thesis if "passes api line inbox c [] d" "arrives line ((pc, p, y), g) [] [] ((pc', p', z), g)" "hw_of l = []"
    using that(2,3) dma that(1) \<open>\<And>arrived. _ \<Longrightarrow> _ \<Longrightarrow> thesis\<close> by (simp add: c)
  show thesis
  proof (cases "main_label l")
    case True
    obtain r where "line (sy_w z) = (line (sy_w y))\<lparr>ln_ring := r\<rparr>" "sy_rs z = sy_rs y"
      using main_step [OF ok step True] by blast
    then have "arrives line ((pc, p, y), g) [] [] ((pc', p', z), g)"
      using main_ring [OF ok step True] by (intro arrives_none [OF inv]) simp_all
    moreover have "passes api line inbox c [] d"
      using main_passes [OF ok _ step True] inbox by (simp add: inbox_apart_def c)
    moreover have "hw_of l = []" using True by (cases l) simp_all
    ultimately show thesis using still by blast
  next
    case False
    show thesis
      using step
    proof (cases rule: sys_step.cases)
      case (S_call e r)
      have "length (input_reg (sy_mb y)) = 4" using t(4) by (simp add: mb_inv_def)
      note regs = callback_regs [OF t(2,5) this S_call(6,5)] and box = callback_inbox [OF inbox S_call(6,5)]
      show thesis
        using S_call(1-4) regs box
        by (intro still passes_same arrives_none [OF inv]) (auto simp: conf_simps c)
    next
      case (S_tx_copy a rs r)
      then show thesis by (intro still passes_same arrives_none [OF inv]) (simp_all add: conf_simps c)
    next
      case (S_tx rs w)
      have "same_rx (rs, line w) (sy_rs y, line (sy_w y))" by (rule writer_same_rx [OF t(1) S_tx(5)]) simp
      moreover have "inbox w = inbox (sy_w y)" using rs_lstep_keeps [OF i S_tx(5)] .
      ultimately show thesis
        using S_tx(1-3) by (intro still passes_same arrives_none [OF inv]) (simp_all add: conf_simps c same_rx_def)
    next
      case (S_hw ev rs w)
      obtain zs where zs: "ln_ring (line w) = ln_ring (line (sy_w y)) @ zs" using rs_lstep_ring [OF t(1) S_hw(4)] by blast
      have "inbox w = inbox (sy_w y)" using rs_lstep_keeps [OF i S_hw(4)] .
      then have "passes api line inbox c zs d"
        using S_hw(1-3) zs by (intro passes_still [where pre = "[]"]) (simp_all add: conf_simps c)
      moreover have "dma_next g (L_hw ev) = Some g'" using dma S_hw(1) by (simp split: option.splits)
      from hw_arrives [OF t(1) inv S_hw(4) this zs] have "arrives line (c, g) (hw_of l) zs (d, g')"
        using S_hw(1-3) by (simp add: c)
      ultimately show thesis by (rule \<open>\<And>arrived. _ \<Longrightarrow> _ \<Longrightarrow> thesis\<close>)
    next
      case (S_tx_null r)
      then show thesis by (intro still passes_same arrives_none [OF inv]) (simp_all add: conf_simps c)
    next
      case (S_tx_long a r)
      then show thesis by (intro still passes_same arrives_none [OF inv]) (simp_all add: conf_simps c)
    next
      case (S_tx_reject a r)
      then show thesis by (intro still passes_same arrives_none [OF inv]) (simp_all add: conf_simps c)
    qed (use False in auto)
  qed
qed

lemma dma_track_append:
  "dma_track g (xs @ ys) = (case dma_track g xs of None \<Rightarrow> None | Some h \<Rightarrow> dma_track h ys)"
  by (induction xs arbitrary: g) (simp_all split: option.split)

lemma threads_deliver:
  assumes inbox: "inbox_apart api inbox" and "runs (sys_step api) c ls d" and "thr_ok api line kv c"
    and "rx_inv line (serial_part c, g)" and "dma_track g (hw_labels ls) = Some g'"
  shows "\<exists>arrived. passes api line inbox c arrived d \<and> arrives line (c, g) (hw_labels ls) arrived (d, g')"
  using assms(2-)
proof (induction arbitrary: g rule: runs.induct)
  case (runs_Nil c)
  then show ?case by (intro exI [of _ "[]"]) (auto simp: arrives_def intro: passes_same)
next
  case (runs_Cons c l d ls e)
  obtain h where h: "dma_track g (hw_of l) = Some h" "dma_track h (hw_labels ls) = Some g'"
    using runs_Cons.prems(3) by (auto simp: dma_track_append split: option.splits)
  obtain a where a: "passes api line inbox c a d" "arrives line (c, g) (hw_of l) a (d, h)"
    by (rule step_delivers [OF runs_Cons.prems(1) inbox runs_Cons.hyps(1) runs_Cons.prems(2) h(1)])
  have "thr_ok api line kv d" using threads.step_inv [OF runs_Cons.prems(1) runs_Cons.hyps(1)] .
  moreover have "rx_inv line (serial_part d, h)" using a(2) by (simp add: arrives_def)
  ultimately obtain b where b: "passes api line inbox d b e" "arrives line (d, h) (hw_labels ls) b (e, g')"
    using runs_Cons.IH h(2) by blast
  show ?case using passes_trans [OF a(1) b(1)] arrives_trans [OF a(2) b(2)] by auto
qed

section \<open>Properties\<close>

text \<open>
  C5. The stream and the server, from the moment the UART was enabled on, with \<open>pos\<close> and \<open>rep\<close>
  counting what the DMA stores and the UART reports: in every interleaving of the main thread,
  the server and the hardware, let \<open>arrived\<close> be what came into the ring. It is a subsequence of
  the bytes that came in over the wire, and exactly these bytes, short of the \<open>pos - rep\<close> ones
  not reported yet, when no report would find the ring too full. Then the ADUs the server got
  are, in order, those of pieces of the stream made of what was held before and \<open>arrived\<close>: each
  piece is one contiguous complete frame with a matching CRC, the pieces follow one another
  without overlap, and each ADU has the unit, function code, length, payload and CRC of its
  piece; and the bytes still held, between the ring and the frame buffer too, are the end of the
  stream after them. So no frame is handed over twice, none is made up and none is damaged.
\<close>

theorem modbus_threads_get_stream:
  assumes ok: "thr_ok api line kv (pc, p, y)" and inbox: "inbox_apart api inbox"
    and rx: "rx_inv line ((p, sy_rs y, sy_w y), 0, 0)"
    and run: "runs (sys_step api) (pc, p, y) ls (pc', p', z)" and dma: "dma_track (0, 0) (hw_labels ls) = Some (pos, rep)"
  shows "\<exists>arrived fs as. inbox (sy_w z) = inbox (sy_w y) @ as \<and> list_all2 (adu_of api) as fs \<and>
    carved (rx_bytes (sy_mb y) @ in_flight pc @ ln_ring (line (sy_w y)) @ arrived) fs
      (rx_bytes (sy_mb z) @ in_flight pc' @ ln_ring (line (sy_w z))) \<and>
    subseq arrived (rx_wire (hw_labels ls)) \<and>
    (rx_fits (length (ln_ring (line (sy_w y)))) (hw_labels ls) \<longrightarrow>
      (\<exists>rest. length rest = pos - rep \<and> arrived @ rest = rx_wire (hw_labels ls)))"
proof -
  have inv: "rx_inv line (serial_part (pc, p, y), 0, 0)" using rx by (simp add: serial_part_def)
  obtain arrived where pass: "passes api line inbox (pc, p, y) arrived (pc', p', z)"
    and arr: "arrives line ((pc, p, y), 0, 0) (hw_labels ls) arrived ((pc', p', z), pos, rep)"
    using threads_deliver [OF inbox run ok inv dma] by blast
  let ?rest = "rx_pend (sy_rs z) (line (sy_w z)) (pos, rep)"
  have none: "unseen line (pc, p, y) (0, 0) = []" by (simp add: unseen_def rx_pend_def split: option.split)
  have rest: "length ?rest = pos - rep"
    using arr length_rx_pend [of line p' "sy_rs z" "sy_w z" pos rep] by (simp add: arrives_def serial_part_def)
  have "subseq (arrived @ ?rest) (rx_wire (hw_labels ls))" using arr none by (simp add: arrives_def unseen_def)
  moreover have "subseq arrived (arrived @ ?rest)" by (rule subseq_rev_drop_many) simp
  ultimately have "subseq arrived (rx_wire (hw_labels ls))" using subseq_order.order_trans by blast
  moreover have "arrived @ ?rest = rx_wire (hw_labels ls)"
    if "rx_fits (length (ln_ring (line (sy_w y)))) (hw_labels ls)"
    using arr none that unfolding arrives_def by (auto simp: unseen_def ring_of_def dest: spec [of _ "[]"])
  ultimately show ?thesis using pass rest unfolding passes_def conf_simps prod.case snd_conv by auto
qed

section \<open>Witness\<close>

lemma ats_loop_runs_ticks: "ats_loop api n y = Some z \<Longrightarrow> runs (mb_step api) y (replicate n Ev_tick) z"
proof (induction n arbitrary: y)
  case (Suc n)
  then obtain y1 where "modbus_service_tick api y = Some y1"
    "ats_loop api n (y1\<lparr>sy_w := k_sleep_ms (mb_rs api) 1 (sy_w y1)\<rparr>) = Some z" by (auto split: option.splits)
  then show ?case using Suc.IH by (auto intro!: runs_Cons)
qed simp

lemma sim_inbox_apart: "inbox_apart sim_mb sim_inbox"
  using sim_mb_ok by (auto simp: inbox_apart_def) (auto simp: sim_mb_def lift_rs_def split: prod.split)

text \<open>A request in the ring, delivered by three rounds of the main loop.\<close>

definition sim_ready :: "mb_sim mb_sys" where
  "sim_ready = sim_req\<lparr>sy_db := db_up\<rparr>"

lemma sim_ready_ok: "sys_ok sim_mb sim_line (sim_left \<circ> fst) sim_kv sim_ready"
  using sim_mb_ok sim_stack_ok sim_m_inv [of "[]"]
  by (simp add: sys_ok_def sim_ready_def sim_req_def sim_y_def sim_mw_def sim_rx_def sim_up_def idle_line_def)

text \<open>On the simulated platform only the sleep takes time, and events come from its list only.\<close>

definition sim_env :: "mb_sim \<Rightarrow> nat \<times> hw_event list" where
  "sim_env w = (sm_ms (fst w), sm_evs (fst w))"

lemma sim_calls_env:
  "k_uptime_get (mb_rs sim_mb) w = (t, w') \<Longrightarrow> sim_env w' = sim_env w"
  "ring_buf_get (mb_rs sim_mb) k w = (len, d, w') \<Longrightarrow> sim_env w' = sim_env w"
  "modbus_raw_submit_rx sim_mb i a w = (e, w') \<Longrightarrow> sim_env w' = sim_env w"
  "uart_tx (mb_rs sim_mb) buf n w = (r, w') \<Longrightarrow> sim_env w' = sim_env w"
  "k_sem_take (mb_rs sim_mb) w = (b, w') \<Longrightarrow> sim_env w' = sim_env w"
  "sim_env (gpio_pin_set_dt (mb_rs sim_mb) v w) = sim_env w"
  "sim_env (k_sleep_ms (mb_rs sim_mb) j w) = (fst (sim_env w) + j, snd (sim_env w))"
  by (auto simp: sim_mb_def lift_rs_def sim_rs_def sim_env_def Let_def split: prod.splits if_splits)

lemma sim_fdb_env:
  "sim_env (snd (snd (fdb_kv_get_blob (mb_fdb sim_mb) key n w))) = sim_env w"
  "sim_env (snd (fdb_kv_set_blob (mb_fdb sim_mb) key d w)) = sim_env w"
  by (auto simp: sim_mb_def sim_env_def split: prod.splits)

lemma sim_irq_env:
  assumes "hw_irq (mb_rs sim_mb) w = Some (ev, w')"
  shows "fst (sim_env w') = fst (sim_env w) \<and> (snd (sim_env w) = [] \<longrightarrow> snd (sim_env w') = [] \<and> ev = Uart_irq UART_TX_DONE)"
  using assms
  by (auto simp: sim_mb_def lift_rs_def sim_rs_def sim_irq_def sim_env_def split: list.splits if_splits)

lemma sim_on_hw_env: "on_hw (mb_rs sim_mb) ev s w = (s', w') \<Longrightarrow> sim_env w' = sim_env w"
  by (auto simp: on_hw_def uart_cb_def sim_mb_def lift_rs_def sim_rs_def sim_env_def Let_def
      split: hw_event.splits uart_event.splits prod.splits if_splits)

lemma sim_lstep_env:
  assumes "rs_lstep (mb_rs sim_mb) (p, s, w) L_writer (p', s', w')"
  shows "sim_env w' = sim_env w"
  using assms by (cases rule: rs_lstep.cases) (simp_all add: sim_calls_env)

text \<open>With no event left in its list, only the end of a transmission is to come.\<close>

definition silent_label :: "sys_label \<Rightarrow> bool" where
  "silent_label l \<longleftrightarrow> (\<forall>ev. l = T_hw ev \<longrightarrow> ev = Uart_irq UART_TX_DONE)"

lemma silent_label_simps [simp]: "silent_label T_main" "silent_label T_beat" "silent_label T_sleep" "silent_label T_tx"
  "silent_label (T_call e)" "silent_label (T_send a)" "silent_label (T_hw ev) \<longleftrightarrow> ev = Uart_irq UART_TX_DONE"
  by (simp_all add: silent_label_def)

lemma silent_track:
  "\<forall>l \<in> set ls. silent_label l \<Longrightarrow> dma_track g (hw_labels ls) = Some g \<and> rx_wire (hw_labels ls) = [] \<and> rx_fits n (hw_labels ls)"
proof (induction ls)
  case (Cons l ls)
  then show ?case by (cases l; cases g) auto
qed simp

lemma sim_step_env:
  assumes "sys_step sim_mb (pc, p, y) l (pc', p', z)"
  shows "fst (sim_env (sy_w y)) \<le> fst (sim_env (sy_w z)) \<and>
    (snd (sim_env (sy_w y)) = [] \<longrightarrow> snd (sim_env (sy_w z)) = [] \<and> silent_label l)"
  using assms
proof (cases rule: sys_step.cases)
  case (S_store tot tmp m rs w now)
  then show ?thesis
    by (auto simp: mb_absorb_def Let_def split: if_splits prod.splits dest!: sim_calls_env(1))
next
  case (S_submit m w now)
  then show ?thesis
    by (auto simp: modbus_submit_frame_def Let_def split: if_splits prod.splits dest!: sim_calls_env(3))
next
  case (S_call e r)
  note keep = db_ops_keep [of sim_env, OF sim_fdb_env]
  have "sim_env (sy_w z) = sim_env (sy_w y)"
    using S_call(5,6)
    by (cases e) (auto simp: server_simps input_reg_rd_def split: if_splits dest!: callbackE dest: keep)
  then show ?thesis using S_call(2) by simp
next
  case (S_tx rs w)
  then show ?thesis using sim_lstep_env [OF S_tx(5)] by simp
next
  case (S_hw ev rs w)
  obtain w1 where hw: "hw_irq (mb_rs sim_mb) (sy_w y) = Some (ev, w1)" "on_hw (mb_rs sim_mb) ev (sy_rs y) w1 = (rs, w)"
    using S_hw(4) by (auto elim: rs_lstep.cases)
  have "sim_env w = sim_env w1" by (rule sim_on_hw_env [OF hw(2)])
  then show ?thesis using S_hw(1-3) sim_irq_env [OF hw(1)] by auto
qed (auto simp: sim_calls_env(7) dest!: sim_calls_env(1,2))

lemma sim_runs_silent:
  "runs (sys_step sim_mb) c ls d \<Longrightarrow> snd (sim_env (sy_w (snd (snd c)))) = [] \<Longrightarrow> \<forall>l \<in> set ls. silent_label l"
proof (induction rule: runs.induct)
  case (runs_Cons c l d ls e)
  obtain pc p y pc' p' z where c: "c = (pc, p, y)" "d = (pc', p', z)" by (metis prod_cases3)
  show ?case using sim_step_env [OF runs_Cons.hyps(1) [unfolded c]] runs_Cons.prems runs_Cons.IH c by simp
qed simp

text \<open>A request comes in over the wire and is delivered by three rounds of the main loop.\<close>

abbreviation (input) sim_bytes :: "u8 list" where
  "sim_bytes \<equiv> mb_frame sim_mb sim_adu"

definition sim_on_wire :: "mb_sim mb_sys" where
  "sim_on_wire = sim_ready\<lparr>sy_w := (sim_rx [Dma_store 0 0 sim_bytes, Uart_irq (UART_RX_RDY 0 0 6)] []\<lparr>sm_ms := 50\<rparr>, [], [])\<rparr>"

definition sim_in_ring :: "mb_sim mb_sys" where
  "sim_in_ring = sim_ready\<lparr>sy_rs := rs_state0\<lparr>rx_buf := (rx_buf rs_state0)[0 := mem_write (rx_buf rs_state0 ! 0) 0 sim_bytes]\<rparr>\<rparr>"

lemma lift_irq:
  assumes "rs_lstep sim_rs (p, s, v) (L_hw ev) (p, s', v')"
  shows "rs_lstep (mb_rs sim_mb) (p, s, v, x) (L_hw ev) (p, s', v', x)"
proof -
  obtain v1 where "hw_irq sim_rs v = Some (ev, v1)" "on_hw sim_rs ev s v1 = (s', v')"
    using assms by (auto elim: rs_lstep.cases)
  then have "hw_irq (lift_rs sim_rs) (v, x) = Some (ev, v1, x)" "on_hw (lift_rs sim_rs) ev s (v1, x) = (s', v', x)"
    by (simp add: lift_rs_part part_rs_def) (use \<open>on_hw sim_rs ev s v1 = _\<close> in \<open>simp add: lift_on_hw\<close>)
  then show ?thesis unfolding sim_mb_rs by (rule rs_lstep.Irq)
qed

lemma sim_wire_run:
  "runs (sys_step sim_mb) (M_top, W_idle 0, sim_on_wire)
    [T_hw (Dma_store 0 0 sim_bytes), T_hw (Uart_irq (UART_RX_RDY 0 0 6))] (M_top, W_idle 0, sim_in_ring)"
proof -
  let ?s = "sy_rs sim_in_ring" and ?rdy = "Uart_irq (UART_RX_RDY 0 0 6)" and ?dma = "Dma_store 0 0 sim_bytes"
  let ?v = "\<lambda>evs ring. sim_rx evs ring\<lparr>sm_ms := 50\<rparr>"
  let ?y = "sim_on_wire\<lparr>sy_rs := ?s, sy_w := (?v [?rdy] [], [], [])\<rparr>"
  have y: "sy_rs sim_on_wire = rs_state0" "sy_w sim_on_wire = (?v [?dma, ?rdy] [], [], [])"
    by (simp_all add: sim_on_wire_def sim_ready_def sim_req_def sim_y_def)
  have "rs_lstep sim_rs (W_idle 0, rs_state0, ?v [?dma, ?rdy] []) (L_hw ?dma) (W_idle 0, ?s, ?v [?rdy] [])"
    by (rule rs_lstep.Irq [where ?w1.0 = "?v [?rdy] []"])
       (simp_all add: sim_rs_def sim_irq_def on_hw_def sim_in_ring_def sim_frame, simp add: sim_rx_def)
  from lift_irq [OF this] have 1: "sys_step sim_mb (M_top, W_idle 0, sim_on_wire) (T_hw ?dma) (M_top, W_idle 0, ?y)"
    by (intro S_hw) (simp add: y)
  have buf: "take 6 (rx_buf ?s ! 0) = sim_bytes" "min (length (rx_buf ?s ! 0)) 6 = 6"
    using sim_frame(2) by (simp_all add: sim_in_ring_def rs_state0_def mem_write_def)
  have irq: "rs_lstep sim_rs (W_idle 0, ?s, ?v [?rdy] []) (L_hw ?rdy) (W_idle 0, ?s, ?v [] sim_bytes)"
    by (rule rs_lstep.Irq [where ?w1.0 = "?v [] []"])
       (simp_all add: sim_rs_def sim_irq_def on_hw_def uart_cb_def Let_def buf sim_frame sim_rx_def sim_up_def)
  have in_ring: "sim_in_ring = ?y\<lparr>sy_rs := ?s, sy_w := sim_mw sim_bytes\<rparr>"
    by (simp add: sim_on_wire_def sim_in_ring_def sim_ready_def sim_req_def sim_y_def)
  from lift_irq [OF irq, of "([], [])"] S_hw [of sim_mb "W_idle 0" ?y ?rdy "W_idle 0" ?s "sim_mw sim_bytes" M_top]
  have 2: "sys_step sim_mb (M_top, W_idle 0, ?y) (T_hw ?rdy) (M_top, W_idle 0, sim_in_ring)"
    by (subst in_ring) (simp add: sim_mw_def)
  show ?thesis by (rule runs_two [where step = "sys_step sim_mb", OF 1 2])
qed

lemma sim_wire_delivered:
  obtains ls z b where "runs (sys_step sim_mb) (M_top, W_idle 0, sim_on_wire) ls (M_top, W_idle 0, z)"
    and "dma_track (0, 0) (hw_labels ls) = Some (6, 6)" and "rx_wire (hw_labels ls) = sim_bytes"
    and "rx_fits 0 (hw_labels ls)" and "sim_inbox (sy_w z) = [b]"
proof -
  have f: "frame_intact sim_mb sim_bytes" "length sim_bytes \<le> MODBUS_BUFFER_SIZE sim_mb"
    using sim_frame by (simp_all add: sim_mb_def)
  have rcv: "receiving sim_mb sim_line (sim_left \<circ> fst) (int \<circ> sm_ms \<circ> fst) sim_bytes sim_in_ring"
    using sim_m_inv [of "[]"] by (simp add: receiving_def sim_in_ring_def sim_ready_def sim_req_def sim_y_def rx_past_def)
  obtain z where loop: "ats_loop sim_mb 3 sim_in_ring = Some z" using sim_loop_total by blast
  have "sim_ms (sy_w z) = 53" using sim_loop_ms [OF loop] by (simp add: sim_in_ring_def sim_ready_def sim_req_def)
  then have "(int \<circ> sm_ms \<circ> fst) (sy_w z) < 2 ^ 63" by simp
  from request_delivered [OF sim_delivery rcv f loop this] obtain b where
    "sim_inbox (sy_w z) = sim_inbox (sy_w sim_in_ring) @ [b]" by blast
  then have b: "sim_inbox (sy_w z) = [b]" by (simp add: sim_in_ring_def sim_ready_def sim_req_def)
  obtain ls where run: "runs (sys_step sim_mb) (M_top, W_idle 0, sim_in_ring) ls (M_top, W_idle 0, z)"
    using ticks_run [OF ats_loop_runs_ticks [OF loop]] by blast
  have "\<forall>l \<in> set ls. silent_label l"
    by (rule sim_runs_silent [OF run])
       (simp add: sim_env_def sim_in_ring_def sim_ready_def sim_req_def sim_mw_def sim_rx_def sim_up_def)
  note quiet = silent_track [OF this]
  let ?ls = "[T_hw (Dma_store 0 0 sim_bytes), T_hw (Uart_irq (UART_RX_RDY 0 0 6))]"
  have "runs (sys_step sim_mb) (M_top, W_idle 0, sim_on_wire) (?ls @ ls) (M_top, W_idle 0, z)"
    using sim_wire_run run unfolding runs_append by blast
  from that [OF this _ _ _ b] quiet show thesis by (simp add: sim_frame)
qed

theorem modbus_threads_get_stream_witness:
  "\<exists>ls z b f. runs (sys_step sim_mb) (M_top, W_idle 0, sim_on_wire) ls (M_top, W_idle 0, z) \<and>
    rx_wire (hw_labels ls) = sim_bytes \<and> sim_inbox (sy_w sim_on_wire) = [] \<and> sim_inbox (sy_w z) = [b] \<and>
    adu_of sim_mb b f \<and> carved sim_bytes [f] (rx_bytes (sy_mb z) @ ln_ring (sim_line (sy_w z)))"
proof -
  obtain ls z b where run: "runs (sys_step sim_mb) (M_top, W_idle 0, sim_on_wire) ls (M_top, W_idle 0, z)"
    and dma: "dma_track (0, 0) (hw_labels ls) = Some (6, 6)" and wire: "rx_wire (hw_labels ls) = sim_bytes"
    and fits: "rx_fits 0 (hw_labels ls)" and b: "sim_inbox (sy_w z) = [b]"
    by (rule sim_wire_delivered)
  have start: "sim_inbox (sy_w sim_on_wire) = []" "rx_bytes (sy_mb sim_on_wire) = []"
    "ln_ring (sim_line (sy_w sim_on_wire)) = []"
    by (simp_all add: sim_on_wire_def sim_ready_def sim_req_def sim_y_def)
  have ok: "thr_ok sim_mb sim_line sim_kv (M_top, W_idle 0, sim_on_wire)"
    using sim_ready_ok by (simp add: thr_ok_def sys_ok_def sim_on_wire_def sim_ready_def sim_req_def sim_mw_def
      sim_rx_def sim_up_def idle_line_def)
  have rx: "rx_inv sim_line ((W_idle 0, sy_rs sim_on_wire, sy_w sim_on_wire), 0, 0)"
    by (simp add: rx_inv_def bufs_ok_def sim_on_wire_def sim_ready_def sim_req_def sim_y_def rs_state0_def)
  obtain arrived fs as where s: "sim_inbox (sy_w z) = sim_inbox (sy_w sim_on_wire) @ as" "list_all2 (adu_of sim_mb) as fs"
    "carved (rx_bytes (sy_mb sim_on_wire) @ in_flight M_top @ ln_ring (sim_line (sy_w sim_on_wire)) @ arrived) fs
      (rx_bytes (sy_mb z) @ in_flight M_top @ ln_ring (sim_line (sy_w z)))"
    "rx_fits (length (ln_ring (sim_line (sy_w sim_on_wire)))) (hw_labels ls) \<longrightarrow>
      (\<exists>rest. length rest = 6 - 6 \<and> arrived @ rest = rx_wire (hw_labels ls))"
    using modbus_threads_get_stream [OF ok sim_inbox_apart rx run dma] by blast
  have "as = [b]" using s(1) b start(1) by simp
  then obtain f where "fs = [f]" "adu_of sim_mb b f" using s(2) by (auto simp: list_all2_Cons1)
  moreover have "arrived = sim_bytes" using s(4) start(3) fits wire by simp
  ultimately show ?thesis using s(3) start b run wire by (intro exI [of _ ls] exI [of _ z] exI [of _ b] exI [of _ f]) simp
qed

end
