(* ===== verification/AtsSystem.thy ===== *)
theory AtsSystem
  imports ModbusStream
begin

text \<open>
  The whole controller from reset on: the flash part of the boot leaves the serial line
  alone, so a boot that enters the loop has set the system up, every round of the loop
  completes, and the invariant of the Modbus system holds at the end of each of them.
\<close>

section \<open>From reset into the loop\<close>

text \<open>A boot that enters the loop has set up the whole system.\<close>

lemma boot_sys_ok:
  assumes flash: "flash_keeps fa hl" and rs: "rs_ok (mb_rs mb) (hl \<circ> fs_w)"
    and arr: "arrivals (mb_rs mb) (hl \<circ> fs_w) left" and st: "stack_ok mb (hl \<circ> fs_w) kv"
    and init: "init_keeps_line mb (hl \<circ> fs_w)"
    and reset: "ln_tx (hl (fs_w (sy_w y))) = None" "mb_inv mb (sy_mb y)"
    and boot: "ats_boot cfg fa mb y = (At_loop, ret, out, y')"
  shows "sys_ok mb (hl \<circ> fs_w) left kv y'"
proof -
  have asks: "flash_asks_keep fa hl" using flash by (simp add: flash_keeps_def)
  obtain r1 p w1 w3 r2 w4 where i: "flashdb_port_init fa (fs_port (sy_w y)) (fs_w (sy_w y)) = (r1, p, w1)"
    and id: "hl w3 = hl w1" and test: "flashdb_port_self_test fa p w3 = (r2, w4)"
    and srv: "modbus_service_init mb (ats_set_hw y p w4) = (0, y')"
  proof (rule ats_boot_calls [OF boot, where ?'l = rs_line])
    fix r1 p w1 w3 r2 w4
    assume calls: "flashdb_port_init fa (fs_port (sy_w y)) (fs_w (sy_w y)) = (r1, p, w1)"
      "\<And>l :: _ \<Rightarrow> rs_line. flash_asks_keep fa l \<Longrightarrow> l w3 = l w1" "flashdb_port_self_test fa p w3 = (r2, w4)"
    assume "At_loop = At_port_init \<and> r1 \<noteq> 0 \<and> ret = r1 \<and> y' = ats_set_hw y p w1 \<or>
      At_loop = At_self_test \<and> r1 = 0 \<and> r2 \<noteq> 0 \<and> ret = r2 \<and> y' = ats_set_hw y p w4 \<or>
      At_service_init \<le> At_loop \<and> r1 = 0 \<and> r2 = 0 \<and> (ret = 0 \<longleftrightarrow> At_loop = At_loop) \<and>
        modbus_service_init mb (ats_set_hw y p w4) = (ret, y')"
    then show thesis using that [OF calls(1) calls(2) [OF asks] calls(3)] by simp
  qed
  have "hl w4 = hl (fs_w (sy_w y))"
    using init_keeps [OF asks i] id self_test_keeps [OF flash test] by simp
  then have "ln_tx ((hl \<circ> fs_w) (sy_w (ats_set_hw y p w4))) = None" "mb_inv mb (sy_mb (ats_set_hw y p w4))"
    using reset by (simp_all add: ats_set_hw_def)
  then show ?thesis using init_sys_ok [OF rs arr st init] srv by blast
qed

lemma loop_sys_ok:
  "sys_ok mb line left kv y \<Longrightarrow> ats_loop mb n y = Some z \<Longrightarrow> sys_ok mb line left kv z"
  by (rule service.runs_inv [OF ats_loop_runs_ticks])

lemma ats_loop_total:
  assumes "rs_ok (mb_rs mb) line" and "arrivals (mb_rs mb) line left"
  shows "\<exists>z. ats_loop mb n y = Some z"
proof (induction n arbitrary: y)
  case (Suc n)
  obtain y1 where "modbus_service_tick mb y = Some y1" using tick_returns [OF assms] by blast
  then show ?case using Suc.IH by simp
qed simp

section \<open>Properties\<close>

text \<open>
  C3. The program from reset on never blocks and never gets into a bad state, when only
  finitely many bytes arrive while the body of the loop runs: for every number of rounds,
  \<open>main\<close> either has returned 0, exactly when a stage of the boot failed, or has completed
  all its rounds and the system is in order: the frame buffer and the registers are within
  their bounds, the point database is ready, DE is low, nothing is being sent and no stale
  completion is pending.
\<close>

theorem ats_main_runs:
  assumes flash: "flash_keeps fa hl" and rs: "rs_ok (mb_rs mb) (hl \<circ> fs_w)"
    and arr: "arrivals (mb_rs mb) (hl \<circ> fs_w) left" and st: "stack_ok mb (hl \<circ> fs_w) kv"
    and init: "init_keeps_line mb (hl \<circ> fs_w)"
    and reset: "ln_tx (hl (fs_w (sy_w y))) = None" "mb_inv mb (sy_mb y)"
    and boot: "ats_boot cfg fa mb y = (stage, ret, out, y1)"
  shows "(stage < At_loop \<longrightarrow> ats_main cfg fa mb n y = Some (Inl 0)) \<and>
    (stage = At_loop \<longrightarrow> (\<exists>z. ats_main cfg fa mb n y = Some (Inr z) \<and>
       mb_inv mb (sy_mb z) \<and> g_db_ready (sy_db z) \<and> \<not> ln_de (hl (fs_w (sy_w z))) \<and>
       ln_tx (hl (fs_w (sy_w z))) = None \<and> ln_sem (hl (fs_w (sy_w z))) = 0))"
proof (intro conjI impI)
  show "ats_main cfg fa mb n y = Some (Inl 0)" if "stage < At_loop"
    using that boot by (simp add: ats_main_def)
  assume stage: "stage = At_loop"
  obtain z where loop: "ats_loop mb n y1 = Some z" using ats_loop_total [OF rs arr] by blast
  have "sys_ok mb (hl \<circ> fs_w) left kv z"
    using loop_sys_ok [OF boot_sys_ok [OF flash rs arr st init reset boot [unfolded stage]] loop] .
  from sys_okD(4-6) [OF this] loop boot stage
  show "\<exists>z. ats_main cfg fa mb n y = Some (Inr z) \<and> mb_inv mb (sy_mb z) \<and> g_db_ready (sy_db z) \<and>
      \<not> ln_de (hl (fs_w (sy_w z))) \<and> ln_tx (hl (fs_w (sy_w z))) = None \<and> ln_sem (hl (fs_w (sy_w z))) = 0"
    by (simp add: ats_main_def less_boot_stage_def)
qed

text \<open>What the service start leaves behind when it succeeds.\<close>

lemma service_init_zero:
  assumes "modbus_service_init mb y = (0, y')"
  shows "g_db_ready (sy_db y')" and "mb_rx_len (sy_mb y') = 0"
  using assms
  by (auto simp: modbus_service_init_def modbus_points_db_init_def Let_def split: if_splits prod.splits)

text \<open>
  C13. The order of the boot and what each stage may touch. \<open>hl\<close> is the view of the serial
  hardware and \<open>mem\<close> the contents of the partition; opening the partition and identifying the
  chip change neither, and the flash driver never changes the serial hardware. The code is 0
  exactly when the loop is entered. A boot that stops before the service has touched none of
  the state of the service, of the RS485 service, of the database handle and of the adapter,
  nor the serial hardware; if the partition could not be opened its contents are as before,
  and if the self test failed they may have changed in the first erase block only. A boot that
  gets to the service starts it with the partition open, with all that state as at reset and
  with the partition holding the test message, the rest of the first block erased and all
  other bytes unchanged. When the loop is entered the database is ready and the frame buffer
  is empty.
\<close>

theorem ats_boot_stages:
  assumes boot: "ats_boot cfg fa mb y = (stage, ret, out, y')"
    and flash: "flash_keeps fa hl" and asks: "flash_asks_keep fa mem"
    and opened: "flash_area_open fa (fs_w (sy_w y)) = (ro, area, v)"
    and ok: "flash_ok fa area mem" and up: "round_up_ok fa" and align: "unat (flash_area_align fa area) < 2 ^ 31"
    and block: "\<forall>dev off w r n. flash_get_page_info_by_offs fa dev off w = (r, n) \<longrightarrow> 64 \<le> unat n"
  shows "(ret = 0 \<longleftrightarrow> stage = At_loop) \<and>
    (stage < At_service_init \<longrightarrow> sy_mb y' = sy_mb y \<and> sy_rs y' = sy_rs y \<and> sy_db y' = sy_db y \<and>
      fs_fal (sy_w y') = fs_fal (sy_w y) \<and> hl (fs_w (sy_w y')) = hl (fs_w (sy_w y))) \<and>
    (stage = At_port_init \<longrightarrow> mem (fs_w (sy_w y')) = mem (fs_w (sy_w y))) \<and>
    (stage = At_self_test \<longrightarrow> (\<forall>i \<ge> unat (flashdb_erase_size (fs_port (sy_w y'))).
      mem (fs_w (sy_w y')) i = mem (fs_w (sy_w y)) i)) \<and>
    (At_service_init \<le> stage \<longrightarrow> (\<exists>y1. modbus_service_init mb y1 = (ret, y') \<and>
      sy_mb y1 = sy_mb y \<and> sy_rs y1 = sy_rs y \<and> sy_db y1 = sy_db y \<and>
      fs_fal (sy_w y1) = fs_fal (sy_w y) \<and> hl (fs_w (sy_w y1)) = hl (fs_w (sy_w y)) \<and>
      flashdb_area (fs_port (sy_w y1)) = Some area \<and>
      (\<forall>i. mem (fs_w (sy_w y1)) i = (if i < 18 then self_test_msg ! i
         else if i < unat (flashdb_erase_size (fs_port (sy_w y1))) then 255 else mem (fs_w (sy_w y)) i)))) \<and>
    (stage = At_loop \<longrightarrow> g_db_ready (sy_db y') \<and> mb_rx_len (sy_mb y') = 0)"
proof -
  let ?v = "\<lambda>w. (hl w, mem w)"
  have both: "flash_asks_keep fa ?v" using flash asks by (simp add: flash_asks_keep_def flash_keeps_def)
  obtain r1 p w1 w3 r2 w4 where init: "flashdb_port_init fa (fs_port (sy_w y)) (fs_w (sy_w y)) = (r1, p, w1)"
    and id: "?v w3 = ?v w1" and test: "flashdb_port_self_test fa p w3 = (r2, w4)"
    and ends: "stage = At_port_init \<and> r1 \<noteq> 0 \<and> ret = r1 \<and> y' = ats_set_hw y p w1 \<or>
      stage = At_self_test \<and> r1 = 0 \<and> r2 \<noteq> 0 \<and> ret = r2 \<and> y' = ats_set_hw y p w4 \<or>
      At_service_init \<le> stage \<and> r1 = 0 \<and> r2 = 0 \<and> (ret = 0 \<longleftrightarrow> stage = At_loop) \<and>
        modbus_service_init mb (ats_set_hw y p w4) = (ret, y')"
    by (rule ats_boot_calls [OF boot, where ?'l = "'b \<times> (nat \<Rightarrow> u8)"]) (use both that in blast)
  have w1: "?v w1 = ?v (fs_w (sy_w y))" and w4: "hl w4 = hl w3"
    using init_keeps [OF both init] self_test_keeps [OF flash test] by simp_all
  have p: "flashdb_area p = Some area" "64 \<le> unat (flashdb_erase_size p)" if "r1 = 0"
    using port_init_area [OF init [unfolded that]] opened block by (metis prod.inject)+
  have first: "mem w4 i = mem (fs_w (sy_w y)) i" if "r1 = 0" "unat (flashdb_erase_size p) \<le> i" for i
    using self_test_confined [OF p(1) [OF that(1)] ok p(2) [OF that(1)] that(2) test] id w1 by simp
  have msg: "mem w4 i = (if i < 18 then self_test_msg ! i else if i < unat (flashdb_erase_size p) then 255
      else mem (fs_w (sy_w y)) i)" if "r1 = 0" "r2 = 0" for i
    using self_test_contents [OF p(1) [OF that(1)] ok up align p(2) [OF that(1)] test [unfolded that(2)], of i] id w1 by simp
  show ?thesis
    using ends
  proof (elim disjE conjE)
    assume "stage = At_port_init" "r1 \<noteq> 0" "ret = r1" "y' = ats_set_hw y p w1"
    then show ?thesis using w1 by (simp add: ats_set_hw_def less_eq_boot_stage_def less_boot_stage_def)
  next
    assume "stage = At_self_test" "r1 = 0" "r2 \<noteq> 0" "ret = r2" "y' = ats_set_hw y p w4"
    then show ?thesis using w1 w4 id first by (simp add: ats_set_hw_def less_eq_boot_stage_def less_boot_stage_def)
  next
    assume r: "At_service_init \<le> stage" "r1 = 0" "r2 = 0" "ret = 0 \<longleftrightarrow> stage = At_loop"
      and srv: "modbus_service_init mb (ats_set_hw y p w4) = (ret, y')"
    have "\<not> stage < At_service_init" "stage \<noteq> At_port_init" "stage \<noteq> At_self_test"
      using r(1) by (auto simp: less_eq_boot_stage_def less_boot_stage_def)
    moreover have "\<exists>y1. modbus_service_init mb y1 = (ret, y') \<and>
      sy_mb y1 = sy_mb y \<and> sy_rs y1 = sy_rs y \<and> sy_db y1 = sy_db y \<and>
      fs_fal (sy_w y1) = fs_fal (sy_w y) \<and> hl (fs_w (sy_w y1)) = hl (fs_w (sy_w y)) \<and>
      flashdb_area (fs_port (sy_w y1)) = Some area \<and>
      (\<forall>i. mem (fs_w (sy_w y1)) i = (if i < 18 then self_test_msg ! i
         else if i < unat (flashdb_erase_size (fs_port (sy_w y1))) then 255 else mem (fs_w (sy_w y)) i))"
      by (rule exI [of _ "ats_set_hw y p w4"])
         (use srv w1 w4 id p(1) msg r(2,3) in \<open>simp add: ats_set_hw_def\<close>)
    ultimately show ?thesis using r(4) service_init_zero [of mb "ats_set_hw y p w4" y'] srv by simp
  qed
qed

section \<open>Witness\<close>

text \<open>The hardware of a whole board: the serial side and the store, next to the flash.\<close>

type_synonym board = "mb_sim \<times> (nat \<Rightarrow> u8)"

definition board_flash :: "board flash_api" where
  "board_flash = \<lparr>
     flash_area_open = (\<lambda>w. (0, sim_area, w)),
     flash_area_device_is_ready = (\<lambda>fa w. True),
     flash_get_page_info_by_offs = (\<lambda>dev off w. (0, 1024)),
     flash_area_align = (\<lambda>fa. 4),
     flash_area_read = (\<lambda>fa off len (m, f). apsnd (apsnd (Pair m)) (flash_area_read sim_flash fa off len f)),
     flash_area_write = (\<lambda>fa off buf len (m, f). apsnd (Pair m) (flash_area_write sim_flash fa off buf len f)),
     flash_area_erase = (\<lambda>fa off len (m, f). apsnd (Pair m) (flash_area_erase sim_flash fa off len f)),
     flash_ex_op_generic_read = (\<lambda>dev cmd w. (0, replicate (unat (NbData cmd)) 0, w)),
     flash_read_jedec_id = (\<lambda>dev w. (0, [0xC2, 0x20, 0x1A], w)),
     ROUND_UP = sim_round_up\<rparr>"

definition board_get :: "board fal_sys \<Rightarrow> mb_sim" where
  "board_get v = fst (fs_w v)"

definition board_put :: "mb_sim \<Rightarrow> board fal_sys \<Rightarrow> board fal_sys" where
  "board_put m v = v\<lparr>fs_w := (m, snd (fs_w v))\<rparr>"

interpretation board_part: platform_part board_get board_put
  by unfold_locales (auto simp: board_get_def board_put_def)

definition board_mb :: "board fal_sys mb_api" where
  "board_mb =
     \<lparr>mb_rs = part_rs board_get board_put (mb_rs sim_mb),
      mb_fdb =
        \<lparr>k_mutex_init = id, k_mutex_lock = id, k_mutex_unlock = id, fdb_kvdb_control = (\<lambda>c f w. w),
         fdb_kvdb_init = (\<lambda>nm path d w.
           apsnd (\<lambda>v. board_put v w) (fdb_kvdb_init (mb_fdb sim_mb) nm path d (board_get w))),
         fdb_kv_get_blob = (\<lambda>key n w.
           apsnd (apsnd (\<lambda>v. board_put v w)) (fdb_kv_get_blob (mb_fdb sim_mb) key n (board_get w))),
         fdb_kv_set_blob = (\<lambda>key d w.
           apsnd (\<lambda>v. board_put v w) (fdb_kv_set_blob (mb_fdb sim_mb) key d (board_get w)))\<rparr>,
      MODBUS_BUFFER_SIZE = 256, crc16_ansi = crc16_ansi sim_mb, sys_put_le16 = le16_bytes,
      sys_get_le16 = of_le16_bytes,
      modbus_iface_get_by_name = (\<lambda>n w. (if n = ''RAW_0'' then 0 else - ENODEV, w)),
      modbus_init_server = (\<lambda>i p w. (0, w)),
      modbus_raw_submit_rx = (\<lambda>i a w. apsnd (\<lambda>v. board_put v w) (modbus_raw_submit_rx sim_mb i a (board_get w)))\<rparr>"

abbreviation (input) board_line :: "board \<Rightarrow> rs_line" where "board_line \<equiv> sim_line \<circ> fst"

lemma board_comp: "(f \<circ> fst) \<circ> fs_w = f \<circ> board_get"
  by (auto simp: board_get_def)

lemma board_flash_ok: "flash_ok board_flash sim_area snd" "flash_never_fails board_flash sim_area"
  "flash_keeps board_flash board_line" "round_up_ok board_flash"
proof -
  show "flash_ok board_flash sim_area snd"
    by (auto simp: flash_ok_def flash_read_ok_def flash_erase_ok_def flash_write_ok_def board_flash_def sim_flash_def)
  show "flash_never_fails board_flash sim_area"
    by (simp add: flash_never_fails_def board_flash_def sim_flash_def split: prod.split)
  show "flash_keeps board_flash board_line"
    by (simp add: flash_keeps_def flash_asks_keep_def board_flash_def sim_flash_def split: prod.split)
  show "round_up_ok board_flash" using sim_round_up_ok by (simp add: round_up_ok_def board_flash_def sim_flash_def)
qed

lemma board_wr_len: "self_test_wr_len board_flash sim_area \<le> 64"
  using sim_wr_len by (simp add: self_test_wr_len_def board_flash_def sim_flash_def)

lemma board_rs: "rs_ok (mb_rs board_mb) (board_line \<circ> fs_w)"
  "arrivals (mb_rs board_mb) (board_line \<circ> fs_w) ((sim_left \<circ> fst) \<circ> board_get)"
  using board_part.part_rs_ok [OF sim_mb_ok(1)] board_part.part_arrivals [OF sim_mb_ok(2)]
  unfolding board_comp by (simp_all add: board_mb_def)

lemma board_fdb_calls:
  shows "fdb_kv_get_blob (mb_fdb board_mb) key n w = (len, d, w') \<Longrightarrow>
      \<exists>m. fdb_kv_get_blob (mb_fdb sim_mb) key n (board_get w) = (len, d, m) \<and> w' = board_put m w"
    and "fdb_kv_set_blob (mb_fdb board_mb) key v w = (e, w') \<Longrightarrow>
      \<exists>m. fdb_kv_set_blob (mb_fdb sim_mb) key v (board_get w) = (e, m) \<and> w' = board_put m w"
    and "fdb_kvdb_init (mb_fdb board_mb) nm path ds w = (e, w') \<Longrightarrow>
      \<exists>m. fdb_kvdb_init (mb_fdb sim_mb) nm path ds (board_get w) = (e, m) \<and> w' = board_put m w"
proof -
  show "fdb_kv_get_blob (mb_fdb board_mb) key n w = (len, d, w') \<Longrightarrow>
      \<exists>m. fdb_kv_get_blob (mb_fdb sim_mb) key n (board_get w) = (len, d, m) \<and> w' = board_put m w"
    by (cases "fdb_kv_get_blob (mb_fdb sim_mb) key n (board_get w)") (simp add: board_mb_def)
  show "fdb_kv_set_blob (mb_fdb board_mb) key v w = (e, w') \<Longrightarrow>
      \<exists>m. fdb_kv_set_blob (mb_fdb sim_mb) key v (board_get w) = (e, m) \<and> w' = board_put m w"
    by (cases "fdb_kv_set_blob (mb_fdb sim_mb) key v (board_get w)") (simp add: board_mb_def)
  show "fdb_kvdb_init (mb_fdb board_mb) nm path ds w = (e, w') \<Longrightarrow>
      \<exists>m. fdb_kvdb_init (mb_fdb sim_mb) nm path ds (board_get w) = (e, m) \<and> w' = board_put m w"
    by (cases "fdb_kvdb_init (mb_fdb sim_mb) nm path ds (board_get w)") (simp add: board_mb_def)
qed

lemma board_fdb: "fdb_ok (mb_fdb board_mb) (sim_kv \<circ> board_get)"
proof -
  have get: "fdb_get_ok (mb_fdb sim_mb) sim_kv" and set: "fdb_set_ok (mb_fdb sim_mb) sim_kv"
    and init: "fdb_init_ok (mb_fdb sim_mb) sim_kv"
    using sim_mb_fdb_ok by (simp_all add: fdb_ok_def)
  have "fdb_get_ok (mb_fdb board_mb) (sim_kv \<circ> board_get)"
    unfolding fdb_get_ok_def
  proof (intro allI impI)
    fix key n w len d w'
    assume "fdb_kv_get_blob (mb_fdb board_mb) key n w = (len, d, w')"
    from board_fdb_calls(1) [OF this] obtain m where
      m: "fdb_kv_get_blob (mb_fdb sim_mb) key n (board_get w) = (len, d, m)" "w' = board_put m w" by blast
    have "sim_kv m = sim_kv (board_get w) \<and>
        d = (case sim_kv (board_get w) key of None \<Rightarrow> [] | Some v \<Rightarrow> take (unat n) v) \<and> unat len = length d"
      using get m(1) unfolding fdb_get_ok_def by blast
    then show "(sim_kv \<circ> board_get) w' = (sim_kv \<circ> board_get) w \<and>
        d = (case (sim_kv \<circ> board_get) w key of None \<Rightarrow> [] | Some v \<Rightarrow> take (unat n) v) \<and> unat len = length d"
      using m(2) by simp
  qed
  moreover have "fdb_set_ok (mb_fdb board_mb) (sim_kv \<circ> board_get)"
    unfolding fdb_set_ok_def
  proof (intro allI impI)
    fix key v w e w'
    assume "fdb_kv_set_blob (mb_fdb board_mb) key v w = (e, w')"
    from board_fdb_calls(2) [OF this] obtain m where
      m: "fdb_kv_set_blob (mb_fdb sim_mb) key v (board_get w) = (e, m)" "w' = board_put m w" by blast
    have "(\<forall>k. k \<noteq> key \<longrightarrow> sim_kv m k = sim_kv (board_get w) k) \<and> (e = FDB_NO_ERR \<longrightarrow> sim_kv m key = Some v)"
      using set m(1) unfolding fdb_set_ok_def by blast
    then show "(\<forall>k. k \<noteq> key \<longrightarrow> (sim_kv \<circ> board_get) w' k = (sim_kv \<circ> board_get) w k) \<and>
        (e = FDB_NO_ERR \<longrightarrow> (sim_kv \<circ> board_get) w' key = Some v)" using m(2) by simp
  qed
  moreover have "fdb_init_ok (mb_fdb board_mb) (sim_kv \<circ> board_get)"
    unfolding fdb_init_ok_def
  proof (intro conjI allI impI)
    fix nm path ds w w'
    assume "fdb_kvdb_init (mb_fdb board_mb) nm path ds w = (FDB_NO_ERR, w')"
    from board_fdb_calls(3) [OF this] obtain m where
      m: "fdb_kvdb_init (mb_fdb sim_mb) nm path ds (board_get w) = (FDB_NO_ERR, m)" "w' = board_put m w" by blast
    have "sim_kv m = (if sim_kv (board_get w) = Map.empty then map_of ds else sim_kv (board_get w))"
      using init m(1) unfolding fdb_init_ok_def by blast
    then show "(sim_kv \<circ> board_get) w' =
        (if (sim_kv \<circ> board_get) w = Map.empty then map_of ds else (sim_kv \<circ> board_get) w)" using m(2) by simp
  qed (simp_all add: board_mb_def)
  ultimately show ?thesis by (simp only: fdb_ok_def)
qed

lemma board_stack: "stack_ok board_mb (board_line \<circ> fs_w) (sim_kv \<circ> board_get)"
  "init_keeps_line board_mb (board_line \<circ> fs_w)"
proof -
  have s: "rs_keeps (mb_rs sim_mb) sim_kv"
    "\<And>d n w. sim_kv (snd (uart_tx (mb_rs sim_mb) d n w)) = sim_kv w"
    "\<And>w. sim_kv (snd (k_sem_take (mb_rs sim_mb) w)) = sim_kv w"
    "\<And>i a w. sim_kv (snd (modbus_raw_submit_rx sim_mb i a w)) = sim_kv w"
    "\<And>i a w. sim_line (snd (modbus_raw_submit_rx sim_mb i a w)) = sim_line w"
    "\<And>key n w. sim_line (snd (snd (fdb_kv_get_blob (mb_fdb sim_mb) key n w))) = sim_line w"
    "\<And>key d w. sim_line (snd (fdb_kv_set_blob (mb_fdb sim_mb) key d w)) = sim_line w"
    using sim_stack_ok by (simp_all only: stack_ok_def)
  have rs: "mb_rs board_mb = part_rs board_get board_put (mb_rs sim_mb)" by (simp add: board_mb_def)
  have ops: "board_get (snd (uart_tx (mb_rs board_mb) d n w)) = snd (uart_tx (mb_rs sim_mb) d n (board_get w))"
    "board_get (snd (k_sem_take (mb_rs board_mb) w)) = snd (k_sem_take (mb_rs sim_mb) (board_get w))"
    "board_get (snd (modbus_raw_submit_rx board_mb i a w)) = snd (modbus_raw_submit_rx sim_mb i a (board_get w))"
    "board_get (snd (snd (fdb_kv_get_blob (mb_fdb board_mb) key k w))) =
      snd (snd (fdb_kv_get_blob (mb_fdb sim_mb) key k (board_get w)))"
    "board_get (snd (fdb_kv_set_blob (mb_fdb board_mb) key v w)) = snd (fdb_kv_set_blob (mb_fdb sim_mb) key v (board_get w))"
    for d n w i a key k v by (simp_all add: board_mb_def part_rs_def)
  have "rs_keeps (mb_rs board_mb) (sim_kv \<circ> board_get)" unfolding rs by (rule board_part.part_keeps_part [OF s(1)])
  then show "stack_ok board_mb (board_line \<circ> fs_w) (sim_kv \<circ> board_get)"
    unfolding stack_ok_def board_comp using board_fdb by (simp add: ops s [unfolded comp_def])
  have init: "sim_line (snd (fdb_kvdb_init (mb_fdb sim_mb) nm path d m)) = sim_line m" for nm path d m
    by (cases m) (simp add: sim_mb_def)
  have db: "sim_line (board_get (snd (snd (modbus_points_db_init (mb_fdb board_mb) db w)))) = sim_line (board_get w)"
    for db w
  proof -
    obtain e m where e: "fdb_kvdb_init (mb_fdb sim_mb) ''modbus'' ''flashdb'' g_default_nodes (board_get w) = (e, m)"
      by (cases "fdb_kvdb_init (mb_fdb sim_mb) ''modbus'' ''flashdb'' g_default_nodes (board_get w)")
    have "sim_line m = sim_line (board_get w)"
      using init [of "''modbus''" "''flashdb''" g_default_nodes "board_get w"] e by simp
    then show ?thesis by (simp add: modbus_points_db_init_def board_mb_def e Let_def)
  qed
  show "init_keeps_line board_mb (board_line \<circ> fs_w)"
    unfolding init_keeps_line_def board_comp
    using db by (simp add: board_mb_def)
qed

text \<open>The board at reset.\<close>

definition board_y :: "board ats_sys" where
  "board_y = \<lparr>sy_mb = mb_state0 256, sy_rs = rs_state0, sy_db = \<lparr>g_db_ready = False\<rparr>,
     sy_w = \<lparr>fs_fal = fal_state0, fs_port = port_state0, fs_w = ((sim_boot, [], []), \<lambda>i. 170)\<rparr>\<rparr>"

lemma board_boots: "\<exists>out y1. ats_boot sim_cfg board_flash board_mb board_y = (At_loop, 0, out, y1)"
proof -
  let ?w = "((sim_boot, [], []), \<lambda>i. 170) :: board"
  have init: "flashdb_port_init board_flash port_state0 ?w = (0, sim_port, ?w)"
    by (simp add: flashdb_port_init_def sim_port_eq) (simp add: board_flash_def port_state0_def)
  obtain i out1 w2 where id: "flashdb_port_print_jedec_id sim_cfg board_flash sim_port ?w = (i, out1, w2)"
    by (cases "flashdb_port_print_jedec_id sim_cfg board_flash sim_port ?w")
  obtain d out2 w3 where dump: "flashdb_port_print_sfdp_dw15 sim_cfg board_flash sim_port w2 = (d, out2, w3)"
    by (cases "flashdb_port_print_sfdp_dw15 sim_cfg board_flash sim_port w2")
  have "fst (flashdb_port_self_test board_flash sim_port w3) = 0"
    by (rule self_test_returns_zero [where fa = sim_area and mem = snd])
       (simp_all add: sim_port_eq board_flash_ok board_wr_len, simp_all add: sim_area_def board_flash_def)
  then obtain w4 where test: "flashdb_port_self_test board_flash sim_port w3 = (0, w4)"
    by (metis prod.collapse)
  have "fst (modbus_service_init board_mb y) = 0" for y
    by (simp add: modbus_service_init_def board_mb_def modbus_points_db_init_def rs485_init_def part_rs_def
        sim_mb_def lift_rs_def sim_rs_def Let_def split: prod.split)
  then obtain y2 where "modbus_service_init board_mb (ats_set_hw board_y sim_port w4) = (0, y2)"
    by (metis prod.collapse)
  then show ?thesis using init id dump test by (simp add: ats_boot_def board_y_def)
qed

theorem ats_main_runs_witness:
  "\<exists>z. ats_main sim_cfg board_flash board_mb 1000 board_y = Some (Inr z) \<and> g_db_ready (sy_db z) \<and>
    \<not> ln_de (board_line (fs_w (sy_w z)))"
proof -
  obtain out y1 where boot: "ats_boot sim_cfg board_flash board_mb board_y = (At_loop, 0, out, y1)"
    using board_boots by blast
  have reset: "ln_tx (board_line (fs_w (sy_w board_y))) = None" "mb_inv board_mb (sy_mb board_y)"
    by (simp_all add: board_y_def sim_boot_def idle_line_def mb_inv_def mb_state0_def board_mb_def)
  from ats_main_runs [OF board_flash_ok(3) board_rs board_stack reset boot, of 1000] show ?thesis by blast
qed

theorem ats_boot_stages_witness:
  "\<exists>out y1 y'. ats_boot sim_cfg board_flash board_mb board_y = (At_loop, 0, out, y') \<and>
    modbus_service_init board_mb y1 = (0, y') \<and> sy_rs y1 = rs_state0 \<and> board_line (fs_w (sy_w y1)) = sm_line sim_boot \<and>
    flashdb_area (fs_port (sy_w y1)) = Some sim_area \<and> snd (fs_w (sy_w y1)) 17 = self_test_msg ! 17 \<and>
    g_db_ready (sy_db y')"
proof -
  obtain out y' where boot: "ats_boot sim_cfg board_flash board_mb board_y = (At_loop, 0, out, y')"
    using board_boots by blast
  have asks: "flash_asks_keep board_flash snd" by (simp add: flash_asks_keep_def board_flash_def)
  have opened: "flash_area_open board_flash (fs_w (sy_w board_y)) = (0, sim_area, fs_w (sy_w board_y))"
    and align: "unat (flash_area_align board_flash sim_area) < 2 ^ 31"
    and block: "\<forall>dev off w r n. flash_get_page_info_by_offs board_flash dev off w = (r, n) \<longrightarrow> 64 \<le> unat n"
    by (auto simp: board_flash_def)
  note st = ats_boot_stages [OF boot board_flash_ok(3) asks opened board_flash_ok(1,4) align block]
  obtain y1 where "modbus_service_init board_mb y1 = (0, y')" "sy_rs y1 = sy_rs board_y"
    "board_line (fs_w (sy_w y1)) = board_line (fs_w (sy_w board_y))" "flashdb_area (fs_port (sy_w y1)) = Some sim_area"
    "snd (fs_w (sy_w y1)) 17 = self_test_msg ! 17"
    using st by (auto simp: less_eq_boot_stage_def)
  moreover have "g_db_ready (sy_db y')" using st by simp
  ultimately show ?thesis
    using boot by (intro exI [of _ out] exI [of _ y1] exI [of _ y']) (simp add: board_y_def)
qed

end
