(* ===== verification/ModbusExchange.thy ===== *)
theory ModbusExchange
  imports AtsSystem
begin

text \<open>
  A whole Modbus exchange: a request for one holding register arrives on the wire, the main
  loop hands it to the server of Zephyr, the server calls the callbacks it was given and
  passes its answer to the response callback, and the answer leaves on the wire. The server
  is a parameter (\<open>serve\<close>); what is documented of it is the Modbus protocol for the function
  codes 3 (read holding registers, here one) and 6 (write single register).
\<close>

section \<open>Requests and answers of the protocol\<close>

definition be16 :: "u16 \<Rightarrow> u8 list" where
  "be16 v = rev (le16_bytes v)"

lemma length_be16 [simp]: "length (be16 v) = 2"
  by (simp add: be16_def)

datatype mb_request = Read_holding u16 | Write_holding u16 u16

fun req_addr :: "mb_request \<Rightarrow> u16" where
  "req_addr (Read_holding a) = a"
| "req_addr (Write_holding a v) = a"

text \<open>A function code with its data.\<close>

type_synonym pdu = "u8 \<times> u8 list"

fun req_pdu :: "mb_request \<Rightarrow> pdu" where
  "req_pdu (Read_holding a) = (3, be16 a @ be16 1)"
| "req_pdu (Write_holding a v) = (6, be16 a @ be16 v)"

text \<open>The answer to a callback that returned \<open>r\<close>; exception 2 is \<open>ILLEGAL DATA ADDRESS\<close>.\<close>

definition read_pdu :: "int \<Rightarrow> u16 option \<Rightarrow> pdu" where
  "read_pdu r x = (if r = 0 then (3, 2 # be16 (the x)) else (0x83, [2]))"

definition write_pdu :: "u16 \<Rightarrow> u16 \<Rightarrow> int \<Rightarrow> pdu" where
  "write_pdu a v r = (if r = 0 then (6, be16 a @ be16 v) else (0x86, [2]))"

text \<open>What a client may see of four holding registers \<open>f\<close> that become \<open>g\<close>.\<close>

fun holding_answer :: "(nat \<Rightarrow> u16 option) \<Rightarrow> mb_request \<Rightarrow> pdu \<Rightarrow> (nat \<Rightarrow> u16 option) \<Rightarrow> bool" where
  "holding_answer f (Read_holding a) p g \<longleftrightarrow>
     g = f \<and> p = (case (if unat a < 4 then f (unat a) else None) of
       Some v \<Rightarrow> (3, 2 # be16 v) | None \<Rightarrow> (0x83, [2]))"
| "holding_answer f (Write_holding a v) p g \<longleftrightarrow>
     (p = (6, be16 a @ be16 v) \<and> unat a < 4 \<and> g = f(unat a := Some v) \<or>
      p = (0x86, [2]) \<and> (\<forall>i. g i \<noteq> f i \<longrightarrow> unat a < 4 \<and> i = unat a))"

text \<open>The bytes of a frame on the wire.\<close>

definition rtu_frame :: "'w mb_api \<Rightarrow> u8 \<Rightarrow> pdu \<Rightarrow> u8 list" where
  "rtu_frame api unit p =
     (unit # fst p # snd p) @ sys_put_le16 api (crc16_ansi api (unit # fst p # snd p))"

definition adu_carries :: "modbus_adu \<Rightarrow> u8 \<Rightarrow> pdu \<Rightarrow> bool" where
  "adu_carries a unit p \<longleftrightarrow> adu_unit_id a = unit \<and> adu_fc a = fst p \<and>
     unat (adu_length a) = length (snd p) \<and> take (length (snd p)) (adu_data a) = snd p"

lemma carries_len: "adu_carries a unit p \<Longrightarrow> unat (adu_length a) \<le> length (adu_data a)"
  unfolding adu_carries_def by (metis length_take min.cobounded1)

lemma carries_frame: "adu_carries a unit p \<Longrightarrow> mb_frame api a = rtu_frame api unit p"
  by (auto simp: adu_carries_def mb_frame_def rtu_frame_def Let_def)

definition req_adu :: "u8 \<Rightarrow> pdu \<Rightarrow> modbus_adu" where
  "req_adu unit p = \<lparr>adu_proto_id = 0, adu_length = of_nat (length (snd p)), adu_unit_id = unit,
     adu_fc = fst p, adu_data = snd p, adu_crc = 0\<rparr>"

lemma req_adu_carries: "length (snd p) < 2 ^ 16 \<Longrightarrow> adu_carries (req_adu unit p) unit p"
  by (simp add: adu_carries_def req_adu_def unsigned_of_nat take_bit_nat_eq_self)

section \<open>The documented server\<close>

text \<open>
  The server answers with one call of the response callback, in the state its register
  callback has left. Addresses from 5000 on belong to an extension of Zephyr.
\<close>

definition replies ::
  "('w modbus_iface_param \<Rightarrow> modbus_adu \<Rightarrow> 'w mb_sys \<Rightarrow> 'w mb_sys option) \<Rightarrow> 'w modbus_iface_param
     \<Rightarrow> modbus_adu \<Rightarrow> 'w mb_sys \<Rightarrow> 'w mb_sys \<Rightarrow> pdu \<Rightarrow> bool" where
  "replies serve p b y y1 r \<longleftrightarrow>
     (\<exists>a. adu_carries a (mp_unit_id p) r \<and> serve p b y = map_option snd (mp_raw_tx_cb p (Some a) y1))"

definition modbus_server ::
  "('w modbus_iface_param \<Rightarrow> modbus_adu \<Rightarrow> 'w mb_sys \<Rightarrow> 'w mb_sys option) \<Rightarrow> 'w modbus_iface_param \<Rightarrow> bool" where
  "modbus_server serve p \<longleftrightarrow>
     (\<forall>b a y r x y1. adu_carries b (mp_unit_id p) (req_pdu (Read_holding a)) \<longrightarrow> unat a < 5000 \<longrightarrow>
        cb_holding_reg_rd (mp_user_cb p) a y = (r, x, y1) \<longrightarrow> replies serve p b y y1 (read_pdu r x)) \<and>
     (\<forall>b a v y r y1. adu_carries b (mp_unit_id p) (req_pdu (Write_holding a v)) \<longrightarrow> unat a < 5000 \<longrightarrow>
        cb_holding_reg_wr (mp_user_cb p) a v y = (r, y1) \<longrightarrow> replies serve p b y y1 (write_pdu a v r))"

lemma modbus_serverD:
  assumes "modbus_server serve p" and "unat (req_addr q) < 5000" and "adu_carries b (mp_unit_id p) (req_pdu q)"
  shows "q = Read_holding a \<Longrightarrow> cb_holding_reg_rd (mp_user_cb p) a y = (r, x, y1) \<Longrightarrow>
      replies serve p b y y1 (read_pdu r x)"
    and "q = Write_holding a v \<Longrightarrow> cb_holding_reg_wr (mp_user_cb p) a v y = (r', y1) \<Longrightarrow>
      replies serve p b y y1 (write_pdu a v r')"
proof -
  have rd: "\<And>b a y r x y1. adu_carries b (mp_unit_id p) (req_pdu (Read_holding a)) \<Longrightarrow> unat a < 5000 \<Longrightarrow>
        cb_holding_reg_rd (mp_user_cb p) a y = (r, x, y1) \<Longrightarrow> replies serve p b y y1 (read_pdu r x)"
    and wr: "\<And>b a v y r y1. adu_carries b (mp_unit_id p) (req_pdu (Write_holding a v)) \<Longrightarrow> unat a < 5000 \<Longrightarrow>
        cb_holding_reg_wr (mp_user_cb p) a v y = (r, y1) \<Longrightarrow> replies serve p b y y1 (write_pdu a v r)"
    using assms(1) unfolding modbus_server_def by blast+
  show "q = Read_holding a \<Longrightarrow> cb_holding_reg_rd (mp_user_cb p) a y = (r, x, y1) \<Longrightarrow>
      replies serve p b y y1 (read_pdu r x)"
    using rd assms(2,3) by simp
  show "q = Write_holding a v \<Longrightarrow> cb_holding_reg_wr (mp_user_cb p) a v y = (r', y1) \<Longrightarrow>
      replies serve p b y y1 (write_pdu a v r')"
    using wr assms(2,3) by simp
qed

section \<open>The way in\<close>

lemma mb_request_delivered:
  assumes plat: "delivery_ok api line left now inbox" and codec: "codec_ok api"
    and size: "length (snd p) + 4 \<le> MODBUS_BUFFER_SIZE api" "length (snd p) < 2 ^ 16"
    and rcv: "receiving api line left now (rtu_frame api unit p) y"
    and run: "ats_loop api 3 y = Some z" and time: "now (sy_w z) < 2 ^ 63"
  shows "\<exists>b. inbox (sy_w z) = inbox (sy_w y) @ [b] \<and> adu_carries b unit p"
proof -
  note a = req_adu_carries [OF size(2), of unit]
  note len = carries_len [OF a] and frame = carries_frame [OF a, of api]
  have f: "frame_intact api (rtu_frame api unit p)" "length (rtu_frame api unit p) \<le> MODBUS_BUFFER_SIZE api"
    using mb_frame_intact [OF codec len] a size(1) unfolding frame by (simp_all add: adu_carries_def)
  obtain b where b: "inbox (sy_w z) = inbox (sy_w y) @ [b]" "adu_matches b (rtu_frame api unit p)"
    using request_delivered [OF plat rcv f run time] by blast
  have "adu_carries b unit p"
    using adu_matches_frame [OF codec len b(2) [folded frame]] a by (simp add: adu_carries_def)
  with b(1) show ?thesis by blast
qed

text \<open>The main loop leaves the registers alone that clients write, and sends nothing.\<close>

lemma loop_quiet:
  assumes "sys_ok api line left kv y" and "ats_loop api n y = Some z"
  shows "ln_sent (line (sy_w z)) = ln_sent (line (sy_w y)) \<and> rf_holding (reg_abs kv z) = rf_holding (reg_abs kv y)"
  using assms
proof (induction n arbitrary: y)
  case (Suc n)
  then obtain y1 where tick: "mb_step api y Ev_tick y1" and rest: "ats_loop api n y1 = Some z"
    by (auto split: option.splits)
  note t = tick_sim [OF Suc.prems(1) tick]
  have "sys_ok api line left kv y1" using t by blast
  then show ?case using Suc.IH [OF _ rest] t by auto
qed simp

section \<open>The way out\<close>

lemma reply_sent:
  assumes ok: "sys_ok api line left kv y" and codec: "codec_ok api" and tx: "tx_reliable (mb_rs api) line rem"
    and a: "adu_carries a unit p" and size: "length (snd p) + 4 \<le> MODBUS_BUFFER_SIZE api" "length (snd p) + 4 \<le> TX_BUF_SIZE"
  obtains z where "modbus_raw_tx_cb api (Some a) y = Some (0, z)" and "sys_ok api line left kv z"
    and "reg_abs kv z = reg_abs kv y" and "ln_sent (line (sy_w z)) = ln_sent (line (sy_w y)) @ [(rtu_frame api unit p, True)]"
proof -
  let ?len = "of_nat (unat (adu_length a) + 4) :: usize"
  have n: "unat (adu_length a) = length (snd p)" using a by (simp add: adu_carries_def)
  have len: "unat ?len = length (snd p) + 4" unfolding n using size(2) by (intro unat_of_small) simp
  have fits: "length (mb_frame api a) = unat ?len" using mb_frame_intact [OF codec carries_len [OF a]] n len by simp
  note s = sys_okD [OF ok]
  obtain rs w where wr: "rs485_write (mb_rs api) (mb_frame api a) ?len (sy_rs y) (sy_w y) = Some (0, rs, w)"
    and sent: "ln_sent (line w) = ln_sent (line (sy_w y)) @ [(take (unat ?len) (mb_frame api a), True)]"
    using rs485_write_sends [OF s(1) tx s(6), of ?len "mb_frame api a" "sy_rs y"] fits len size(2) by auto
  let ?z = "y\<lparr>sy_rs := rs, sy_w := w\<rparr>"
  have cb: "modbus_raw_tx_cb api (Some a) y = Some (0, ?z)"
    using wr size(1) n by (simp add: modbus_raw_tx_cb_def)
  then have step: "mb_step api y (Ev_raw_tx (Some a) 0) ?z" by (simp add: server_simps)
  show thesis
    using that [OF cb service.step_inv [OF ok step]] service.step_sim [OF ok step] sent fits
    by (simp add: carries_frame [OF a])
qed

lemma holding_cb_line:
  assumes "sys_ok api line left kv y"
  shows "cb_holding_reg_rd (mp_user_cb (server_param api)) a y = (r, x, z) \<Longrightarrow> line (sy_w z) = line (sy_w y)"
    and "cb_holding_reg_wr (mp_user_cb (server_param api)) a v y = (r, z) \<Longrightarrow> line (sy_w z) = line (sy_w y)"
  using db_ops_line(1,3) [OF sys_okD(3) [OF assms]]
  by (auto simp: server_simps holding_reg_rd_def holding_reg_wr_def split: prod.splits)

section \<open>The exchange\<close>

lemma served:
  assumes ok: "sys_ok api line left kv y" and codec: "codec_ok api" and tx: "tx_reliable (mb_rs api) line rem"
    and size: "8 \<le> MODBUS_BUFFER_SIZE api" and srv: "modbus_server serve (server_param api)"
    and b: "adu_carries b 1 (req_pdu q)" and addr: "unat (req_addr q) < 5000"
  shows "\<exists>z p. serve (server_param api) b y = Some z \<and> sys_ok api line left kv z \<and>
    holding_answer (rf_holding (reg_abs kv y)) q p (rf_holding (reg_abs kv z)) \<and>
    ln_sent (line (sy_w z)) = ln_sent (line (sy_w y)) @ [(rtu_frame api 1 p, True)]"
proof -
  have unit: "mp_unit_id (server_param api) = 1" by (simp add: server_param_def)
  have short: "length (snd (read_pdu r x)) \<le> 4" "length (snd (write_pdu a v r)) \<le> 4" for r x a v
    by (simp_all add: read_pdu_def write_pdu_def)
  have out: "\<exists>z. serve (server_param api) b y = Some z \<and> sys_ok api line left kv z \<and> reg_abs kv z = reg_abs kv y1 \<and>
      ln_sent (line (sy_w z)) = ln_sent (line (sy_w y1)) @ [(rtu_frame api 1 p, True)]"
    if r: "replies serve (server_param api) b y y1 p" and ok1: "sys_ok api line left kv y1" and p: "length (snd p) \<le> 4"
    for y1 p
  proof -
    obtain a where a: "adu_carries a 1 p"
      "serve (server_param api) b y = map_option snd (modbus_raw_tx_cb api (Some a) y1)"
      using r unit by (auto simp: replies_def server_simps)
    have small: "length (snd p) + 4 \<le> MODBUS_BUFFER_SIZE api" "length (snd p) + 4 \<le> TX_BUF_SIZE" using p size by simp_all
    obtain z where z: "modbus_raw_tx_cb api (Some a) y1 = Some (0, z)" "sys_ok api line left kv z"
        "reg_abs kv z = reg_abs kv y1" "ln_sent (line (sy_w z)) = ln_sent (line (sy_w y1)) @ [(rtu_frame api 1 p, True)]"
      using reply_sent [OF ok1 codec tx a(1) small] .
    then show ?thesis using a(2) by (intro exI [of _ z]) simp
  qed
  show ?thesis
  proof (cases q)
    case (Read_holding a)
    obtain r x y1 where cb: "cb_holding_reg_rd (mp_user_cb (server_param api)) a y = (r, x, y1)"
      by (cases "cb_holding_reg_rd (mp_user_cb (server_param api)) a y")
    then have step: "mb_step api y (Ev_holding_rd a r x) y1" by simp
    have "replies serve (server_param api) b y y1 (read_pdu r x)"
      using modbus_serverD(1) [OF srv addr, of b] b unit Read_holding cb by simp
    from out [OF this service.step_inv [OF ok step] short(1)] obtain z where
      z: "serve (server_param api) b y = Some z" "sys_ok api line left kv z" "reg_abs kv z = reg_abs kv y1"
        "ln_sent (line (sy_w z)) = ln_sent (line (sy_w y1)) @ [(rtu_frame api 1 (read_pdu r x), True)]" by blast
    have reg: "reg_abs kv y1 = reg_abs kv y" "bank_read (rf_holding (reg_abs kv y)) 4 a r x"
      using service.step_sim [OF ok step] by simp_all
    then have "holding_answer (rf_holding (reg_abs kv y)) q (read_pdu r x) (rf_holding (reg_abs kv z))"
      using Read_holding z(3) by (auto simp: bank_read_def read_pdu_def split: if_splits option.splits)
    moreover have "line (sy_w y1) = line (sy_w y)" using holding_cb_line [OF ok] cb by blast
    ultimately show ?thesis using z by (intro exI [of _ z] exI [of _ "read_pdu r x"]) simp
  next
    case (Write_holding a v)
    obtain r y1 where cb: "cb_holding_reg_wr (mp_user_cb (server_param api)) a v y = (r, y1)"
      by (cases "cb_holding_reg_wr (mp_user_cb (server_param api)) a v y")
    then have step: "mb_step api y (Ev_holding_wr a v r) y1" by simp
    have "replies serve (server_param api) b y y1 (write_pdu a v r)"
      using modbus_serverD(2) [OF srv addr, of b] b unit Write_holding cb by simp
    from out [OF this service.step_inv [OF ok step] short(2)] obtain z where
      z: "serve (server_param api) b y = Some z" "sys_ok api line left kv z" "reg_abs kv z = reg_abs kv y1"
        "ln_sent (line (sy_w z)) = ln_sent (line (sy_w y1)) @ [(rtu_frame api 1 (write_pdu a v r), True)]" by blast
    obtain h where "reg_abs kv y1 = (reg_abs kv y)\<lparr>rf_holding := h\<rparr>" "bank_write (rf_holding (reg_abs kv y)) 4 a v r h"
      using service.step_sim [OF ok step] by auto
    then have "holding_answer (rf_holding (reg_abs kv y)) q (write_pdu a v r) (rf_holding (reg_abs kv z))"
      using Write_holding z(3) by (auto simp: bank_write_def write_pdu_def split: if_splits)
    moreover have "line (sy_w y1) = line (sy_w y)" using holding_cb_line [OF ok] cb by blast
    ultimately show ?thesis using z by (intro exI [of _ z] exI [of _ "write_pdu a v r"]) simp
  qed
qed

section \<open>Property\<close>

text \<open>
  C10. A client on the bus gets its answer: when the frame of a request to read or write one
  holding register is complete in the receive ring and the line is silent, three rounds of
  the main loop hand it to the server, and serving it puts exactly one frame on the bus, sent
  with DE high, with a matching CRC: the stored value of a readable register, the echo of a
  write after which the register holds the value and no other has changed, or exception 2;
  a failed write can have changed its own register only. Afterwards the bus is released.
\<close>

theorem modbus_request_answered:
  assumes plat: "delivery_ok api line left now inbox" and ok: "sys_ok api line left kv y"
    and codec: "codec_ok api" and tx: "tx_reliable (mb_rs api) line rem"
    and size: "8 \<le> MODBUS_BUFFER_SIZE api" and srv: "modbus_server serve (server_param api)"
    and addr: "unat (req_addr q) < 5000" and rcv: "receiving api line left now (rtu_frame api 1 (req_pdu q)) y"
    and time: "\<And>z. ats_loop api 3 y = Some z \<Longrightarrow> now (sy_w z) < 2 ^ 63"
  shows "\<exists>z b y' p. ats_loop api 3 y = Some z \<and> inbox (sy_w z) = inbox (sy_w y) @ [b] \<and>
    serve (server_param api) b z = Some y' \<and>
    holding_answer (rf_holding (reg_abs kv y)) q p (rf_holding (reg_abs kv y')) \<and>
    ln_sent (line (sy_w y')) = ln_sent (line (sy_w y)) @ [(rtu_frame api 1 p, True)] \<and>
    \<not> ln_de (line (sy_w y'))"
proof -
  obtain z where run: "ats_loop api 3 y = Some z" using ats_loop_total [OF sys_okD(1,2) [OF ok]] by blast
  have pdu: "length (snd (req_pdu q)) = 4" by (cases q) simp_all
  obtain b where b: "inbox (sy_w z) = inbox (sy_w y) @ [b]" "adu_carries b 1 (req_pdu q)"
    using mb_request_delivered [OF plat codec _ _ rcv run time [OF run]] pdu size by auto
  have okz: "sys_ok api line left kv z" using loop_sys_ok [OF ok run] .
  from served [OF okz codec tx size srv b(2) addr] obtain y' p where
    s: "serve (server_param api) b z = Some y'" "sys_ok api line left kv y'"
      "holding_answer (rf_holding (reg_abs kv z)) q p (rf_holding (reg_abs kv y'))"
      "ln_sent (line (sy_w y')) = ln_sent (line (sy_w z)) @ [(rtu_frame api 1 p, True)]" by blast
  then show ?thesis
    using run b(1) loop_quiet [OF ok run] sys_okD(6) [OF s(2)]
    by (intro exI [of _ z] exI [of _ b] exI [of _ y'] exI [of _ p]) simp
qed

section \<open>Witness\<close>

text \<open>A server that decodes the two requests and answers them.\<close>

definition of_be16 :: "u8 list \<Rightarrow> u16" where
  "of_be16 bs = of_le16_bytes (rev bs)"

lemma of_be16_be16 [simp]: "of_be16 (be16 v) = v"
  by (simp add: of_be16_def be16_def)

definition sim_serve :: "'w modbus_iface_param \<Rightarrow> modbus_adu \<Rightarrow> 'w mb_sys \<Rightarrow> 'w mb_sys option" where
  "sim_serve p b y =
     (let a = of_be16 (take 2 (adu_data b)); v = of_be16 (take 2 (drop 2 (adu_data b)));
          (r, y1) =
            (if adu_fc b = 3 then
               (case cb_holding_reg_rd (mp_user_cb p) a y of (r, x, y1) \<Rightarrow> (read_pdu r x, y1))
             else (case cb_holding_reg_wr (mp_user_cb p) a v y of (r, y1) \<Rightarrow> (write_pdu a v r, y1)))
      in map_option snd (mp_raw_tx_cb p (Some (req_adu (mp_unit_id p) r)) y1))"

lemma sim_serve_data:
  assumes "take 4 d = be16 a @ be16 v"
  shows "of_be16 (take 2 d) = a" and "of_be16 (take 2 (drop 2 d)) = v"
proof -
  have "take 2 d = take 2 (take 4 d)" "take 2 (drop 2 d) = drop 2 (take 4 d)"
    by (simp_all add: min_def drop_take)
  then show "of_be16 (take 2 d) = a" and "of_be16 (take 2 (drop 2 d)) = v" unfolding assms by simp_all
qed

lemma sim_serve_ok: "modbus_server sim_serve p"
proof -
  have short: "length (snd (read_pdu r x)) < 2 ^ 16" "length (snd (write_pdu a v r)) < 2 ^ 16" for r x a v
    by (simp_all add: read_pdu_def write_pdu_def)
  show ?thesis
    unfolding modbus_server_def replies_def
  proof (intro conjI allI impI)
    fix b a y r x y1
    assume b: "adu_carries b (mp_unit_id p) (req_pdu (Read_holding a))"
      and cb: "cb_holding_reg_rd (mp_user_cb p) a y = (r, x, y1)"
    have "take 4 (adu_data b) = be16 a @ be16 1" "adu_fc b = 3" using b by (simp_all add: adu_carries_def)
    then have "sim_serve p b y = map_option snd (mp_raw_tx_cb p (Some (req_adu (mp_unit_id p) (read_pdu r x))) y1)"
      using cb by (simp add: sim_serve_def sim_serve_data)
    then show "\<exists>ad. adu_carries ad (mp_unit_id p) (read_pdu r x) \<and>
        sim_serve p b y = map_option snd (mp_raw_tx_cb p (Some ad) y1)"
      using req_adu_carries [OF short(1)] by blast
  next
    fix b a v y r y1
    assume b: "adu_carries b (mp_unit_id p) (req_pdu (Write_holding a v))"
      and cb: "cb_holding_reg_wr (mp_user_cb p) a v y = (r, y1)"
    have "take 4 (adu_data b) = be16 a @ be16 v" "adu_fc b = 6" using b by (simp_all add: adu_carries_def)
    then have "sim_serve p b y = map_option snd (mp_raw_tx_cb p (Some (req_adu (mp_unit_id p) (write_pdu a v r))) y1)"
      using cb by (simp add: sim_serve_def sim_serve_data)
    then show "\<exists>ad. adu_carries ad (mp_unit_id p) (write_pdu a v r) \<and>
        sim_serve p b y = map_option snd (mp_raw_tx_cb p (Some ad) y1)"
      using req_adu_carries [OF short(2)] by blast
  qed
qed

text \<open>A client reads register 2, which holds 0xBEEF.\<close>

definition sim_exch :: "mb_sim mb_sys" where
  "sim_exch = sim_y\<lparr>sy_db := \<lparr>g_db_ready = True\<rparr>,
     sy_w := (fst (sim_mw (rtu_frame sim_mb 1 (req_pdu (Read_holding 2)))), [(''hr2'', le16_bytes 0xBEEF)], [])\<rparr>"

theorem modbus_request_answered_witness:
  "\<exists>z b y'. ats_loop sim_mb 3 sim_exch = Some z \<and> sim_inbox (sy_w z) = [b] \<and>
    sim_serve (server_param sim_mb) b z = Some y' \<and>
    ln_sent (sim_line (sy_w y')) = [(rtu_frame sim_mb 1 (3, [2, 0xBE, 0xEF]), True)]"
proof -
  have ok: "sys_ok sim_mb sim_line (sim_left \<circ> fst) sim_kv sim_exch"
    using sim_mb_ok sim_stack_ok sim_m_inv [of "[]"]
    by (simp add: sys_ok_def sim_exch_def sim_y_def sim_mw_def sim_rx_def sim_up_def idle_line_def)
  have rcv: "receiving sim_mb sim_line (sim_left \<circ> fst) (int \<circ> sm_ms \<circ> fst)
      (rtu_frame sim_mb 1 (req_pdu (Read_holding 2))) sim_exch"
    using sim_m_inv [of "[]"] by (simp add: receiving_def sim_exch_def sim_y_def rx_past_def)
  have time: "(int \<circ> sm_ms \<circ> fst) (sy_w z) < 2 ^ 63" if "ats_loop sim_mb 3 sim_exch = Some z" for z
    using sim_loop_ms [OF that] by (simp add: sim_exch_def)
  have start: "sim_inbox (sy_w sim_exch) = []" "ln_sent (sim_line (sy_w sim_exch)) = []"
    by (simp_all add: sim_exch_def sim_mw_def sim_rx_def sim_up_def idle_line_def)
  have val: "rf_holding (reg_abs sim_kv sim_exch) 2 = Some 0xBEEF"
    by (simp add: reg_abs_def hr_point_def sim_exch_def g_holding_keys_def le16_bytes_def of_le16_bytes_def)
  have "be16 0xBEEF = [0xBE, 0xEF]" by (simp add: be16_def le16_bytes_def)
  have size: "8 \<le> MODBUS_BUFFER_SIZE sim_mb" and addr: "unat (req_addr (Read_holding 2)) < 5000"
    by (simp_all add: sim_mb_def)
  obtain z b y' p where "ats_loop sim_mb 3 sim_exch = Some z" "sim_inbox (sy_w z) = sim_inbox (sy_w sim_exch) @ [b]"
    "sim_serve (server_param sim_mb) b z = Some y'"
    "holding_answer (rf_holding (reg_abs sim_kv sim_exch)) (Read_holding 2) p (rf_holding (reg_abs sim_kv y'))"
    "ln_sent (sim_line (sy_w y')) = ln_sent (sim_line (sy_w sim_exch)) @ [(rtu_frame sim_mb 1 p, True)]"
    using modbus_request_answered [OF sim_delivery ok sim_mb_ok(4) sim_mb_reliable size sim_serve_ok addr rcv time]
    by blast
  then show ?thesis using val start \<open>be16 0xBEEF = _\<close> by auto
qed

end
