(* ===== verification/ModbusInterleaved.thy ===== *)
theory ModbusInterleaved
  imports ModbusThreads
begin

text \<open>
  Properties of the running controller over every interleaving of the main thread, the
  server and the hardware: the invariant, the register file the clients see, reads after
  writes, and what is sent on the bus.
\<close>

section \<open>What is on its way to the bus\<close>

text \<open>The frame handed to \<^verbatim>\<open>rs485_write\<close> whose transmission has not ended.\<close>

fun outgoing :: "write_pc \<Rightarrow> rs_state \<Rightarrow> rs_line \<Rightarrow> u8 list list" where
  "outgoing (W_copied n) s l = [take (unat n) (tx_buf s)]"
| "outgoing (W_driving n) s l = [take (unat n) (tx_buf s)]"
| "outgoing W_waiting s l = (case ln_tx l of None \<Rightarrow> [] | Some f \<Rightarrow> [f])"
| "outgoing _ s l = []"

fun answer_frames :: "'w mb_api \<Rightarrow> sys_label \<Rightarrow> u8 list list" where
  "answer_frames api (T_send a) = [mb_frame api a]"
| "answer_frames api _ = []"

text \<open>A step completes frames \<open>fs\<close> with DE high; what goes out was on its way or is an answer.\<close>

definition sends ::
  "('w \<Rightarrow> rs_line) \<Rightarrow> write_pc \<times> rs_state \<times> 'w \<Rightarrow> u8 list list \<Rightarrow> write_pc \<times> rs_state \<times> 'w \<Rightarrow> bool" where
  "sends line c as d = (case c of (p, s, w) \<Rightarrow> case d of (p', s', w') \<Rightarrow>
     \<exists>fs. ln_sent (line w') = ln_sent (line w) @ map (\<lambda>f. (f, True)) fs \<and>
       subseq (fs @ outgoing p' s' (line w')) (outgoing p s (line w) @ as))"

lemma sendsI:
  assumes "ln_sent (line w') = ln_sent (line w) @ map (\<lambda>f. (f, True)) fs"
    and "subseq (fs @ outgoing p' s' (line w')) (outgoing p s (line w) @ as)"
  shows "sends line (p, s, w) as (p', s', w')"
  using assms by (auto simp: sends_def)

lemma sends_none:
  assumes "ln_sent (line w') = ln_sent (line w)"
    and "subseq (outgoing p' s' (line w')) (outgoing p s (line w) @ as)"
  shows "sends line (p, s, w) as (p', s', w')"
  by (rule sendsI [where fs = "[]"]) (use assms in simp_all)

lemma sends_trans:
  assumes "sends line c as d" and "sends line d bs e"
  shows "sends line c (as @ bs) e"
proof -
  obtain p s w p1 s1 w1 p2 s2 w2 where c: "c = (p, s, w)" "d = (p1, s1, w1)" "e = (p2, s2, w2)"
    by (metis prod_cases3)
  obtain fs gs where f: "ln_sent (line w1) = ln_sent (line w) @ map (\<lambda>f. (f, True)) fs"
      "subseq (fs @ outgoing p1 s1 (line w1)) (outgoing p s (line w) @ as)"
    and g: "ln_sent (line w2) = ln_sent (line w1) @ map (\<lambda>f. (f, True)) gs"
      "subseq (gs @ outgoing p2 s2 (line w2)) (outgoing p1 s1 (line w1) @ bs)"
    using assms c by (auto simp: sends_def)
  have "subseq (fs @ gs @ outgoing p2 s2 (line w2)) (fs @ outgoing p1 s1 (line w1) @ bs)"
    using g(2) by (simp only: subseq_append')
  moreover have "subseq ((fs @ outgoing p1 s1 (line w1)) @ bs) ((outgoing p s (line w) @ as) @ bs)"
    using f(2) by (simp only: subseq_append)
  ultimately have "subseq ((fs @ gs) @ outgoing p2 s2 (line w2)) (outgoing p s (line w) @ as @ bs)"
    using subseq_order.order_trans by fastforce
  then show ?thesis unfolding c by (intro sendsI [where fs = "fs @ gs"]) (simp_all add: f(1) g(1))
qed

lemma writer_sends:
  assumes ok: "rs_ok api line" and inv: "bus_inv p (line w)" and "rs_lstep api (p, s, w) L_writer (p', s', w')"
    and "\<forall>r. p \<noteq> W_idle r"
  shows "sends line (p, s, w) [] (p', s', w')"
  using assms(3)
proof (cases rule: rs_lstep.cases)
  case (W_start len)
  then show ?thesis using rs_ok_calls(4) [OF ok, of "tx_buf s" len w 0 w'] by (intro sends_none) simp_all
next
  case (W_refused len r)
  then show ?thesis using rs_ok_calls(4) [OF ok, of "tx_buf s" len w r w'] by (intro sends_none) simp_all
next
  case W_blocked
  then show ?thesis using rs_ok_calls(1) [OF ok, of w False w'] by (intro sends_none) simp_all
next
  case W_wake
  then show ?thesis using rs_ok_calls(1) [OF ok, of w True w'] inv by (intro sends_none) auto
qed (use assms(4) in \<open>auto intro!: sends_none simp: rs_ok_pure [OF ok]\<close>)

lemma same_tx_outgoing:
  "same_tx l m \<Longrightarrow> tx_buf s' = tx_buf s \<Longrightarrow> outgoing p s' l = outgoing p s m \<and> ln_sent l = ln_sent m"
  by (cases p) (simp_all add: same_tx_def)

lemma hw_sends:
  assumes ok: "rs_ok api line" and inv: "bus_inv p (line w)" and step: "rs_lstep api (p, s, w) (L_hw ev) (p', s', w')"
  shows "sends line (p, s, w) [] (p', s', w')"
proof -
  obtain w1 where irq: "hw_irq api w = Some (ev, w1)" and cb: "on_hw api ev s w1 = (s', w')" and p: "p' = p"
    using step by (auto elim: rs_lstep.cases)
  note hw = rs_ok_calls(8) [OF ok irq]
  show ?thesis
  proof (cases "ends_tx ev")
    case False
    have "same_tx (line w') (line w)"
      using irq_line_rx [OF False, of "line w"] on_hw_rx [OF ok False cb] hw by (simp add: same_tx_def)
    moreover have "tx_buf s' = tx_buf s" using on_hw_rx [OF ok False cb] by simp
    ultimately show ?thesis using same_tx_outgoing p by (intro sends_none) auto
  next
    case True
    note l = on_hw_ends_tx [OF ok True cb]
    obtain f where f: "ln_tx (line w) = Some f" using hw True by (cases ev rule: ends_tx.cases) auto
    then have pw: "p = W_waiting" "ln_de (line w)" using inv by (cases p; auto)+
    show ?thesis
    proof (cases "ev = Uart_irq UART_TX_DONE")
      case True
      then show ?thesis using hw l f p pw by (intro sendsI [where fs = "[f]"]) simp_all
    next
      case False
      then have "ev = Uart_irq UART_TX_ABORTED" using \<open>ends_tx ev\<close> by (cases ev rule: ends_tx.cases) simp_all
      then show ?thesis using hw l f p pw by (intro sends_none) simp_all
    qed
  qed
qed

lemma outgoing_ring [simp]: "outgoing p s (l\<lparr>ln_ring := r\<rparr>) = outgoing p s l"
  by (cases p) simp_all

abbreviation adu_complete :: "sys_label \<Rightarrow> bool" where
  "adu_complete l \<equiv> \<forall>a. l = T_send a \<longrightarrow> unat (adu_length a) \<le> length (adu_data a)"

lemma thr_sends:
  assumes ok: "thr_ok api line kv (pc, p, y)" and codec: "codec_ok api"
    and step: "sys_step api (pc, p, y) l (pc', p', z)" and data: "adu_complete l"
  shows "sends line (p, sy_rs y, sy_w y) (answer_frames api l) (p', sy_rs z, sy_w z)"
proof (cases "main_label l")
  case True
  then show ?thesis using main_step [OF ok step True] by (intro sends_none) auto
next
  case False
  note t = thr_okD [OF ok]
  have still: "sends line (p, sy_rs y, sy_w y) [] (p, sy_rs y, w)" if "line w = line (sy_w y)" for w
    using that by (intro sends_none) simp_all
  show ?thesis
    using step
  proof (cases rule: sys_step.cases)
    case (S_call e r)
    have "length (input_reg (sy_mb y)) = 4" using t(4) by (simp add: mb_inv_def)
    from callback_regs [OF t(2,5) this S_call(6,5)] still show ?thesis using S_call by auto
  next
    case (S_tx_copy a rs r)
    have "unat (adu_length a) < 2 ^ 16"
      using unsigned_less [where ?'b = 16 and ?'a = nat and w = "adu_length a"] by simp
    then have "unat (frame_len a) = unat (adu_length a) + 4" by (intro unat_of_small) simp
    then have "length (mb_frame api a) = unat (frame_len a)"
      using mb_frame_intact [OF codec, of a] data S_tx_copy(2) by simp
    then have "take (unat (frame_len a)) (tx_buf rs) = mb_frame api a"
      using S_tx_copy(8) take_mem_write_0 [of "mb_frame api a"] by simp
    then show ?thesis using S_tx_copy(1-5) by (intro sends_none) simp_all
  next
    case (S_tx rs w)
    then show ?thesis using writer_sends [OF t(1,6) S_tx(5,4)] by simp
  next
    case (S_hw ev rs w)
    then show ?thesis using hw_sends [OF t(1,6) S_hw(4)] by simp
  qed (use still False in simp_all)
qed

lemma runs_sends:
  assumes codec: "codec_ok api" and "runs (sys_step api) c ls d" and "thr_ok api line kv c"
    and "\<forall>l \<in> set ls. adu_complete l"
  shows "sends line (serial_part c) (concat (map (answer_frames api) ls)) (serial_part d)"
  using assms(2-)
proof (induction rule: runs.induct)
  case (runs_Nil c)
  show ?case by (cases c) (auto simp: serial_part_def intro: sends_none)
next
  case (runs_Cons c l d ls e)
  obtain pc p y pc' p' z where c: "c = (pc, p, y)" "d = (pc', p', z)" by (metis prod_cases3)
  have data: "adu_complete l" "\<forall>l \<in> set ls. adu_complete l" using runs_Cons.prems(2) by simp_all
  have head: "sends line (serial_part c) (answer_frames api l) (serial_part d)"
    using thr_sends [OF runs_Cons.prems(1) [unfolded c] codec runs_Cons.hyps(1) [unfolded c] data(1)]
    by (simp add: serial_part_def c)
  have "thr_ok api line kv d" using threads.step_inv [OF runs_Cons.prems(1) runs_Cons.hyps(1)] .
  from sends_trans [OF head runs_Cons.IH [OF this data(2)]] show ?case by simp
qed

section \<open>Properties\<close>

lemma init_thr_ok:
  assumes "rs_ok (mb_rs api) line" and "stack_ok api line kv" and "init_keeps_line api line"
    and "ln_tx (line (sy_w y0)) = None" and "mb_inv api (sy_mb y0)" and "modbus_service_init api y0 = (0, y)"
  shows "thr_ok api line kv (M_top, W_idle q, y)"
  using modbus_init_ready [OF assms(1,3-6)] assms(1,2) by (simp add: thr_ok_def)

text \<open>
  C2. From a successful initialisation on, in every interleaving of the main thread, the
  server and the hardware: the frame buffer, the local buffer of the poll and the input
  registers keep their bounds, the point database stays ready, and DE is high while a frame
  is on the bus, which is only while the server waits in \<^verbatim>\<open>rs485_write\<close> for its end; outside
  of that function the bus is released and no completion is pending.
\<close>

theorem modbus_threads_invariant:
  assumes "rs_ok (mb_rs api) line" and "stack_ok api line kv" and "init_keeps_line api line"
    and "ln_tx (line (sy_w y0)) = None" and "mb_inv api (sy_mb y0)" and "modbus_service_init api y0 = (0, y)"
    and "runs (sys_step api) (M_top, W_idle q, y) ls (pc, p, z)"
  shows "mb_inv api (sy_mb z) \<and> main_ok pc \<and> g_db_ready (sy_db z) \<and>
    (ln_tx (line (sy_w z)) \<noteq> None \<longrightarrow> p = W_waiting \<and> ln_de (line (sy_w z))) \<and>
    (\<forall>r. p = W_idle r \<longrightarrow> \<not> ln_de (line (sy_w z)) \<and> ln_sem (line (sy_w z)) = 0)"
proof -
  have "thr_ok api line kv (pc, p, z)" by (rule threads.runs_inv [OF assms(7) init_thr_ok [OF assms(1-6)]])
  from thr_okD [OF this] show ?thesis by (cases p) auto
qed

text \<open>
  C1. To its clients the running service is a register file: in every interleaving of the
  main thread, the server and the hardware, the calls of the server, with the results they
  returned, are those of four holding registers, two coils and the input registers, in
  which reads return the stored value, a successful write sets its own register only and a
  failed write can affect only its own; nothing else changes a register but a heartbeat of
  the main thread, which advances the first input register by one.
\<close>

theorem modbus_threads_refine_register_file:
  assumes "rs_ok (mb_rs api) line" and "stack_ok api line kv" and "init_keeps_line api line"
    and "ln_tx (line (sy_w y0)) = None" and "mb_inv api (sy_mb y0)" and "modbus_service_init api y0 = (0, y)"
    and "runs (sys_step api) (M_top, W_idle q, y) ls (pc, p, z)"
  shows "runs reg_lstep (reg_abs kv y) ls (reg_abs kv z)"
  using threads.runs_sim [OF assms(7) init_thr_ok [OF assms(1-6)]] by (simp add: conf_regs_def)

lemma reg_lstep_holding:
  assumes "reg_lstep f l g" and "\<And>v r. l \<noteq> T_call (Ev_holding_wr a v r)"
  shows "rf_holding g (unat a) = rf_holding f (unat a)"
proof (cases l)
  case (T_call e)
  then show ?thesis using assms reg_step_holding [of f e g a] by simp
qed (use assms(1) in simp_all)

lemma reg_lstep_coil:
  assumes "reg_lstep f l g" and "\<And>v r. l \<noteq> T_call (Ev_coil_wr a v r)"
  shows "rf_coil g (unat a) = rf_coil f (unat a)"
proof (cases l)
  case (T_call e)
  then show ?thesis using assms reg_step_coil [of f e g a] by simp
qed (use assms(1) in simp_all)

text \<open>What the register file has at an address stays there while no call writes it.\<close>

lemma holding_kept:
  assumes ok: "thr_ok api line kv c" and run: "runs (sys_step api) c ls d"
    and none: "\<And>v r. T_call (Ev_holding_wr a v r) \<notin> set ls"
  shows "rf_holding (conf_regs kv d) (unat a) = rf_holding (conf_regs kv c) (unat a)"
proof (rule runs_keep [OF threads.runs_sim [OF run ok]])
  fix f l g assume f: "rf_holding f (unat a) = rf_holding (conf_regs kv c) (unat a)" "l \<in> set ls" "reg_lstep f l g"
  then show "rf_holding g (unat a) = rf_holding (conf_regs kv c) (unat a)"
    using reg_lstep_holding [of f l g a] none by metis
qed simp

lemma coil_kept:
  assumes ok: "thr_ok api line kv c" and run: "runs (sys_step api) c ls d"
    and none: "\<And>v r. T_call (Ev_coil_wr a v r) \<notin> set ls"
  shows "rf_coil (conf_regs kv d) (unat a) = rf_coil (conf_regs kv c) (unat a)"
proof (rule runs_keep [OF threads.runs_sim [OF run ok]])
  fix f l g assume f: "rf_coil f (unat a) = rf_coil (conf_regs kv c) (unat a)" "l \<in> set ls" "reg_lstep f l g"
  then show "rf_coil g (unat a) = rf_coil (conf_regs kv c) (unat a)"
    using reg_lstep_coil [of f l g a] none by metis
qed simp

text \<open>
  C11. A client reads back what a client wrote: after a write of a holding register that
  returned 0, and any further steps of the main thread, the server and the hardware in which
  that register is not written, among them writes of the other registers and of the coils,
  reads, answers, received frames and heartbeats, a read of the register returns 0 and the
  value written; and likewise for a coil.
\<close>

theorem modbus_write_reads_back:
  assumes ok: "thr_ok api line kv c"
  shows "(sys_step api c (T_call (Ev_holding_wr a v 0)) c1 \<and> runs (sys_step api) c1 ls c2 \<and>
      (\<forall>u q. T_call (Ev_holding_wr a u q) \<notin> set ls) \<and> sys_step api c2 (T_call (Ev_holding_rd a r x)) c3 \<longrightarrow>
      r = 0 \<and> x = Some v) \<and>
    (sys_step api c (T_call (Ev_coil_wr a b 0)) c1 \<and> runs (sys_step api) c1 ls c2 \<and>
      (\<forall>u q. T_call (Ev_coil_wr a u q) \<notin> set ls) \<and> sys_step api c2 (T_call (Ev_coil_rd a r y)) c3 \<longrightarrow>
      r = 0 \<and> y = Some b)"
proof (intro conjI impI)
  assume "sys_step api c (T_call (Ev_holding_wr a v 0)) c1 \<and> runs (sys_step api) c1 ls c2 \<and>
    (\<forall>u q. T_call (Ev_holding_wr a u q) \<notin> set ls) \<and> sys_step api c2 (T_call (Ev_holding_rd a r x)) c3"
  then have wr: "sys_step api c (T_call (Ev_holding_wr a v 0)) c1" and run: "runs (sys_step api) c1 ls c2"
    and none: "\<And>u q. T_call (Ev_holding_wr a u q) \<notin> set ls"
    and rd: "sys_step api c2 (T_call (Ev_holding_rd a r x)) c3" by blast+
  note ok1 = threads.step_inv [OF ok wr]
  have 1: "unat a < 4" "rf_holding (conf_regs kv c1) (unat a) = Some v"
    using threads.step_sim [OF ok wr] by (auto simp: bank_write_def split: if_splits)
  then have "rf_holding (conf_regs kv c2) (unat a) = Some v" using holding_kept [OF ok1 run none] by simp
  then show "r = 0" "x = Some v"
    using threads.step_sim [OF threads.runs_inv [OF run ok1] rd] 1(1) by (simp_all add: bank_read_def)
next
  assume "sys_step api c (T_call (Ev_coil_wr a b 0)) c1 \<and> runs (sys_step api) c1 ls c2 \<and>
    (\<forall>u q. T_call (Ev_coil_wr a u q) \<notin> set ls) \<and> sys_step api c2 (T_call (Ev_coil_rd a r y)) c3"
  then have wr: "sys_step api c (T_call (Ev_coil_wr a b 0)) c1" and run: "runs (sys_step api) c1 ls c2"
    and none: "\<And>u q. T_call (Ev_coil_wr a u q) \<notin> set ls"
    and rd: "sys_step api c2 (T_call (Ev_coil_rd a r y)) c3" by blast+
  note ok1 = threads.step_inv [OF ok wr]
  have 1: "unat a < 2" "rf_coil (conf_regs kv c1) (unat a) = Some b"
    using threads.step_sim [OF ok wr] by (auto simp: bank_write_def split: if_splits)
  then have "rf_coil (conf_regs kv c2) (unat a) = Some b" using coil_kept [OF ok1 run none] by simp
  then show "r = 0" "y = Some b"
    using threads.step_sim [OF threads.runs_inv [OF run ok1] rd] 1(1) by (simp_all add: bank_read_def)
qed

text \<open>
  C6. The bus carries answers only: in every interleaving, the frames that were sent
  completely are, in order, among the frames of the ADUs the server passed to the response
  callback, each whole and unchanged, sent once and with DE high to its end.
\<close>

theorem modbus_bus_carries_answers:
  assumes "thr_ok api line kv (pc, W_idle q, y)" and "codec_ok api"
    and "runs (sys_step api) (pc, W_idle q, y) ls (pc', p, z)"
    and "\<forall>a. T_send a \<in> set ls \<longrightarrow> unat (adu_length a) \<le> length (adu_data a)"
  shows "\<exists>fs. ln_sent (line (sy_w z)) = ln_sent (line (sy_w y)) @ map (\<lambda>f. (f, True)) fs \<and>
    subseq fs (concat (map (answer_frames api) ls))"
proof -
  have "\<forall>l \<in> set ls. adu_complete l" using assms(4) by blast
  from runs_sends [OF assms(2,3,1) this] obtain fs where
    fs: "ln_sent (line (sy_w z)) = ln_sent (line (sy_w y)) @ map (\<lambda>f. (f, True)) fs"
      "subseq (fs @ outgoing p (sy_rs z) (line (sy_w z))) (concat (map (answer_frames api) ls))"
    by (auto simp: sends_def serial_part_def)
  moreover have "subseq fs (fs @ outgoing p (sy_rs z) (line (sy_w z)))" by (rule subseq_rev_drop_many) simp
  ultimately show ?thesis using subseq_order.order_trans by blast
qed

section \<open>Witnesses\<close>

lemmas sim_threads = sim_mb_ok(1) sim_stack_ok sim_init_keeps sim_y_ready

lemma sim_time_step: "\<exists>now w. sys_step sim_mb (M_top, p, y) T_main (M_poll now, p, y\<lparr>sy_w := w\<rparr>)"
proof -
  obtain now w where "k_uptime_get (mb_rs sim_mb) (sy_w y) = (now, w)" by (cases "k_uptime_get (mb_rs sim_mb) (sy_w y)")
  then show ?thesis using S_time [of sim_mb y now w p] by blast
qed

text \<open>A client writes a register while the main thread is in the middle of a round.\<close>

lemma sim_interleaved:
  obtains y now u z where "modbus_service_init sim_mb sim_y = (0, y)"
    and "sys_step sim_mb (M_top, W_idle 0, y) T_main (M_poll now, W_idle 0, u)"
    and "sys_step sim_mb (M_poll now, W_idle 0, u) (T_call (Ev_holding_wr 2 0xBEEF 0)) (M_poll now, W_idle 0, z)"
proof -
  obtain y where y: "modbus_service_init sim_mb sim_y = (0, y)" using sim_service_init by blast
  obtain now w where s: "sys_step sim_mb (M_top, W_idle 0, y) T_main (M_poll now, W_idle 0, y\<lparr>sy_w := w\<rparr>)"
    using sim_time_step by blast
  have "g_db_ready (sy_db (y\<lparr>sy_w := w\<rparr>))" using sim_kv_init [OF y] by simp
  from sim_write [OF this] obtain z where "mb_step sim_mb (y\<lparr>sy_w := w\<rparr>) (Ev_holding_wr 2 0xBEEF 0) z" by blast
  from that [OF y s S_call [OF _ this]] show thesis by simp
qed

theorem modbus_threads_invariant_witness:
  "\<exists>y ls now z. modbus_service_init sim_mb sim_y = (0, y) \<and>
    runs (sys_step sim_mb) (M_top, W_idle 0, y) ls (M_poll now, W_idle 0, z) \<and>
    T_call (Ev_holding_wr 2 0xBEEF 0) \<in> set ls \<and> \<not> ln_de (sim_line (sy_w z))"
proof -
  obtain y now u z where init: "modbus_service_init sim_mb sim_y = (0, y)"
    and s: "sys_step sim_mb (M_top, W_idle 0, y) T_main (M_poll now, W_idle 0, u)"
      "sys_step sim_mb (M_poll now, W_idle 0, u) (T_call (Ev_holding_wr 2 0xBEEF 0)) (M_poll now, W_idle 0, z)"
    by (rule sim_interleaved)
  note run = runs_two [where step = "sys_step sim_mb", OF s]
  have "\<not> ln_de (sim_line (sy_w z))" using modbus_threads_invariant [OF sim_threads init run] by blast
  then show ?thesis using init run by fastforce
qed

theorem modbus_threads_refine_register_file_witness:
  "\<exists>y ls now z. runs (sys_step sim_mb) (M_top, W_idle 0, y) ls (M_poll now, W_idle 0, z) \<and>
    runs reg_lstep (reg_abs sim_kv y) ls (reg_abs sim_kv z) \<and> rf_holding (reg_abs sim_kv z) 2 = Some 0xBEEF"
proof -
  obtain y now u z where init: "modbus_service_init sim_mb sim_y = (0, y)"
    and s: "sys_step sim_mb (M_top, W_idle 0, y) T_main (M_poll now, W_idle 0, u)"
      "sys_step sim_mb (M_poll now, W_idle 0, u) (T_call (Ev_holding_wr 2 0xBEEF 0)) (M_poll now, W_idle 0, z)"
    by (rule sim_interleaved)
  note run = runs_two [where step = "sys_step sim_mb", OF s]
  have ref: "runs reg_lstep (reg_abs sim_kv y) [T_main, T_call (Ev_holding_wr 2 0xBEEF 0)] (reg_abs sim_kv z)"
    by (rule modbus_threads_refine_register_file [OF sim_threads init run])
  then have "rf_holding (reg_abs sim_kv z) 2 = Some 0xBEEF" by (auto simp: runs_Cons_iff bank_write_def)
  then show ?thesis using run ref by blast
qed

theorem modbus_write_reads_back_witness:
  "\<exists>(u :: mb_sim mb_sys) now z c2 c3. sys_step sim_mb (M_poll now, W_idle 0, u)
      (T_call (Ev_holding_wr 2 0xBEEF 0)) (M_poll now, W_idle 0, z) \<and>
    runs (sys_step sim_mb) (M_poll now, W_idle 0, z) [T_main] c2 \<and>
    sys_step sim_mb c2 (T_call (Ev_holding_rd 2 0 (Some 0xBEEF))) c3"
proof -
  obtain y now u z where init: "modbus_service_init sim_mb sim_y = (0, y)"
    and s: "sys_step sim_mb (M_top, W_idle 0, y) T_main (M_poll now, W_idle 0, u)"
      "sys_step sim_mb (M_poll now, W_idle 0, u) (T_call (Ev_holding_wr 2 0xBEEF 0)) (M_poll now, W_idle 0, z)"
    by (rule sim_interleaved)
  obtain t w where "k_uptime_get (mb_rs sim_mb) (sy_w z) = (t, w)" by (cases "k_uptime_get (mb_rs sim_mb) (sy_w z)")
  note poll = S_poll [OF this, of now "W_idle 0"]
  let ?c2 = "(M_read now (replicate (unat MB_POLL_BUF_LEN) 0) 0, W_idle 0, z\<lparr>sy_w := w\<rparr>)"
  have one: "runs (sys_step sim_mb) (M_poll now, W_idle 0, z) [T_main] ?c2"
    using poll by (simp only: runs_Cons_iff runs_Nil_iff) blast
  obtain r x v where "cb_holding_reg_rd (mp_user_cb (server_param sim_mb)) 2 (z\<lparr>sy_w := w\<rparr>) = (r, x, v)"
    by (cases "cb_holding_reg_rd (mp_user_cb (server_param sim_mb)) 2 (z\<lparr>sy_w := w\<rparr>)")
  then have "mb_step sim_mb (z\<lparr>sy_w := w\<rparr>) (Ev_holding_rd 2 r x) v" by simp
  from S_call [OF _ this] have rd: "sys_step sim_mb ?c2 (T_call (Ev_holding_rd 2 r x))
      (M_read now (replicate (unat MB_POLL_BUF_LEN) 0) 0, W_idle 0, v)" by simp
  have ok: "thr_ok sim_mb sim_line sim_kv (M_poll now, W_idle 0, u)"
    using threads.step_inv [OF init_thr_ok [OF sim_threads init] s(1)] .
  have "r = 0 \<and> x = Some 0xBEEF"
    using modbus_write_reads_back [OF ok, of 2 "0xBEEF" "(M_poll now, W_idle 0, z)" "[T_main]" ?c2 r x] s(2) one rd by simp
  then show ?thesis using s(2) one rd by blast
qed

theorem modbus_bus_carries_answers_witness:
  "\<exists>ls z. runs (sys_step sim_mb) (M_sleep, W_idle 0, sim_y\<lparr>sy_db := db_up\<rparr>) ls (M_sleep, W_idle 0, z) \<and>
    ln_sent (sim_line (sy_w z)) = [(mb_frame sim_mb sim_adu, True)] \<and>
    subseq [mb_frame sim_mb sim_adu] (concat (map (answer_frames sim_mb) ls))"
proof -
  let ?y = "sim_y\<lparr>sy_db := db_up\<rparr>" and ?f = "mb_frame sim_mb sim_adu"
  have size: "unat (adu_length sim_adu) \<le> MODBUS_BUFFER_SIZE sim_mb - 4" "frame_len sim_adu \<le> of_nat TX_BUF_SIZE"
    "unat (adu_length sim_adu) \<le> length (adu_data sim_adu)" "unat (frame_len sim_adu) = 6"
    by (simp_all add: sim_adu_def sim_mb_def)
  have ok: "thr_ok sim_mb sim_line sim_kv (M_sleep, W_idle 0, ?y)"
    using sim_mb_ok(1) sim_stack_ok sim_y_ready(2) sim_y_bus by (simp add: thr_ok_def)
  have len: "unat (frame_len sim_adu) \<le> length ?f" "unat (frame_len sim_adu) \<le> TX_BUF_SIZE"
    unfolding size(4) sim_frame(2) by simp_all
  have bus: "bus_inv (W_idle 0) (sim_line (sy_w ?y))" using sim_y_bus by simp
  obtain s' w' where wr: "rs485_write (mb_rs sim_mb) ?f (frame_len sim_adu) (sy_rs ?y) (sy_w ?y) = Some (0, s', w')"
    and sent: "ln_sent (sim_line w') = ln_sent (sim_line (sy_w ?y)) @ [(take (unat (frame_len sim_adu)) ?f, True)]"
    by (rule rs485_write_sends [OF sim_mb_ok(1) sim_mb_reliable bus len])
  obtain ls where run: "runs (sys_step sim_mb) (M_sleep, W_idle 0, ?y) ls (M_sleep, W_idle 0, ?y\<lparr>sy_rs := s', sy_w := w'\<rparr>)"
    and l: "\<forall>l \<in> set ls. send_label sim_adu l \<or> (\<exists>ev. l = T_hw ev)"
    using write_thread_run [OF size(1,2) wr, of M_sleep 0] unfolding thread_run_def by blast
  have "\<forall>a. T_send a \<in> set ls \<longrightarrow> unat (adu_length a) \<le> length (adu_data a)" using l size(3) by auto
  from modbus_bus_carries_answers [OF ok sim_mb_ok(4) run this] obtain fs where
    "ln_sent (sim_line w') = ln_sent (sim_line (sy_w ?y)) @ map (\<lambda>f. (f, True)) fs"
    "subseq fs (concat (map (answer_frames sim_mb) ls))" by auto
  moreover have "ln_sent (sim_line (sy_w ?y)) = []" by (simp add: sim_y_def sim_up_def idle_line_def)
  ultimately show ?thesis using run sent size(4) sim_frame(2)
    by (intro exI [of _ ls] exI [of _ "?y\<lparr>sy_rs := s', sy_w := w'\<rparr>"]) auto
qed

end
