(* ===== verification/ModbusProgress.thy ===== *)
theory ModbusProgress
  imports ModbusStream
begin

text \<open>
  A request on its way through the running controller: once its frame is complete, after
  three rounds of the main thread the server has it, whatever the server and the hardware do
  meanwhile. The rounds are counted by the steps of the main thread that end them
  (\<open>T_sleep\<close>), and the silence of the line is the absence of reports of received bytes.
\<close>

section \<open>A silent line\<close>

text \<open>Time does not go back in any step.\<close>

definition clock_forward :: "'w mb_api \<Rightarrow> ('w \<Rightarrow> int) \<Rightarrow> bool" where
  "clock_forward api now \<longleftrightarrow> clock_runs (mb_rs api) now \<and>
     (\<forall>pc p y l pc' p' z. sys_step api (pc, p, y) l (pc', p', z) \<longrightarrow> now (sy_w y) \<le> now (sy_w z))"

fun reports_bytes :: "sys_label \<Rightarrow> bool" where
  "reports_bytes (T_hw (Uart_irq (UART_RX_RDY b off len))) = True"
| "reports_bytes l = False"

lemma on_hw_silent:
  assumes ok: "rs_ok api line" and cb: "on_hw api ev s w = (s', w')" and "\<not> reports_bytes (T_hw ev)"
  shows "ln_ring (line w') = ln_ring (line w)"
  using cb assms(3)
  by (auto simp: on_hw_def uart_cb_def Let_def rs_ok_pure [OF ok] split: hw_event.splits uart_event.splits prod.splits
      if_splits dest!: rs_ok_calls(3) [OF ok])

section \<open>The server and the hardware do not interfere\<close>

lemma others_still:
  assumes ok: "thr_ok api line kv (pc, p, y)" and inbox: "inbox_apart api inbox"
    and step: "sys_step api (pc, p, y) l (pc', p', z)" and l: "\<not> main_label l" "\<not> reports_bytes l"
  shows "pc' = pc \<and> sy_mb z = sy_mb y \<and> inbox (sy_w z) = inbox (sy_w y) \<and>
    ln_ring (line (sy_w z)) = ln_ring (line (sy_w y))"
proof -
  note t = thr_okD [OF ok]
  have i: "rs_keeps (mb_rs api) inbox" "\<And>d n w. inbox (snd (uart_tx (mb_rs api) d n w)) = inbox w"
    "\<And>w. inbox (snd (k_sem_take (mb_rs api) w)) = inbox w"
    using inbox by (simp_all add: inbox_apart_def inbox_ok_def)
  show ?thesis
    using step
  proof (cases rule: sys_step.cases)
    case (S_call e r)
    have "length (input_reg (sy_mb y)) = 4" using t(4) by (simp add: mb_inv_def)
    from callback_regs [OF t(2,5) this S_call(6,5)] callback_inbox [OF inbox S_call(6,5)] show ?thesis
      using S_call(1-4) by auto
  next
    case (S_tx rs w)
    have "same_rx (rs, line w) (sy_rs y, line (sy_w y))" by (rule writer_same_rx [OF t(1) S_tx(5)]) simp
    then show ?thesis using S_tx(1-3) rs_lstep_keeps [OF i S_tx(5)] by (simp add: same_rx_def)
  next
    case (S_hw ev rs w)
    obtain w1 where irq: "hw_irq (mb_rs api) (sy_w y) = Some (ev, w1)" and cb: "on_hw (mb_rs api) ev (sy_rs y) w1 = (rs, w)"
      using S_hw(4) by (auto elim: rs_lstep.cases)
    have "ln_ring (line w) = ln_ring (line (sy_w y))"
      using on_hw_silent [OF t(1) cb] l(2) S_hw(1-3) rs_ok_calls(8) [OF t(1) irq] by simp
    then show ?thesis using S_hw(1-3) rs_lstep_keeps [OF i S_hw(4)] by simp
  qed (use l in simp_all)
qed

section \<open>The rounds of the main thread\<close>

text \<open>After the polling loop the ring is empty.\<close>

fun polled :: "main_pc \<Rightarrow> u8 list \<Rightarrow> bool" where
  "polled (M_got now tmp tot) r = (unat tot = 0 \<longrightarrow> r = [])"
| "polled (M_drained now) r = (r = [])"
| "polled (M_submit now) r = (r = [])"
| "polled (M_beat now) r = (r = [])"
| "polled M_sleep r = (r = [])"
| "polled _ r = True"

lemma main_polled:
  assumes ok: "thr_ok api line kv (pc, p, y)" and step: "sys_step api (pc, p, y) l (pc', p', z)"
    and l: "main_label l" and polled: "polled pc (ln_ring (line (sy_w y)))"
  shows "polled pc' (ln_ring (line (sy_w z))) \<and> (ln_ring (line (sy_w y)) = [] \<longrightarrow> ln_ring (line (sy_w z)) = [])"
proof -
  note t = thr_okD [OF ok]
  have up: "line w = line u" if "k_uptime_get (mb_rs api) u = (now, w)" for u now w
    using rs_ok_calls(7) [OF t(1) that] .
  show ?thesis
    using step
  proof (cases rule: sys_step.cases)
    case (S_get tot len d w now tmp)
    then show ?thesis using rs_ok_calls(6) [OF t(1) S_get(7)] by simp
  next
    case (S_empty tot d w now tmp)
    have "unat tot < 64" using S_empty(6) by (simp add: word_less_nat_alt)
    then have "ln_ring (line w) = []" using ring_get_word [OF t(1) S_empty(7,6)] by simp
    then show ?thesis using S_empty by simp
  next
    case (S_full tot now tmp)
    then show ?thesis by (auto simp: word_less_nat_alt)
  next
    case (S_store tot tmp m rs w now)
    then show ?thesis using absorb_keeps [OF t(1,2) S_store(7)] by simp
  next
    case (S_none tot now tmp)
    have s: "sint tot = int (unat tot)" by (rule sint_unat_small) (use t(3) S_none(1) in simp)
    have "unat tot = 0" using S_none(6) unfolding s by linarith
    then show ?thesis using S_none polled by simp
  next
    case (S_submit m w now)
    then show ?thesis using submit_keeps [OF t(2) S_submit(6)] polled by simp
  next
    case S_sleep
    then show ?thesis using rs_ok_pure(6) [OF t(1)] by simp
  qed (use l polled up in auto)
qed

lemma main_past:
  assumes ok: "thr_ok api line kv (pc, p, y)" and clk: "clock_forward api now"
    and step: "sys_step api (pc, p, y) l (pc', p', z)" and l: "main_label l" and past: "rx_past now (sy_mb y) (sy_w y)"
  shows "rx_past now (sy_mb z) (sy_w z) \<and>
    (in_flight pc = [] \<longrightarrow> mb_last_rx_ms (sy_mb z) = mb_last_rx_ms (sy_mb y))"
proof -
  note t = thr_okD [OF ok]
  have fwd: "now (sy_w y) \<le> now (sy_w z)" using clk step unfolding clock_forward_def by blast
  have same: ?thesis if "mb_last_rx_ms (sy_mb z) = mb_last_rx_ms (sy_mb y)"
    using that past fwd by (simp add: rx_past_def)
  show ?thesis
    using step
  proof (cases rule: sys_step.cases)
    case (S_store tot tmp m rs w tm)
    obtain u w1 where up: "k_uptime_get (mb_rs api) (sy_w y) = (u, w1)" by (cases "k_uptime_get (mb_rs api) (sy_w y)")
    have "clock_runs (mb_rs api) now" using clk by (simp add: clock_forward_def)
    note u = clockD(1) [OF this up]
    have "0 \<le> now (sy_w y)" using past by (simp add: rx_past_def)
    then have "rx_past now m w"
      using S_store(7) u past by (auto simp: mb_absorb_def up rx_past_def Let_def split: if_splits)
    moreover have "take (unat tot) tmp \<noteq> []"
    proof -
      have "tot \<noteq> 0" using S_store(6) by auto
      then have "unat tot \<noteq> 0" by (metis unat_0 word_unat_eq_iff)
      then show ?thesis using S_store(1) t(3) by auto
    qed
    ultimately show ?thesis using S_store(1,5) by simp
  next
    case (S_submit m w tm)
    then show ?thesis using submit_keeps [OF t(2) S_submit(6)] by (intro same) simp
  qed (use l past fwd in \<open>auto simp: rx_past_def\<close>)
qed

text \<open>
  The frame \<open>f\<close> is not with the server yet, after \<open>n\<close> rounds: it is held complete, from the
  first round on in the frame buffer, the last reception is at least \<open>n\<close> ms past, and in the
  third round it will not be left there.
\<close>

definition awaits ::
  "('w \<Rightarrow> rs_line) \<Rightarrow> ('w \<Rightarrow> modbus_adu list) \<Rightarrow> ('w \<Rightarrow> int) \<Rightarrow> modbus_adu list \<Rightarrow> u8 list \<Rightarrow> nat
     \<Rightarrow> 'w sys_conf \<Rightarrow> bool" where
  "awaits line inbox now box f n c \<longleftrightarrow> (case c of (pc, p, y) \<Rightarrow>
     held line c = f \<and> inbox (sy_w y) = box \<and> polled pc (ln_ring (line (sy_w y))) \<and>
     rx_past now (sy_mb y) (sy_w y) \<and> n \<le> 2 \<and> (n = 2 \<longrightarrow> (\<forall>t. pc \<noteq> M_beat t) \<and> pc \<noteq> M_sleep) \<and>
     (1 \<le> n \<longrightarrow> ln_ring (line (sy_w y)) = [] \<and> in_flight pc = [] \<and>
        sint (mb_last_rx_ms (sy_mb y)) + int n \<le> now (sy_w y)))"

definition arrived_once ::
  "('w \<Rightarrow> rs_line) \<Rightarrow> ('w \<Rightarrow> modbus_adu list) \<Rightarrow> modbus_adu list \<Rightarrow> u8 list \<Rightarrow> 'w sys_conf \<Rightarrow> bool" where
  "arrived_once line inbox box f c \<longleftrightarrow>
     held line c = [] \<and> (\<exists>b. server_inbox inbox c = box @ [b] \<and> adu_matches b f)"

lemma awaits_others:
  assumes ok: "thr_ok api line kv (pc, p, y)" and inbox: "inbox_apart api inbox" and clk: "clock_forward api now"
    and step: "sys_step api (pc, p, y) l (pc', p', z)" and l: "\<not> main_label l" "\<not> reports_bytes l"
  shows "awaits line inbox now box f n (pc, p, y) \<Longrightarrow> awaits line inbox now box f n (pc', p', z)"
    and "arrived_once line inbox box f (pc, p, y) \<Longrightarrow> arrived_once line inbox box f (pc', p', z)"
proof -
  note s = others_still [OF ok inbox step l]
  have fwd: "now (sy_w y) \<le> now (sy_w z)" using clk step unfolding clock_forward_def by blast
  show "awaits line inbox now box f n (pc, p, y) \<Longrightarrow> awaits line inbox now box f n (pc', p', z)"
    using s fwd by (auto simp: awaits_def held_def rx_past_def)
  show "arrived_once line inbox box f (pc, p, y) \<Longrightarrow> arrived_once line inbox box f (pc', p', z)"
    using s by (auto simp: arrived_once_def conf_simps)
qed

lemma submit_step:
  assumes ok: "thr_ok api line kv (M_submit t, p, y)" and inbox: "inbox_ok api inbox"
    and step: "sys_step api (M_submit t, p, y) l (pc', p', z)" and l: "main_label l"
    and ring: "ln_ring (line (sy_w y)) = []" and f: "rx_bytes (sy_mb y) = f"
  shows "held line (pc', p', z) = [] \<and>
    (if frame_intact api f then \<exists>b. inbox (sy_w z) = inbox (sy_w y) @ [b] \<and> adu_matches b f
     else inbox (sy_w z) = inbox (sy_w y))"
proof -
  note t = thr_okD [OF ok]
  obtain m w where sub: "modbus_submit_frame api (sy_mb y) (sy_w y) = (m, w)"
    and z: "in_flight pc' = []" "z = y\<lparr>sy_mb := m, sy_w := w\<rparr>"
    using step l by (auto elim!: sys_step.cases)
  show ?thesis
    using submit_inbox [OF inbox t(4) sub] submit_keeps [OF t(2) sub] z ring f
    by (auto simp: held_def rx_bytes_reset)
qed

lemma arrived_main:
  assumes ok: "thr_ok api line kv (pc, p, y)" and inbox: "inbox_ok api inbox"
    and step: "sys_step api (pc, p, y) l (pc', p', z)" and l: "main_label l"
    and arr: "arrived_once line inbox box f (pc, p, y)"
  shows "arrived_once line inbox box f (pc', p', z)"
proof (cases "\<exists>t. pc = M_submit t")
  case False
  then have pc: "\<And>t. pc \<noteq> M_submit t" by simp
  have "rs_keeps (mb_rs api) inbox" using inbox by (simp add: inbox_ok_def)
  from main_inbox [OF this step l pc] main_held [OF ok step l pc] arr show ?thesis
    by (auto simp: arrived_once_def server_inbox_def)
next
  case True
  then obtain t where pc: "pc = M_submit t" by blast
  have h: "ln_ring (line (sy_w y)) = []" "rx_bytes (sy_mb y) = []" using arr by (simp_all add: arrived_once_def held_def)
  have "\<not> frame_intact api []" by (simp add: frame_intact_def)
  then show ?thesis
    using submit_step [OF ok [unfolded pc] inbox step [unfolded pc] l h] arr by (simp add: arrived_once_def server_inbox_def)
qed

lemma main_flight:
  assumes ok: "thr_ok api line kv (pc, p, y)" and step: "sys_step api (pc, p, y) l (pc', p', z)"
    and "main_label l" and ring: "ln_ring (line (sy_w y)) = []" and "in_flight pc = []"
  shows "in_flight pc' = []"
  using step
proof (cases rule: sys_step.cases)
  case (S_get tot len d w now tmp)
  have "unat len = 0" using rs_ok_calls(6) [OF thr_okD(1) [OF ok] S_get(7)] ring by simp
  then show ?thesis using S_get(8) by (simp add: word_less_nat_alt)
qed (use assms(3,5) in auto)

text \<open>The third round does not leave the frame in the buffer.\<close>

lemma third_round:
  assumes ok: "thr_ok api line kv (M_drained t, p, y)" and clk: "clock_forward api now"
    and aw: "awaits line inbox now box f 2 (M_drained t, p, y)" and f: "frame_intact api f"
    and up: "k_uptime_get (mb_rs api) (sy_w y) = (u, w)" and time: "now w < 2 ^ 63"
  shows "4 \<le> mb_rx_len (sy_mb y) \<and> sint (u - mb_last_rx_ms (sy_mb y)) \<ge> MB_FRAME_GAP_MS"
proof -
  have "clock_runs (mb_rs api) now" using clk by (simp add: clock_forward_def)
  note c = clockD(1) [OF this up]
  have a: "rx_bytes (sy_mb y) = f" "0 \<le> sint (mb_last_rx_ms (sy_mb y))" "sint (mb_last_rx_ms (sy_mb y)) + 2 \<le> now (sy_w y)"
    using aw by (auto simp: awaits_def held_def rx_past_def)
  have "4 \<le> mb_rx_len (sy_mb y)"
    using f a(1) length_rx_bytes [OF thr_okD(4) [OF ok]] by (simp add: frame_intact_def)
  moreover have "2 \<le> sint (u - mb_last_rx_ms (sy_mb y))"
    using elapsed_word [of u "now (sy_w y)" "mb_last_rx_ms (sy_mb y)" 2] c a(2,3) time by simp
  ultimately show ?thesis by simp
qed

lemma awaits_late:
  assumes ok: "thr_ok api line kv (pc, p, y)" and clk: "clock_forward api now"
    and step: "sys_step api (pc, p, y) l (pc', p', z)" and l: "main_label l" "l \<noteq> T_sleep"
    and pc: "\<And>t. pc \<noteq> M_submit t" and f: "frame_intact api f" and time: "now (sy_w z) < 2 ^ 63"
    and aw: "awaits line inbox now box f 2 (pc, p, y)"
  shows "(\<forall>t. pc' \<noteq> M_beat t) \<and> pc' \<noteq> M_sleep"
  using step
proof (cases rule: sys_step.cases)
  case (S_wait u w t)
  have "now w < 2 ^ 63" using time S_wait(5) by simp
  from third_round [OF ok [unfolded S_wait(1)] clk aw [unfolded S_wait(1)] f S_wait(6) this] S_wait(7) show ?thesis by blast
qed (use l pc aw in \<open>auto simp: awaits_def\<close>)

lemma awaits_main:
  assumes ok: "thr_ok api line kv (pc, p, y)" and inbox: "inbox_ok api inbox" and clk: "clock_forward api now"
    and step: "sys_step api (pc, p, y) l (pc', p', z)" and l: "main_label l"
    and f: "frame_intact api f" "length f \<le> MODBUS_BUFFER_SIZE api" and time: "now (sy_w z) < 2 ^ 63"
    and aw: "awaits line inbox now box f n (pc, p, y)"
  shows "arrived_once line inbox box f (pc', p', z) \<or>
    awaits line inbox now box f (if l = T_sleep then Suc n else n) (pc', p', z)"
proof (cases "\<exists>t. pc = M_submit t")
  case True
  then obtain t where pc: "pc = M_submit t" by blast
  have h: "ln_ring (line (sy_w y)) = []" "rx_bytes (sy_mb y) = f" "inbox (sy_w y) = box"
    using aw pc by (auto simp: awaits_def held_def)
  show ?thesis
    using submit_step [OF ok [unfolded pc] inbox step [unfolded pc] l h(1,2)] f(1) h(3)
    by (simp add: arrived_once_def server_inbox_def)
next
  case False
  then have pc: "\<And>t. pc \<noteq> M_submit t" by simp
  note a = aw [unfolded awaits_def prod.case]
  have keeps: "rs_keeps (mb_rs api) inbox" and run: "clock_runs (mb_rs api) now"
    using inbox clk by (simp_all add: inbox_ok_def clock_forward_def)
  have held: "held line (pc', p', z) = f" using main_held [OF ok step l pc] a f(2) by auto
  have box: "inbox (sy_w z) = box" using main_inbox [OF keeps step l pc] a by simp
  have polled: "polled pc' (ln_ring (line (sy_w z)))" "ln_ring (line (sy_w y)) = [] \<longrightarrow> ln_ring (line (sy_w z)) = []"
    using main_polled [OF ok step l] a by blast+
  have past: "rx_past now (sy_mb z) (sy_w z)"
    "in_flight pc = [] \<longrightarrow> mb_last_rx_ms (sy_mb z) = mb_last_rx_ms (sy_mb y)"
    using main_past [OF ok clk step l] a by blast+
  have fwd: "now (sy_w y) \<le> now (sy_w z)" using clk step unfolding clock_forward_def by blast
  have flight: "in_flight pc' = []" if "ln_ring (line (sy_w y)) = []" "in_flight pc = []"
    using main_flight [OF ok step l that] .
  show ?thesis
  proof (cases "l = T_sleep")
    case True
    have s: "pc = M_sleep" "pc' = M_top" "z = y\<lparr>sy_w := k_sleep_ms (mb_rs api) 1 (sy_w y)\<rparr>"
      using step True by (auto elim: sys_step.cases)
    have "now (sy_w y) + 1 \<le> now (sy_w z)" using clockD(2) [OF run, of "sy_w y"] s(3) by simp
    moreover have "sint (mb_last_rx_ms (sy_mb y)) + int n \<le> now (sy_w y)"
      using a by (cases "n = 0") (auto simp: rx_past_def)
    moreover have "n \<le> 1" using a s(1) by auto
    ultimately show ?thesis using True held box polled past a s(1,2) by (simp add: awaits_def)
  next
    case False
    have "(\<forall>t. pc' \<noteq> M_beat t) \<and> pc' \<noteq> M_sleep" if "n = 2"
      using awaits_late [OF ok clk step l False pc f(1) time] aw that by simp
    then show ?thesis using False held box polled past a flight fwd by (auto simp: awaits_def)
  qed
qed

lemma runs_forward:
  assumes clk: "clock_forward api now"
  shows "runs (sys_step api) c ls d \<Longrightarrow> now (sy_w (snd (snd c))) \<le> now (sy_w (snd (snd d)))"
proof (induction rule: runs.induct)
  case (runs_Cons c l d ls e)
  obtain pc p y pc' p' z where c: "c = (pc, p, y)" "d = (pc', p', z)" by (metis prod_cases3)
  have "now (sy_w y) \<le> now (sy_w z)" using clk runs_Cons.hyps(1) unfolding clock_forward_def c by blast
  then show ?case using runs_Cons.IH c by simp
qed simp

lemma runs_progress:
  assumes inbox: "inbox_apart api inbox" and clk: "clock_forward api now"
    and f: "frame_intact api f" "length f \<le> MODBUS_BUFFER_SIZE api"
    and "runs (sys_step api) c ls d" and "thr_ok api line kv c"
    and "\<forall>l \<in> set ls. \<not> reports_bytes l" and "now (sy_w (snd (snd d))) < 2 ^ 63"
    and "arrived_once line inbox box f c \<or> awaits line inbox now box f n c"
  shows "arrived_once line inbox box f d \<or> awaits line inbox now box f (n + count_list ls T_sleep) d"
  using assms(5-)
proof (induction arbitrary: n rule: runs.induct)
  case (runs_Cons c l d ls e)
  obtain pc p y pc' p' z where c: "c = (pc, p, y)" "d = (pc', p', z)" by (metis prod_cases3)
  note ok = runs_Cons.prems(1) [unfolded c] and step = runs_Cons.hyps(1) [unfolded c]
  have silent: "\<not> reports_bytes l" "\<forall>l \<in> set ls. \<not> reports_bytes l" using runs_Cons.prems(2) by simp_all
  have ib: "inbox_ok api inbox" using inbox by (simp add: inbox_apart_def)
  have time: "now (sy_w z) < 2 ^ 63" using runs_forward [OF clk runs_Cons.hyps(2)] runs_Cons.prems(3) c by simp
  have "arrived_once line inbox box f d \<or> awaits line inbox now box f (n + count_list [l] T_sleep) d"
  proof (cases "main_label l")
    case True
    then show ?thesis
      using arrived_main [OF ok ib step True, of box f] awaits_main [OF ok ib clk step True f time, of box n]
        runs_Cons.prems(4) c by auto
  next
    case False
    then have "l \<noteq> T_sleep" by auto
    then show ?thesis
      using awaits_others [OF ok inbox clk step False silent(1), of box f] runs_Cons.prems(4) c by auto
  qed
  from runs_Cons.IH [OF threads.step_inv [OF runs_Cons.prems(1) runs_Cons.hyps(1)] silent(2) runs_Cons.prems(3) this]
  show ?case by (simp split: if_splits)
qed simp

section \<open>Properties\<close>

text \<open>
  C9. A request on the wire reaches the server: when the frame of an ADU is complete in the
  frame buffer and the ring at the start of a round, and the line is silent from then on, the
  server has received exactly one new ADU once the main thread has been through three
  rounds, in every interleaving with the server and the hardware and wherever they are: the
  ADU has the unit, function code, length and payload that were sent, and nothing is held
  any more.
\<close>

theorem modbus_threads_deliver_request:
  assumes ok: "thr_ok api line kv (M_top, p, y)" and inbox: "inbox_apart api inbox"
    and clk: "clock_forward api now" and codec: "codec_ok api"
    and data: "unat (adu_length a) \<le> length (adu_data a)" "unat (adu_length a) + 4 \<le> MODBUS_BUFFER_SIZE api"
    and frame: "rx_bytes (sy_mb y) @ ln_ring (line (sy_w y)) = mb_frame api a" and past: "rx_past now (sy_mb y) (sy_w y)"
    and run: "runs (sys_step api) (M_top, p, y) ls (pc', p', z)"
    and silent: "\<forall>l \<in> set ls. \<not> reports_bytes l" and rounds: "3 \<le> count_list ls T_sleep"
    and time: "now (sy_w z) < 2 ^ 63"
  shows "rx_bytes (sy_mb z) @ in_flight pc' @ ln_ring (line (sy_w z)) = [] \<and>
    (\<exists>b. inbox (sy_w z) = inbox (sy_w y) @ [b] \<and> adu_unit_id b = adu_unit_id a \<and> adu_fc b = adu_fc a \<and>
       adu_length b = adu_length a \<and>
       take (unat (adu_length a)) (adu_data b) = take (unat (adu_length a)) (adu_data a))"
proof -
  have f: "frame_intact api (mb_frame api a)" "length (mb_frame api a) \<le> MODBUS_BUFFER_SIZE api"
    using mb_frame_intact [OF codec data(1)] data(2) by simp_all
  have "awaits line inbox now (inbox (sy_w y)) (mb_frame api a) 0 (M_top, p, y)"
    using frame past by (simp add: awaits_def held_def)
  then have "arrived_once line inbox (inbox (sy_w y)) (mb_frame api a) (pc', p', z)"
    using runs_progress [OF inbox clk f run ok silent, of "inbox (sy_w y)" 0] time rounds
    by (auto simp: awaits_def)
  then show ?thesis
    using adu_matches_frame [OF codec data(1)] by (auto simp: arrived_once_def conf_simps)
qed

section \<open>Witness\<close>

lemma silent_reports: "silent_label l \<Longrightarrow> \<not> reports_bytes l"
  by (cases l rule: reports_bytes.cases) (auto simp: silent_label_def)

lemma sim_forward: "clock_forward sim_mb (int \<circ> sm_ms \<circ> fst)"
  unfolding clock_forward_def
proof (intro conjI allI impI)
  show "clock_runs (mb_rs sim_mb) (int \<circ> sm_ms \<circ> fst)" using sim_mb_ok by simp
next
  fix pc p y l pc' p' z
  assume "sys_step sim_mb (pc, p, y) l (pc', p', z)"
  from sim_step_env [OF this] show "(int \<circ> sm_ms \<circ> fst) (sy_w y) \<le> (int \<circ> sm_ms \<circ> fst) (sy_w z)"
    by (simp add: sim_env_def)
qed

theorem modbus_threads_deliver_request_witness:
  "\<exists>ls z b. runs (sys_step sim_mb) (M_top, W_idle 0, sim_ready) ls (M_top, W_idle 0, z) \<and>
    3 \<le> count_list ls T_sleep \<and> sim_inbox (sy_w z) = sim_inbox (sy_w sim_ready) @ [b] \<and>
    adu_unit_id b = 1 \<and> adu_fc b = 6 \<and> take 2 (adu_data b) = [0x12, 0x34]"
proof -
  have data: "unat (adu_length sim_adu) \<le> length (adu_data sim_adu)"
    "unat (adu_length sim_adu) + 4 \<le> MODBUS_BUFFER_SIZE sim_mb" by (simp_all add: sim_adu_def sim_mb_def)
  have "receiving sim_mb sim_line (sim_left \<circ> fst) (int \<circ> sm_ms \<circ> fst) (mb_frame sim_mb sim_adu) sim_ready"
    using sim_m_inv [of "[]"] by (simp add: receiving_def sim_ready_def sim_req_def sim_y_def rx_past_def)
  then have frame: "rx_bytes (sy_mb sim_ready) @ ln_ring (sim_line (sy_w sim_ready)) = mb_frame sim_mb sim_adu"
    and past: "rx_past (int \<circ> sm_ms \<circ> fst) (sy_mb sim_ready) (sy_w sim_ready)"
    unfolding receiving_def by blast+
  obtain z where loop: "ats_loop sim_mb 3 sim_ready = Some z" using sim_loop_total by blast
  obtain ls where run: "runs (sys_step sim_mb) (M_top, W_idle 0, sim_ready) ls (M_top, W_idle 0, z)"
    and rounds: "3 \<le> count_list ls T_sleep" using ticks_run [OF ats_loop_runs_ticks [OF loop]] by blast
  have ok: "thr_ok sim_mb sim_line sim_kv (M_top, W_idle 0, sim_ready)"
    using sim_ready_ok by (simp add: thr_ok_def sys_ok_def)
  have "sim_ms (sy_w z) = 53" using sim_loop_ms [OF loop] by (simp add: sim_ready_def sim_req_def)
  then have time: "(int \<circ> sm_ms \<circ> fst) (sy_w z) < 2 ^ 63" by simp
  have "\<forall>l \<in> set ls. silent_label l"
    by (rule sim_runs_silent [OF run]) (simp add: sim_env_def sim_ready_def sim_req_def sim_mw_def sim_rx_def sim_up_def)
  then have "\<forall>l \<in> set ls. \<not> reports_bytes l" using silent_reports by blast
  from modbus_threads_deliver_request [OF ok sim_inbox_apart sim_forward sim_mb_ok(4) data frame past run this rounds time]
  obtain b where "sim_inbox (sy_w z) = sim_inbox (sy_w sim_ready) @ [b]" "adu_unit_id b = 1" "adu_fc b = 6"
    "take 2 (adu_data b) = [0x12, 0x34]" by (auto simp: sim_adu_def)
  then show ?thesis using run rounds by blast
qed

end
