(* ===== verification/FalStore.thy ===== *)
theory FalStore
  imports FalStub
begin

text \<open>
  The FAL adapter as FlashDB uses it, over whole sequences of calls: whatever calls are made
  after a successful initialisation, with whatever arguments, the adapter is a NOR flash of
  the size of the partition (\<open>store_step\<close>). The step of each request comes from the locale
  \<open>partition_io\<close>, through its interpretation \<open>fal\<close>.
\<close>

section \<open>Calls as events\<close>

text \<open>A call of the adapter with its result; partitions and names are arguments.\<close>

datatype fal_call =
    Fal_io part_ptr io_call
  | Fal_erase_all part_ptr int
  | Fal_init int
  | Fal_find "string option" part_ptr
  | Fal_dev_find "string option" bool
  | Fal_table part_ptr "usize option"
  | Fal_set_table "fal_partition list" usize

fun fal_step :: "'w flash_api \<Rightarrow> 'w fal_sys \<Rightarrow> fal_call \<Rightarrow> 'w fal_sys \<Rightarrow> bool" where
  "fal_step api s (Fal_io p (Io_read a n r d)) t \<longleftrightarrow> fal_partition_read api p a True n s = (r, d, t)"
| "fal_step api s (Fal_io p (Io_write a b n r)) t \<longleftrightarrow> fal_partition_write api p a (Some b) n s = (r, t)"
| "fal_step api s (Fal_io p (Io_erase a n r)) t \<longleftrightarrow> fal_partition_erase api p a n s = (r, t)"
| "fal_step api s (Fal_erase_all p r) t \<longleftrightarrow> fal_partition_erase_all api p s = (r, t)"
| "fal_step api s (Fal_init r) t \<longleftrightarrow> fal_init api s = (r, t)"
| "fal_step api s (Fal_find nm p) t \<longleftrightarrow> fal_partition_find api nm s = (p, t)"
| "fal_step api s (Fal_dev_find nm b) t \<longleftrightarrow> fal_flash_device_find api nm s = (b, t)"
| "fal_step api s (Fal_table p len) t \<longleftrightarrow> fal_get_partition_table api (len \<noteq> None) s = (p, len, t)"
| "fal_step api s (Fal_set_table ps len) t \<longleftrightarrow> t = fal_set_partition_table_temp ps len s"

section \<open>The abstract store\<close>

fun io_result :: "io_call \<Rightarrow> int" where
  "io_result (Io_read a n r d) = r"
| "io_result (Io_write a b n r) = r"
| "io_result (Io_erase a n r) = r"

fun io_len :: "io_call \<Rightarrow> 32 word" where
  "io_len (Io_read a n r d) = n"
| "io_len (Io_write a b n r) = n"
| "io_len (Io_erase a n r) = n"

text \<open>A NOR flash of \<open>len\<close> bytes that answers with the length or with -1.\<close>

definition nor_flash :: "nat \<Rightarrow> (nat \<Rightarrow> u8) \<Rightarrow> io_call \<Rightarrow> (nat \<Rightarrow> u8) \<Rightarrow> bool" where
  "nor_flash len f c g \<longleftrightarrow>
     (let acc = (\<lambda>a n. unat a + unat n \<le> len) in
      nor_step rc_len (acc, f) c (acc, g) \<and> io_result c \<in> {uint (io_len c), - 1})"

fun store_step :: "usize \<Rightarrow> (nat \<Rightarrow> u8) \<Rightarrow> fal_call \<Rightarrow> (nat \<Rightarrow> u8) \<Rightarrow> bool" where
  "store_step len f (Fal_io p c) g \<longleftrightarrow>
     (if p = PartGlobal then nor_flash (unat len) f c g else io_result c = - 1 \<and> g = f)"
| "store_step len f (Fal_erase_all p r) g \<longleftrightarrow>
     (if p = PartGlobal then nor_flash (unat len) f (Io_erase 0 len r) g else r = - 1 \<and> g = f)"
| "store_step len f (Fal_init r) g \<longleftrightarrow> r = 1 \<and> g = f"
| "store_step len f (Fal_find nm p) g \<longleftrightarrow> g = f \<and>
     p = (if \<exists>n. nm = Some n \<and> c_str n = ''flashdb'' then PartGlobal else PartNull)"
| "store_step len f (Fal_dev_find nm b) g \<longleftrightarrow> g = f \<and> b = (\<exists>n. nm = Some n \<and> c_str n = ''zephyr_qspi'')"
| "store_step len f (Fal_table p k) g \<longleftrightarrow> g = f \<and> p = PartGlobal \<and> (k = None \<or> k = Some 1)"
| "store_step len f (Fal_set_table ps k) g \<longleftrightarrow> g = f"

section \<open>The refinement\<close>

definition store_inv :: "'w flash_api \<Rightarrow> ('w \<Rightarrow> nat \<Rightarrow> u8) \<Rightarrow> usize \<Rightarrow> 'w fal_sys \<Rightarrow> bool" where
  "store_inv api mem len s \<longleftrightarrow> fal_up api mem s \<and> flashdb_port_size (fs_port s) = len"

abbreviation (input) fal_env :: "'w flash_api \<Rightarrow> ('w \<Rightarrow> nat \<Rightarrow> u8) \<Rightarrow> 'w fal_sys \<Rightarrow> 'w fal_env" where
  "fal_env api mem s \<equiv> \<lparr>fv_api = api, fv_mem = mem, fv_sys = s\<rparr>"

lemma store_inv_env:
  assumes "store_inv api mem len s"
  shows "fv_inv (fal_env api mem s)" and "fv_accept (fal_env api mem s) = (\<lambda>a n. unat a + unat n \<le> unat len)"
    and "g_fal_inited (fs_fal s)" and "fp_len (g_partition (fs_fal s)) = len"
  using assms
  by (auto simp: store_inv_def fv_inv_def fv_accept_def fv_len_def fal_up_def fal_ok_def the_partition_def
      fun_eq_iff)

text \<open>The system only changes in the hardware.\<close>

lemma fal_ops_frame:
  "fal_partition_read api p a nn n s = (r, d, t) \<Longrightarrow> \<exists>w. t = s\<lparr>fs_w := w\<rparr>"
  "fal_partition_write api p a b n s = (r, t) \<Longrightarrow> \<exists>w. t = s\<lparr>fs_w := w\<rparr>"
  "fal_partition_erase api p a n s = (r, t) \<Longrightarrow> \<exists>w. t = s\<lparr>fs_w := w\<rparr>"
proof -
  have id: "\<exists>w. s = s\<lparr>fs_w := w\<rparr>" by (rule exI [of _ "fs_w s"]) simp
  show "fal_partition_read api p a nn n s = (r, d, t) \<Longrightarrow> \<exists>w. t = s\<lparr>fs_w := w\<rparr>"
    using id by (auto simp: fal_partition_read_def Let_def split: if_splits prod.splits)
  show "fal_partition_write api p a b n s = (r, t) \<Longrightarrow> \<exists>w. t = s\<lparr>fs_w := w\<rparr>"
    using id by (auto simp: fal_partition_write_def Let_def split: if_splits prod.splits option.splits)
  show "fal_partition_erase api p a n s = (r, t) \<Longrightarrow> \<exists>w. t = s\<lparr>fs_w := w\<rparr>"
    using id by (auto simp: fal_partition_erase_def Let_def split: if_splits prod.splits)
qed

lemma store_inv_w [simp]: "store_inv api mem len (s\<lparr>fs_w := w\<rparr>) = store_inv api mem len s"
  by (simp add: store_inv_def fal_up_def fal_ok_def)

lemma fal_other_part:
  assumes "p \<noteq> PartGlobal"
  shows "fal_partition_read api p a nn n s = (- 1, [], s)" and "fal_partition_write api p a b n s = (- 1, s)"
    and "fal_partition_erase api p a n s = (- 1, s)" and "fal_partition_erase_all api p s = (- 1, s)"
  using assms
  by (simp_all add: fal_partition_read_def fal_partition_write_def fal_partition_erase_def
      fal_partition_erase_all_def part_is_valid_def split: option.split)

lemma fal_io_result:
  assumes inv: "store_inv api mem len s" and step: "fal_step api s (Fal_io PartGlobal c) t"
  shows "io_result c \<in> {uint (io_len c), - 1}"
proof -
  let ?e = "fal_env api mem s"
  note rej = fv_ops_reject [where e = ?e] and acc = fv_ops_accept [OF store_inv_env(1) [OF inv]]
  show ?thesis
  proof (cases c)
    case (Io_read a n r d)
    then have "fv_rd ?e a n = (r, d, fal_env api mem t)" using step by (simp add: fv_rd_def)
    then show ?thesis
      using Io_read rej(1) [of a n] acc(1) [of a n]
      by (cases "fv_accept ?e a n") (auto simp: fal_rc_def split: prod.splits)
  next
    case (Io_write a b n r)
    then have "fv_wr ?e a b n = (r, fal_env api mem t)" using step by (simp add: fv_wr_def)
    then show ?thesis
      using Io_write rej(2) [of a n b] acc(2) [of a n b]
      by (cases "fv_accept ?e a n") (auto simp: fal_rc_def split: prod.splits)
  next
    case (Io_erase a n r)
    then have "fv_er ?e a n = (r, fal_env api mem t)" using step by (simp add: fv_er_def)
    then show ?thesis
      using Io_erase rej(3) [of a n] acc(3) [of a n]
      by (cases "fv_accept ?e a n") (auto simp: fal_rc_def split: prod.splits)
  qed
qed

lemma fal_io_step:
  assumes inv: "store_inv api mem len s" and step: "fal_step api s (Fal_io PartGlobal c) t"
  shows "store_inv api mem len t \<and> nor_flash (unat len) (mem (fs_w s)) c (mem (fs_w t))"
proof -
  let ?e = "fal_env api mem"
  have "\<exists>w. t = s\<lparr>fs_w := w\<rparr>" using step by (cases c) (auto dest: fal_ops_frame)
  then have inv': "store_inv api mem len t" using inv by auto
  have "io_step fv_rd fv_wr fv_er (?e s) c (?e t)"
    using step by (cases c) (auto simp: fv_rd_def fv_wr_def fv_er_def)
  from fal.io.step_sim [OF store_inv_env(1) [OF inv] this]
  show ?thesis
    using inv' fal_io_result [OF inv step]
    by (simp add: nor_flash_def store_inv_env(2) [OF inv] store_inv_env(2) [OF inv'] fv_contents_def)
qed

text \<open>On an initialised adapter the administrative calls change nothing.\<close>

lemma fal_admin_step:
  assumes inv: "store_inv api mem len s"
  shows "fal_init api s = (1, s)" and "fal_init_fails api s = (False, s)"
    and "fal_partition_find api nm s =
      (if \<exists>n. nm = Some n \<and> c_str n = ''flashdb'' then PartGlobal else PartNull, s)"
    and "fal_flash_device_find api nm s = (\<exists>n. nm = Some n \<and> c_str n = ''zephyr_qspi'', s)"
    and "fal_get_partition_table api b s = (PartGlobal, if b then Some 1 else None, s)"
proof -
  have up: "g_fal_inited (fs_fal s)" by (rule store_inv_env(3) [OF inv])
  have fd: "g_flash_dev (fs_fal s) = the_flash_dev len (flashdb_port_erase_size (fs_port s))"
    and pt: "g_partition (fs_fal s) = the_partition len"
    using inv up by (auto simp: store_inv_def fal_up_def fal_ok_def)
  have names: "c_str (ATS_FAL_PART_NAME @ replicate 17 NUL) = ''flashdb''"
    "c_str (ATS_FAL_FLASH_NAME @ replicate 13 NUL) = ''zephyr_qspi''" by code_simp+
  show "fal_init api s = (1, s)" and f: "fal_init_fails api s = (False, s)"
    using up by (simp_all add: fal_init_def fal_init_fails_def)
  show "fal_partition_find api nm s =
      (if \<exists>n. nm = Some n \<and> c_str n = ''flashdb'' then PartGlobal else PartNull, s)"
    by (cases nm) (auto simp: fal_partition_find_def f pt the_partition_def strcmp_eq_def names)
  show "fal_flash_device_find api nm s = (\<exists>n. nm = Some n \<and> c_str n = ''zephyr_qspi'', s)"
    by (cases nm) (auto simp: fal_flash_device_find_def f fd the_flash_dev_def strcmp_eq_def names)
  show "fal_get_partition_table api b s = (PartGlobal, if b then Some 1 else None, s)"
    by (simp add: fal_get_partition_table_def f)
qed

lemma fal_store_step:
  assumes inv: "store_inv api mem len s" and step: "fal_step api s c t"
  shows "store_inv api mem len t \<and> store_step len (mem (fs_w s)) c (mem (fs_w t))"
proof (cases c)
  case (Fal_io p c')
  show ?thesis
  proof (cases "p = PartGlobal")
    case True
    then show ?thesis using fal_io_step [OF inv] step Fal_io by simp
  next
    case False
    then show ?thesis using step Fal_io inv by (cases c') (auto simp: fal_other_part [OF False])
  qed
next
  case (Fal_erase_all p r)
  show ?thesis
  proof (cases "p = PartGlobal")
    case True
    have "fal_partition_erase_all api PartGlobal s = fal_partition_erase api PartGlobal 0 len s"
      using store_inv_env(3,4) [OF inv] by (simp add: fal_partition_erase_all_def part_is_valid_def)
    then have "fal_step api s (Fal_io PartGlobal (Io_erase 0 len r)) t" using step Fal_erase_all True by simp
    from fal_io_step [OF inv this] show ?thesis using Fal_erase_all True by simp
  next
    case False
    then show ?thesis using step Fal_erase_all inv by (auto simp: fal_other_part(4) [OF False])
  qed
next
  case (Fal_table p k)
  then show ?thesis using step inv fal_admin_step(5) [OF inv] by (auto split: if_splits)
qed (use step inv fal_admin_step [OF inv] in \<open>auto simp: fal_set_partition_table_temp_def\<close>)

interpretation fal_store: trace_refinement "fal_step api" "store_step len" "\<lambda>s. mem (fs_w s)" "store_inv api mem len"
  for api :: "'w flash_api" and mem len
  by unfold_locales (auto dest: fal_store_step)

section \<open>Property\<close>

text \<open>
  C18. From a successful initialisation on, whatever calls FlashDB makes, in whatever order
  and with whatever arguments, the adapter is a NOR flash of exactly the size of the
  partition: a call that returns the length was inside the partition, a read returned the
  stored bytes, a program of erased bytes stored its data, an erase left 0xFF, and nothing
  else changed; every other result is -1, after which at most the bytes of an accepted
  program or erase have changed; requests on a partition that is not the adapter's own
  change nothing, and the lookups find the two names of FlashDB only.
\<close>

theorem fal_refines_nor_flash:
  assumes "fal_ok s0" and "fal_init api s0 = (1, s)" and "flashdb_area (fs_port s) = Some fa"
    and "flash_ok api fa mem" and "unat (fa_size fa) < 2 ^ 31" and "runs (fal_step api) s es t"
  shows "runs (store_step (fa_size fa)) (mem (fs_w s)) es (mem (fs_w t))"
proof -
  have "store_inv api mem (fa_size fa) s"
    using fal_init_outcome [OF assms(1,2)] assms(3-5)
    by (auto simp: store_inv_def fal_up_def flashdb_port_size_def split: if_splits)
  from fal_store.runs_sim [OF assms(6) this] show ?thesis .
qed

text \<open>The witness: an erase, a program, a read back, and a read past the end of the partition.\<close>

definition sim_calls :: "fal_call list" where
  "sim_calls = [Fal_find (Some ''flashdb'') PartGlobal, Fal_io PartGlobal (Io_erase 1024 1024 1024),
     Fal_io PartGlobal (Io_write 1024 [10, 20, 30] 3 3), Fal_io PartGlobal (Io_read 1024 3 3 [10, 20, 30]),
     Fal_io PartGlobal (Io_read 4094 3 (- 1) []), Fal_io PartNull (Io_erase 0 1024 (- 1))]"

lemma sim_calls_run: "\<exists>t. runs (fal_step sim_flash) (sim_sys (\<lambda>i. 0)) sim_calls t"
proof -
  have inv: "store_inv sim_flash (\<lambda>w. w) 4096 (sim_sys w)" for w
    using sim_up [of w] by (simp add: store_inv_def sim_sys_def flashdb_port_size_def sim_port_eq sim_area_def)
  have find: "fal_partition_find sim_flash (Some ''flashdb'') (sim_sys w) = (PartGlobal, sim_sys w)" for w
    using fal_admin_step(3) [OF inv, of "Some ''flashdb''" w] by (simp add: c_str_def)
  have far: "fal_partition_read sim_flash PartGlobal 4094 True 3 (sim_sys w) = (- 1, [], sim_sys w)" for w
    by (simp add: fal_partition_read_def part_is_valid_def sim_sys_def the_partition_def)
  show ?thesis
    unfolding sim_calls_def
    by (simp add: runs_Cons_iff find far sim_fal_ops fal_other_part upt_conv_Cons)
qed

theorem fal_refines_nor_flash_witness:
  "\<exists>t. runs (store_step 4096) (\<lambda>i. 0) sim_calls (fs_w t) \<and> runs (fal_step sim_flash) (sim_sys (\<lambda>i. 0)) sim_calls t"
proof -
  obtain t where run: "runs (fal_step sim_flash) (sim_sys (\<lambda>i. 0)) sim_calls t" using sim_calls_run by blast
  have area: "flashdb_area (fs_port (sim_sys w)) = Some sim_area" "fa_size sim_area = 4096" "fs_w (sim_sys w) = w" for w
    by (simp_all add: sim_sys_def sim_port_eq sim_area_def)
  have small: "unat (fa_size sim_area) < 2 ^ 31" by (simp add: sim_area_def)
  from fal_refines_nor_flash [OF sim_reset_ok sim_fal_init area(1) sim_flash_ok small run]
  show ?thesis using run by (auto simp: area)
qed

end
