(* ===== verification/BlinkClass.thy ===== *)
theory BlinkClass
  imports Prelude
begin

text \<open>
  The blink driver class, \<^verbatim>\<open>include/app/drivers/blink.h\<close>: the operation table that a
  driver fills in, the public calls that go through it, and the contract the header states
  as a locale. \<open>running\<close> is the period the device blinks with, \<open>lit\<close> the LED.
\<close>

record 'w blink_driver_api =
  set_period_ms :: "u32 \<Rightarrow> 'w \<Rightarrow> int \<times> 'w"

text \<open>
  A device of Zephyr's device model as its definition macro registers it: the init function
  with its configuration bound, called once by the kernel, and the table of its class.
\<close>

record ('w, 'a) device =
  dv_init :: "'w \<Rightarrow> int \<times> 'w"
  dv_api :: 'a

definition blink_set_period_ms :: "'w blink_driver_api \<Rightarrow> u32 \<Rightarrow> 'w \<Rightarrow> int \<times> 'w" where
  "blink_set_period_ms dev period_ms w = set_period_ms dev period_ms w"

definition blink_off :: "'w blink_driver_api \<Rightarrow> 'w \<Rightarrow> int \<times> 'w" where
  "blink_off dev w = blink_set_period_ms dev 0 w"

locale blink_driver =
  fixes set_period :: "u32 \<Rightarrow> 's \<Rightarrow> int \<times> 's"
    and running :: "'s \<Rightarrow> u32 option"
    and lit :: "'s \<Rightarrow> bool"
    and inv :: "'s \<Rightarrow> bool"
  assumes set_inv: "inv s \<Longrightarrow> set_period p s = (r, t) \<Longrightarrow> inv t"
    and set_running: "inv s \<Longrightarrow> set_period p s = (r, t) \<Longrightarrow> running t = (if p = 0 then None else Some p)"
    and set_accepts: "inv s \<Longrightarrow> p \<noteq> 0 \<Longrightarrow> set_period p s = (r, t) \<Longrightarrow> r = 0"
    and off_dark: "inv s \<Longrightarrow> set_period 0 s = (0, t) \<Longrightarrow> \<not> lit t"
begin

text \<open>Any sequence of requests leaves the device in the state of the last one.\<close>

lemma last_request_wins:
  assumes "inv s" and "ps \<noteq> []"
  shows "running (fold (\<lambda>p s. snd (set_period p s)) ps s) = (if last ps = 0 then None else Some (last ps))"
  using assms
proof (induction ps arbitrary: s)
  case (Cons p ps)
  obtain r t where s: "set_period p s = (r, t)" by (cases "set_period p s")
  show ?case
  proof (cases "ps = []")
    case True
    then show ?thesis using s set_running [OF Cons.prems(1) s] by simp
  next
    case False
    then show ?thesis using Cons.IH [OF set_inv [OF Cons.prems(1) s]] s by simp
  qed
qed simp

lemma off_is_off: "inv s \<Longrightarrow> set_period 0 s = (0, t) \<Longrightarrow> running t = None \<and> \<not> lit t"
  using set_running [of s 0 0 t] off_dark [of s t] by simp

end

end
