(* ===== verification/BlinkGpioLed.thy ===== *)
theory BlinkGpioLed
  imports BlinkClass
begin

text \<open>
  The GPIO LED driver of the blink class, \<^verbatim>\<open>drivers/blink/gpio_led.c\<close>: an LED on a GPIO
  pin, toggled by a kernel timer. The GPIO and timer functions of Zephyr are the fields of
  \<open>led_api\<close>; \<open>led_ok\<close> is their documented behaviour on the observable part \<open>led_view\<close>
  of the state. The interpretation \<open>gpio_led\<close> shows that the driver keeps the contract of
  its class.
\<close>

section \<open>The platform interface\<close>

record 'w led_api =
  gpio_is_ready_dt :: "'w \<Rightarrow> bool"
  led_pin_configure_dt :: "'w \<Rightarrow> int \<times> 'w"  \<comment> \<open>\<open>GPIO_OUTPUT_INACTIVE\<close>\<close>
  led_pin_set_dt :: "int \<Rightarrow> 'w \<Rightarrow> int \<times> 'w"
  gpio_pin_toggle_dt :: "'w \<Rightarrow> int \<times> 'w"
  k_timer_init :: "'w \<Rightarrow> 'w"
  k_timer_user_data_set :: "'w \<Rightarrow> 'w"
  k_timer_start :: "u32 \<Rightarrow> u32 \<Rightarrow> 'w \<Rightarrow> 'w"  \<comment> \<open>delay and period in ms\<close>
  k_timer_stop :: "'w \<Rightarrow> 'w"

section \<open>The driver\<close>

record blink_gpio_led_config =
  period_ms :: u32

definition blink_gpio_led_on_timer_expire :: "'w led_api \<Rightarrow> 'w \<Rightarrow> 'w" where
  "blink_gpio_led_on_timer_expire api w = (let (ret, w1) = gpio_pin_toggle_dt api w in w1)"

definition blink_gpio_led_set_period_ms :: "'w led_api \<Rightarrow> u32 \<Rightarrow> 'w \<Rightarrow> int \<times> 'w" where
  "blink_gpio_led_set_period_ms api p w =
     (if p = 0 then led_pin_set_dt api 0 (k_timer_stop api w)
      else (0, k_timer_start api p p w))"

definition blink_gpio_led_api :: "'w led_api \<Rightarrow> 'w blink_driver_api" where
  "blink_gpio_led_api api = \<lparr>set_period_ms = blink_gpio_led_set_period_ms api\<rparr>"

definition blink_gpio_led_init :: "'w led_api \<Rightarrow> blink_gpio_led_config \<Rightarrow> 'w \<Rightarrow> int \<times> 'w" where
  "blink_gpio_led_init api config w =
     (if \<not> gpio_is_ready_dt api w then (- ENODEV, w)
      else
        let (ret, w1) = led_pin_configure_dt api w in
        if ret < 0 then (ret, w1)
        else
          let w2 = k_timer_user_data_set api (k_timer_init api w1);
              w3 = (if period_ms config > 0
                    then k_timer_start api (period_ms config) (period_ms config) w2 else w2) in
          (0, w3))"

text \<open>
  One device per devicetree node: the functions of the node's pin and timer, and the property
  \<^verbatim>\<open>blink-period-ms\<close>, 0 when the node does not have it.
\<close>

record 'w blink_node =
  bn_gpio :: "'w led_api"
  bn_blink_period_ms :: "u32 option"

definition BLINK_GPIO_LED_DEFINE :: "'w blink_node \<Rightarrow> ('w, 'w blink_driver_api) device" where
  "BLINK_GPIO_LED_DEFINE inst =
     (let config = \<lparr>period_ms = (case bn_blink_period_ms inst of None \<Rightarrow> 0 | Some p \<Rightarrow> p)\<rparr> in
      \<lparr>dv_init = blink_gpio_led_init (bn_gpio inst) config, dv_api = blink_gpio_led_api (bn_gpio inst)\<rparr>)"

section \<open>The documented platform\<close>

record led_view =
  lv_lit :: bool
  lv_timer :: "(u32 \<times> u32) option"  \<comment> \<open>delay and period of the running timer\<close>

definition led_ok :: "'w led_api \<Rightarrow> ('w \<Rightarrow> led_view) \<Rightarrow> bool" where
  "led_ok api lv \<longleftrightarrow>
     (\<forall>w r w'. led_pin_configure_dt api w = (r, w') \<longrightarrow>
        lv w' = (if r < 0 then lv w else (lv w)\<lparr>lv_lit := False\<rparr>)) \<and>
     (\<forall>v w r w'. led_pin_set_dt api v w = (r, w') \<longrightarrow>
        lv w' = (if r = 0 then (lv w)\<lparr>lv_lit := (v \<noteq> 0)\<rparr> else lv w)) \<and>
     (\<forall>w r w'. gpio_pin_toggle_dt api w = (r, w') \<longrightarrow>
        lv w' = (if r = 0 then (lv w)\<lparr>lv_lit := \<not> lv_lit (lv w)\<rparr> else lv w)) \<and>
     (\<forall>w. lv (k_timer_init api w) = (lv w)\<lparr>lv_timer := None\<rparr>) \<and>
     (\<forall>w. lv (k_timer_user_data_set api w) = lv w) \<and>
     (\<forall>d p w. lv (k_timer_start api d p w) = (lv w)\<lparr>lv_timer := Some (d, p)\<rparr>) \<and>
     (\<forall>w. lv (k_timer_stop api w) = (lv w)\<lparr>lv_timer := None\<rparr>)"

lemma led_okD:
  assumes "led_ok api lv"
  shows "led_pin_configure_dt api w = (r, w') \<Longrightarrow> lv w' = (if r < 0 then lv w else (lv w)\<lparr>lv_lit := False\<rparr>)"
    and "led_pin_set_dt api v w = (r, w') \<Longrightarrow> lv w' = (if r = 0 then (lv w)\<lparr>lv_lit := (v \<noteq> 0)\<rparr> else lv w)"
    and "gpio_pin_toggle_dt api w = (r, w') \<Longrightarrow>
      lv w' = (if r = 0 then (lv w)\<lparr>lv_lit := \<not> lv_lit (lv w)\<rparr> else lv w)"
    and "lv (k_timer_init api w) = (lv w)\<lparr>lv_timer := None\<rparr>" "lv (k_timer_user_data_set api w) = lv w"
    and "lv (k_timer_start api d p w) = (lv w)\<lparr>lv_timer := Some (d, p)\<rparr>"
    and "lv (k_timer_stop api w) = (lv w)\<lparr>lv_timer := None\<rparr>"
  using assms unfolding led_ok_def by meson+

definition led_running :: "('w \<Rightarrow> led_view) \<Rightarrow> 'w \<Rightarrow> u32 option" where
  "led_running lv w = map_option snd (lv_timer (lv w))"

interpretation gpio_led: blink_driver "blink_set_period_ms (blink_gpio_led_api api)" "led_running lv"
    "lv_lit \<circ> lv" "\<lambda>w. led_ok api lv"
  for api :: "'w led_api" and lv
  by unfold_locales
    (auto simp: blink_set_period_ms_def blink_gpio_led_api_def blink_gpio_led_set_period_ms_def
      led_running_def led_okD(6,7) dest!: led_okD(2) [rotated] split: if_splits)

section \<open>Properties\<close>

text \<open>Timer expiries: each runs the callback.\<close>

primrec led_expiries :: "'w led_api \<Rightarrow> nat \<Rightarrow> 'w \<Rightarrow> 'w" where
  "led_expiries api 0 w = w"
| "led_expiries api (Suc n) w = led_expiries api n (blink_gpio_led_on_timer_expire api w)"

lemma led_expiries_view:
  assumes "led_ok api lv" and "\<And>w. fst (gpio_pin_toggle_dt api w) = 0"
  shows "lv (led_expiries api n w) = (lv w)\<lparr>lv_lit := (lv_lit (lv w) \<noteq> odd n)\<rparr>"
proof (induction n arbitrary: w)
  case (Suc n)
  obtain w1 where t: "gpio_pin_toggle_dt api w = (0, w1)" using assms(2) by (metis prod.collapse)
  show ?case
    using Suc.IH [of w1] led_okD(3) [OF assms(1) t] t by (auto simp: blink_gpio_led_on_timer_expire_def)
qed simp

text \<open>
  C34. Through the driver class, a nonzero period is always accepted and is the delay and the
  period of the toggling timer, so that after \<open>n\<close> expiries the LED has changed \<open>n\<close> times;
  period 0 stops the timer, and leaves the LED dark when the pin could be written.
\<close>

theorem blink_led_contract:
  assumes ok: "led_ok api lv" and toggles: "\<And>w. fst (gpio_pin_toggle_dt api w) = 0"
    and set: "blink_set_period_ms (blink_gpio_led_api api) p w = (r, w')"
  shows "(p \<noteq> 0 \<longrightarrow> r = 0 \<and> lv_timer (lv w') = Some (p, p) \<and>
      (\<forall>n. lv_lit (lv (led_expiries api n w')) = (lv_lit (lv w) \<noteq> odd n))) \<and>
    (p = 0 \<longrightarrow> lv_timer (lv w') = None \<and> (r = 0 \<longrightarrow> \<not> lv_lit (lv w')))"
proof (cases "p = 0")
  case True
  have "led_running lv w' = None" using gpio_led.set_running [OF ok set] True by simp
  moreover have "\<not> (lv_lit \<circ> lv) w'" if "r = 0"
    by (rule gpio_led.off_dark [of api lv w]) (use ok set that True in simp_all)
  ultimately show ?thesis using True by (simp add: led_running_def)
next
  case False
  have r: "r = 0" using gpio_led.set_accepts [OF ok False set] .
  have "w' = k_timer_start api p p w"
    using set False by (simp add: blink_set_period_ms_def blink_gpio_led_api_def blink_gpio_led_set_period_ms_def)
  then show ?thesis using False r led_expiries_view [OF ok toggles] by (simp add: led_okD(6) [OF ok])
qed

text \<open>
  Initialisation leaves the LED dark and blinks from boot exactly when the devicetree
  gives a nonzero period; when the pin is missing or cannot be configured the error is
  returned and the LED and the timer are left as they were.
\<close>

lemma blink_led_init:
  assumes ok: "led_ok api lv" and init: "blink_gpio_led_init api config w = (r, w')"
  shows "if r = 0 \<and> gpio_is_ready_dt api w \<and> 0 \<le> fst (led_pin_configure_dt api w)
    then \<not> lv_lit (lv w') \<and>
      lv_timer (lv w') = (if period_ms config = 0 then None else Some (period_ms config, period_ms config))
    else r < 0 \<and> lv w' = lv w"
proof -
  obtain e w1 where c: "led_pin_configure_dt api w = (e, w1)" by (cases "led_pin_configure_dt api w")
  show ?thesis
    using init led_okD(1) [OF ok c]
    by (auto simp: blink_gpio_led_init_def c led_okD(4-6) [OF ok] word_gt_0 Let_def split: if_splits)
qed

lemma blink_device_init:
  assumes "led_ok (bn_gpio inst) lv" and "dv_init (BLINK_GPIO_LED_DEFINE inst) w = (0, w')"
  shows "\<not> lv_lit (lv w') \<and>
    led_running lv w' = (case bn_blink_period_ms inst of None \<Rightarrow> None | Some p \<Rightarrow> if p = 0 then None else Some p)"
proof -
  have "blink_gpio_led_init (bn_gpio inst)
      \<lparr>period_ms = (case bn_blink_period_ms inst of None \<Rightarrow> 0 | Some p \<Rightarrow> p)\<rparr> w = (0, w')"
    using assms(2) by (simp add: BLINK_GPIO_LED_DEFINE_def)
  from blink_led_init [OF assms(1) this] show ?thesis
    by (auto simp: led_running_def split: if_splits option.splits)
qed

section \<open>Witnesses\<close>

definition sim_led :: "led_view led_api" where
  "sim_led =
     \<lparr>gpio_is_ready_dt = (\<lambda>w. True), led_pin_configure_dt = (\<lambda>w. (0, w\<lparr>lv_lit := False\<rparr>)),
      led_pin_set_dt = (\<lambda>v w. (0, w\<lparr>lv_lit := (v \<noteq> 0)\<rparr>)),
      gpio_pin_toggle_dt = (\<lambda>w. (0, w\<lparr>lv_lit := \<not> lv_lit w\<rparr>)),
      k_timer_init = (\<lambda>w. w\<lparr>lv_timer := None\<rparr>), k_timer_user_data_set = id,
      k_timer_start = (\<lambda>d p w. w\<lparr>lv_timer := Some (d, p)\<rparr>), k_timer_stop = (\<lambda>w. w\<lparr>lv_timer := None\<rparr>)\<rparr>"

lemma sim_led_ok: "led_ok sim_led (\<lambda>w. w)"
  by (simp add: led_ok_def sim_led_def)

definition sim_lit :: led_view where
  "sim_lit = \<lparr>lv_lit = True, lv_timer = Some (900, 900)\<rparr>"

theorem blink_led_contract_witness:
  "blink_set_period_ms (blink_gpio_led_api sim_led) 500 sim_lit = (0, sim_lit\<lparr>lv_timer := Some (500, 500)\<rparr>) \<and>
   \<not> lv_lit (led_expiries sim_led 7 (sim_lit\<lparr>lv_timer := Some (500, 500)\<rparr>))"
proof -
  have set: "blink_set_period_ms (blink_gpio_led_api sim_led) 500 sim_lit =
      (0, sim_lit\<lparr>lv_timer := Some (500, 500)\<rparr>)"
    by (simp add: blink_set_period_ms_def blink_gpio_led_api_def blink_gpio_led_set_period_ms_def sim_led_def)
  have "fst (gpio_pin_toggle_dt sim_led w) = 0" for w by (simp add: sim_led_def)
  from blink_led_contract [OF sim_led_ok this set] set show ?thesis by (simp add: sim_lit_def)
qed

end
