(* ===== verification/ExampleApp.thy ===== *)
theory ExampleApp
  imports BlinkGpioLed
begin

text \<open>
  The example application, \<^verbatim>\<open>app/src/main.c\<close> (\<^verbatim>\<open>ATS/src/main.c\<close> is the same file),
  with the sensor driver it polls, \<^verbatim>\<open>drivers/sensor/example_sensor/example_sensor.c\<close>, and
  the custom library, \<^verbatim>\<open>lib/custom/custom.c\<close>. The application reaches the sensor and the
  LED through their driver classes; the LED side rests on the interpretation \<open>gpio_led\<close> of
  the blink contract. \<open>app_loop\<close> is the endless loop cut off after \<open>n\<close> rounds, with the
  periods it announces on the console.
\<close>

section \<open>The example sensor\<close>

datatype sensor_channel = SENSOR_CHAN_PROX | SENSOR_CHAN_ALL | SENSOR_CHAN_OTHER

record 'w sensor_gpio =
  sn_device_is_ready :: "'w \<Rightarrow> bool"
  sn_pin_configure_dt :: "'w \<Rightarrow> int \<times> 'w"  \<comment> \<open>\<open>GPIO_INPUT\<close>\<close>
  gpio_pin_get_dt :: "'w \<Rightarrow> int \<times> 'w"

record example_sensor_data =
  sn_state :: int

text \<open>Zephyr's sensor class: \<open>channel_get\<close> also returns the \<open>val1\<close> it stores, if any.\<close>

record 'w sensor_driver_api =
  sample_fetch :: "sensor_channel \<Rightarrow> example_sensor_data \<Rightarrow> 'w \<Rightarrow> int \<times> example_sensor_data \<times> 'w"
  channel_get :: "sensor_channel \<Rightarrow> example_sensor_data \<Rightarrow> int \<times> int option"

definition example_sensor_sample_fetch ::
  "'w sensor_gpio \<Rightarrow> sensor_channel \<Rightarrow> example_sensor_data \<Rightarrow> 'w \<Rightarrow> int \<times> example_sensor_data \<times> 'w" where
  "example_sensor_sample_fetch api chan data w =
     (let (v, w1) = gpio_pin_get_dt api w in (0, data\<lparr>sn_state := v\<rparr>, w1))"

definition example_sensor_channel_get :: "sensor_channel \<Rightarrow> example_sensor_data \<Rightarrow> int \<times> int option" where
  "example_sensor_channel_get chan data =
     (if chan \<noteq> SENSOR_CHAN_PROX then (- ENOTSUP, None) else (0, Some (sn_state data)))"

definition example_sensor_api :: "'w sensor_gpio \<Rightarrow> 'w sensor_driver_api" where
  "example_sensor_api api =
     \<lparr>sample_fetch = example_sensor_sample_fetch api, channel_get = example_sensor_channel_get\<rparr>"

definition example_sensor_init :: "'w sensor_gpio \<Rightarrow> 'w \<Rightarrow> int \<times> 'w" where
  "example_sensor_init api w =
     (if \<not> sn_device_is_ready api w then (- ENODEV, w)
      else
        let (ret, w1) = sn_pin_configure_dt api w in
        if ret < 0 then (ret, w1) else (0, w1))"

definition EXAMPLE_SENSOR_INIT :: "'w sensor_gpio \<Rightarrow> ('w, 'w sensor_driver_api) device" where
  "EXAMPLE_SENSOR_INIT inst = \<lparr>dv_init = example_sensor_init inst, dv_api = example_sensor_api inst\<rparr>"

section \<open>The application\<close>

record 'w app_api =
  ap_sensor :: "'w sensor_driver_api"
  ap_blink :: "'w blink_driver_api"
  ap_sensor_ready :: "'w \<Rightarrow> bool"
  ap_blink_ready :: "'w \<Rightarrow> bool"
  ap_sleep_ms :: "nat \<Rightarrow> 'w \<Rightarrow> 'w"

abbreviation (input) BLINK_PERIOD_MS_STEP :: u32 where "BLINK_PERIOD_MS_STEP \<equiv> 100"
abbreviation (input) BLINK_PERIOD_MS_MAX :: u32 where "BLINK_PERIOD_MS_MAX \<equiv> 1000"

record 'w app_sys =
  ap_period :: u32
  ap_last_val1 :: int
  ap_data :: example_sensor_data
  ap_w :: 'w

text \<open>\<open>Inl\<close> is a return from \<open>main\<close>, with its code.\<close>

definition app_boot :: "'w app_api \<Rightarrow> example_sensor_data \<Rightarrow> 'w \<Rightarrow> int + 'w app_sys" where
  "app_boot api data w =
     (if \<not> ap_sensor_ready api w then Inl 0
      else if \<not> ap_blink_ready api w then Inl 0
      else
        let (ret, w1) = blink_off (ap_blink api) w in
        if ret < 0 then Inl 0
        else Inr \<lparr>ap_period = BLINK_PERIOD_MS_MAX, ap_last_val1 = 0, ap_data = data, ap_w = w1\<rparr>)"

definition next_period :: "u32 \<Rightarrow> u32" where
  "next_period p = (if p = 0 then BLINK_PERIOD_MS_MAX else p - BLINK_PERIOD_MS_STEP)"

text \<open>One round of the loop: the periods it announces, and how it ends.\<close>

definition app_round :: "'w app_api \<Rightarrow> 'w app_sys \<Rightarrow> u32 list \<times> (int + 'w app_sys)" where
  "app_round api a =
     (let (ret, data, w1) = sample_fetch (ap_sensor api) SENSOR_CHAN_ALL (ap_data a) (ap_w a) in
      if ret < 0 then ([], Inl 0)
      else
        let (ret, val) = channel_get (ap_sensor api) SENSOR_CHAN_PROX data in
        if ret < 0 then ([], Inl 0)
        else if ap_last_val1 a = 0 \<and> the val = 1 then
          let p = next_period (ap_period a);
              (r, w2) = blink_set_period_ms (ap_blink api) p w1 in
          ([p], Inr \<lparr>ap_period = p, ap_last_val1 = the val, ap_data = data, ap_w = ap_sleep_ms api 100 w2\<rparr>)
        else
          ([], Inr (a\<lparr>ap_last_val1 := the val, ap_data := data, ap_w := ap_sleep_ms api 100 w1\<rparr>)))"

primrec app_loop :: "'w app_api \<Rightarrow> nat \<Rightarrow> 'w app_sys \<Rightarrow> u32 list \<times> (int + 'w app_sys)" where
  "app_loop api 0 a = ([], Inr a)"
| "app_loop api (Suc n) a =
     (case app_round api a of
        (out, Inl r) \<Rightarrow> (out, Inl r)
      | (out, Inr a1) \<Rightarrow> case app_loop api n a1 of (out', res) \<Rightarrow> (out @ out', res))"

text \<open>\<open>main\<close> run for \<open>n\<close> rounds: the periods announced, and the return code or the state.\<close>

definition app_main ::
  "'w app_api \<Rightarrow> example_sensor_data \<Rightarrow> nat \<Rightarrow> 'w \<Rightarrow> u32 list \<times> (int + 'w app_sys)" where
  "app_main api data n w = (case app_boot api data w of Inl r \<Rightarrow> ([], Inl r) | Inr a \<Rightarrow> app_loop api n a)"

text \<open>The custom library; its default is a build option.\<close>

definition custom_get_value :: "32 word \<Rightarrow> 32 word \<Rightarrow> 32 word" where
  "custom_get_value CUSTOM_GET_VALUE_DEFAULT val = (if val \<noteq> 0 then val else CUSTOM_GET_VALUE_DEFAULT)"

text \<open>The checks of \<^verbatim>\<open>tests/lib/custom/src/main.c\<close>, for every argument.\<close>

lemma custom_get_value_test:
  "custom_get_value d 0 = d" "v \<noteq> 0 \<Longrightarrow> custom_get_value d v = v"
  by (simp_all add: custom_get_value_def)

section \<open>The announced periods\<close>

definition cycle_period :: "nat \<Rightarrow> nat" where
  "cycle_period k = 1000 - 100 * (k mod 11)"

lemma next_cycle_period:
  assumes "unat p = cycle_period k"
  shows "unat (next_period p) = cycle_period (Suc k)"
proof (cases "p = 0")
  case True
  then have "k mod 11 = 10" using assms mod_less_divisor [of 11 k] by (simp add: cycle_period_def)
  then have "Suc k mod 11 = 0" by (simp add: mod_Suc)
  then show ?thesis using True by (simp add: next_period_def cycle_period_def)
next
  case False
  have "unat p \<noteq> 0" using False by (simp add: unat_eq_0)
  then have lt: "k mod 11 < 10" using assms by (simp add: cycle_period_def)
  then have "100 \<le> unat p" using assms by (simp add: cycle_period_def)
  then have "unat (p - 100) = unat p - 100" by (simp add: unat_sub word_le_nat_alt)
  moreover have "Suc k mod 11 = Suc (k mod 11)" using lt by (simp add: mod_Suc)
  ultimately show ?thesis using False assms by (simp add: next_period_def cycle_period_def)
qed

text \<open>
  What the rounds read: the sample of a round, if both calls of the sensor driver succeed, the
  samples of \<open>n\<close> rounds, and how often a 1 follows a 0 in them.
\<close>

definition app_sample :: "'w app_api \<Rightarrow> 'w app_sys \<Rightarrow> int option" where
  "app_sample api a =
     (let (ret, data, w1) = sample_fetch (ap_sensor api) SENSOR_CHAN_ALL (ap_data a) (ap_w a);
          (ret', val) = channel_get (ap_sensor api) SENSOR_CHAN_PROX data
      in if ret < 0 \<or> ret' < 0 then None else Some (the val))"

primrec app_samples :: "'w app_api \<Rightarrow> nat \<Rightarrow> 'w app_sys \<Rightarrow> int list" where
  "app_samples api 0 a = []"
| "app_samples api (Suc n) a =
     (case app_sample api a of
        None \<Rightarrow> []
      | Some v \<Rightarrow> v # (case snd (app_round api a) of Inl r \<Rightarrow> [] | Inr a1 \<Rightarrow> app_samples api n a1))"

definition app_inputs :: "'w app_api \<Rightarrow> example_sensor_data \<Rightarrow> nat \<Rightarrow> 'w \<Rightarrow> int list" where
  "app_inputs api data n w = (case app_boot api data w of Inl r \<Rightarrow> [] | Inr a \<Rightarrow> app_samples api n a)"

fun rising_edges :: "int \<Rightarrow> int list \<Rightarrow> nat" where
  "rising_edges v [] = 0"
| "rising_edges v (x # xs) = (if v = 0 \<and> x = 1 then 1 else 0) + rising_edges x xs"

lemma app_round_edge:
  assumes "app_round api a = (out, res)"
  shows "case app_sample api a of
      None \<Rightarrow> out = [] \<and> res = Inl 0
    | Some v \<Rightarrow> \<exists>a1. res = Inr a1 \<and> ap_last_val1 a1 = v \<and>
        (if ap_last_val1 a = 0 \<and> v = 1 then out = [next_period (ap_period a)] \<and> ap_period a1 = next_period (ap_period a)
         else out = [] \<and> ap_period a1 = ap_period a)"
  using assms by (auto simp: app_round_def app_sample_def Let_def split: if_splits prod.splits)

lemma app_loop_edges:
  "app_loop api n a = (out, res) \<Longrightarrow> unat (ap_period a) = cycle_period k \<Longrightarrow>
    map unat out =
      map cycle_period [Suc k..<Suc k + rising_edges (ap_last_val1 a) (app_samples api n a)] \<and>
    (case res of Inl r \<Rightarrow> r = 0 | Inr a' \<Rightarrow> length (app_samples api n a) = n)"
proof (induction n arbitrary: a k out)
  case (Suc n)
  obtain out1 res1 where r: "app_round api a = (out1, res1)" by (cases "app_round api a")
  note e = app_round_edge [OF r]
  show ?case
  proof (cases "app_sample api a")
    case None
    then show ?thesis using Suc.prems(1) r e by auto
  next
    case (Some v)
    then obtain a1 where a1: "res1 = Inr a1" "ap_last_val1 a1 = v" using e by auto
    obtain out2 where l: "app_loop api n a1 = (out2, res)" and out: "out = out1 @ out2"
      using Suc.prems(1) r a1 by (auto split: prod.splits)
    let ?vs = "app_samples api n a1"
    have vs: "app_samples api (Suc n) a = v # ?vs" using Some r a1 by simp
    show ?thesis
    proof (cases "ap_last_val1 a = 0 \<and> v = 1")
      case True
      then have o1: "out1 = [next_period (ap_period a)]" "ap_period a1 = next_period (ap_period a)"
        using e Some a1 by auto
      note p = next_cycle_period [OF Suc.prems(2)]
      have "[Suc k..<Suc k + Suc (rising_edges 1 ?vs)] = Suc k # [Suc (Suc k)..<Suc (Suc k) + rising_edges 1 ?vs]"
        by (simp add: upt_conv_Cons del: upt_Suc)
      then show ?thesis
        using Suc.IH [OF l, of "Suc k"] o1 p a1 True
        by (simp add: vs out del: upt_Suc app_samples.simps split: sum.splits)
    next
      case False
      then have "out1 = []" "ap_period a1 = ap_period a" using e Some a1 by auto
      then show ?thesis
        using Suc.IH [OF l] Suc.prems(2) a1 False
        by (auto simp: vs out simp del: upt_Suc app_samples.simps split: sum.splits)
    qed
  qed
qed auto

section \<open>Properties\<close>

text \<open>
  C32. The announcements are those of the rising edges: in \<open>n\<close> rounds after boot, for every
  \<open>n\<close>, one period is announced for each sample of 1 that follows a sample of 0 (0 before the
  first), and none otherwise, and the \<open>i\<close>-th edge announces \<open>1000 - 100 * (i mod 11)\<close> ms, that is
  900, 800, ..., 0, 1000, 900, and so on, without wrap-around of the unsigned subtraction; and
  as long as the loop goes on every round has taken one sample.
\<close>

theorem app_period_cycle:
  assumes "app_main api data n w = (out, res)"
  shows "map unat out =
      map (\<lambda>i. 1000 - 100 * (i mod 11)) [1..<1 + rising_edges 0 (app_inputs api data n w)] \<and>
    (case res of Inl r \<Rightarrow> r = 0 | Inr a \<Rightarrow> length (app_inputs api data n w) = n)"
proof (cases "app_boot api data w")
  case (Inr a)
  then have "unat (ap_period a) = cycle_period 0" "ap_last_val1 a = 0"
    by (auto simp: app_boot_def cycle_period_def split: if_splits prod.splits)
  moreover have "app_loop api n a = (out, res)" using assms Inr by (simp add: app_main_def)
  moreover have "cycle_period = (\<lambda>i. 1000 - 100 * (i mod 11))" by (simp add: cycle_period_def fun_eq_iff)
  ultimately show ?thesis using app_loop_edges [of api n a out res 0] Inr
    by (simp add: app_inputs_def del: upt_Suc split: sum.splits)
next
  case (Inl r)
  then have boot: "app_boot api data w = Inl 0" by (auto simp: app_boot_def split: if_splits prod.splits)
  then have "out = []" "res = Inl 0" using assms by (simp_all add: app_main_def)
  then show ?thesis using boot by (simp add: app_inputs_def)
qed

text \<open>What reads the sensor or sleeps leaves the period of the LED timer alone.\<close>

definition app_keeps_timer :: "'w app_api \<Rightarrow> ('w \<Rightarrow> led_view) \<Rightarrow> bool" where
  "app_keeps_timer api lv \<longleftrightarrow>
     (\<forall>c d w. lv_timer (lv (snd (snd (sample_fetch (ap_sensor api) c d w)))) = lv_timer (lv w)) \<and>
     (\<forall>n w. lv_timer (lv (ap_sleep_ms api n w)) = lv_timer (lv w))"

lemma app_round_led:
  assumes ok: "led_ok led lv" and blink: "ap_blink api = blink_gpio_led_api led"
    and keeps: "app_keeps_timer api lv" and run: "app_round api a = (out, Inr a')"
  shows "led_running lv (ap_w a') = (if out = [] then led_running lv (ap_w a)
    else if last out = 0 then None else Some (last out))"
proof -
  obtain ret data w1 where f: "sample_fetch (ap_sensor api) SENSOR_CHAN_ALL (ap_data a) (ap_w a) = (ret, data, w1)"
    by (cases "sample_fetch (ap_sensor api) SENSOR_CHAN_ALL (ap_data a) (ap_w a)")
  have w1: "led_running lv w1 = led_running lv (ap_w a)"
    using keeps f unfolding app_keeps_timer_def led_running_def by (metis snd_conv)
  have slp: "led_running lv (ap_sleep_ms api n w) = led_running lv w" for n w
    using keeps by (simp add: app_keeps_timer_def led_running_def)
  have set: "led_running lv w2 = (if p = 0 then None else Some p)"
    if "blink_set_period_ms (ap_blink api) p w1 = (r, w2)" for p r w2
    using gpio_led.set_running [OF ok] that blink by simp
  show ?thesis
    using run w1 slp
    by (auto simp: app_round_def f Let_def split: if_splits prod.splits dest!: set)
qed

text \<open>
  The LED follows the announcements: after any number of rounds the blink timer runs
  with the last period announced, and is stopped when that was 0 or nothing has been
  announced since boot.
\<close>

lemma app_led_follows:
  assumes ok: "led_ok led lv" and blink: "ap_blink api = blink_gpio_led_api led"
    and keeps: "app_keeps_timer api lv" and boot: "app_boot api data w = Inr a"
    and run: "app_loop api n a = (out, Inr a')"
  shows "led_running lv (ap_w a') = (if out = [] \<or> last out = 0 then None else Some (last out))"
proof -
  have start: "led_running lv (ap_w a) = None"
  proof -
    obtain r w1 where off: "blink_off (ap_blink api) w = (r, w1)" by (cases "blink_off (ap_blink api) w")
    then have "ap_w a = w1" using boot by (auto simp: app_boot_def split: if_splits)
    then show ?thesis using gpio_led.set_running [OF ok, of 0 w r w1] off blink by (simp add: blink_off_def)
  qed
  have "led_running lv (ap_w a') = (if out = [] then led_running lv (ap_w a)
      else if last out = 0 then None else Some (last out))"
    using run
  proof (induction n arbitrary: a out)
    case (Suc n)
    obtain out1 a1 out2 where r: "app_round api a = (out1, Inr a1)" and l: "app_loop api n a1 = (out2, Inr a')"
      and out: "out = out1 @ out2"
      using Suc.prems by (auto split: prod.splits sum.splits)
    show ?case using Suc.IH [OF l] app_round_led [OF ok blink keeps r] by (auto simp: out)
  qed simp
  then show ?thesis using start by simp
qed

text \<open>
  C33. The LED from reset on, through the devices of the two devicetree nodes and the
  application: once its device is initialised it blinks with the period of the devicetree,
  if there is one; when either device failed to initialise \<open>main\<close> returns at once and
  announces nothing; otherwise, after any number of rounds, the blink timer runs with the
  last period announced, and is stopped when that was 0 or nothing has been announced.
\<close>

theorem app_led_lifecycle:
  assumes ok: "led_ok (bn_gpio node) lv" and led: "dv_init (BLINK_GPIO_LED_DEFINE node) w = (r, w1)"
    and sensor: "dv_init (EXAMPLE_SENSOR_INIT gpio) v = (q, v1)"
    and api: "ap_blink api = dv_api (BLINK_GPIO_LED_DEFINE node)" "ap_sensor api = dv_api (EXAMPLE_SENSOR_INIT gpio)"
      "ap_blink_ready api w2 \<longleftrightarrow> r = 0" "ap_sensor_ready api w2 \<longleftrightarrow> q = 0"
    and keeps: "app_keeps_timer api lv" "lv_timer (lv w2) = lv_timer (lv w1)"
    and run: "app_main api data n w2 = (out, res)"
  shows "(r = 0 \<longrightarrow> led_running lv w2 =
        (case bn_blink_period_ms node of None \<Rightarrow> None | Some p \<Rightarrow> if p = 0 then None else Some p)) \<and>
    (r \<noteq> 0 \<or> q \<noteq> 0 \<longrightarrow> out = [] \<and> res = Inl 0) \<and>
    (\<forall>a. res = Inr a \<longrightarrow>
      led_running lv (ap_w a) = (if out = [] \<or> last out = 0 then None else Some (last out)))"
proof (intro conjI impI allI)
  show "led_running lv w2 =
      (case bn_blink_period_ms node of None \<Rightarrow> None | Some p \<Rightarrow> if p = 0 then None else Some p)" if "r = 0"
    using blink_device_init [OF ok led [unfolded that]] keeps(2) by (simp add: led_running_def)
  show "out = []" "res = Inl 0" if "r \<noteq> 0 \<or> q \<noteq> 0"
    using that run api(3,4) by (auto simp: app_main_def app_boot_def)
  fix a
  assume res: "res = Inr a"
  then obtain a0 where boot: "app_boot api data w2 = Inr a0" and loop: "app_loop api n a0 = (out, Inr a)"
    using run by (auto simp: app_main_def split: sum.splits)
  have "ap_blink api = blink_gpio_led_api (bn_gpio node)" using api(1) by (simp add: BLINK_GPIO_LED_DEFINE_def)
  from app_led_follows [OF ok this keeps(1) boot loop]
  show "led_running lv (ap_w a) = (if out = [] \<or> last out = 0 then None else Some (last out))" .
qed

text \<open>
  C40. A failed read of the sensor's pin is not reported: the fetch returns 0, the error code
  of the pin becomes the state of the driver and so the sample that \<^verbatim>\<open>SENSOR_CHAN_PROX\<close> returns,
  and the application takes it as the last value; a rising edge of the input across such a
  read, from the 0 before it to the 1 after it, is therefore missed.
\<close>

theorem sensor_error_hides_edge:
  assumes sensor: "ap_sensor api = example_sensor_api gpio" and low: "ap_last_val1 a = 0"
    and failed: "gpio_pin_get_dt gpio (ap_w a) = (e, w1)" "e < 0"
    and high: "gpio_pin_get_dt gpio (ap_sleep_ms api 100 w1) = (1, w2)"
  shows "example_sensor_sample_fetch gpio SENSOR_CHAN_ALL (ap_data a) (ap_w a) = (0, (ap_data a)\<lparr>sn_state := e\<rparr>, w1) \<and>
    example_sensor_channel_get SENSOR_CHAN_PROX ((ap_data a)\<lparr>sn_state := e\<rparr>) = (0, Some e) \<and>
    (\<exists>a1 a'. app_loop api 1 a = ([], Inr a1) \<and> ap_last_val1 a1 = e \<and>
      app_loop api 2 a = ([], Inr a') \<and> ap_last_val1 a' = 1 \<and> ap_period a' = ap_period a)"
  using assms
  by (simp add: numeral_2_eq_2 app_round_def example_sensor_api_def example_sensor_sample_fetch_def
      example_sensor_channel_get_def)

section \<open>Witnesses\<close>

text \<open>The pin level is read from a list of future samples, next to the simulated LED.\<close>

type_synonym app_sim = "int list \<times> led_view"

definition sim_led2 :: "app_sim led_api" where
  "sim_led2 =
     \<lparr>gpio_is_ready_dt = (\<lambda>w. True), led_pin_configure_dt = (\<lambda>(x, v). (0, x, v\<lparr>lv_lit := False\<rparr>)),
      led_pin_set_dt = (\<lambda>l (x, v). (0, x, v\<lparr>lv_lit := (l \<noteq> 0)\<rparr>)),
      gpio_pin_toggle_dt = (\<lambda>(x, v). (0, x, v\<lparr>lv_lit := \<not> lv_lit v\<rparr>)),
      k_timer_init = apsnd (\<lambda>v. v\<lparr>lv_timer := None\<rparr>), k_timer_user_data_set = id,
      k_timer_start = (\<lambda>d p. apsnd (\<lambda>v. v\<lparr>lv_timer := Some (d, p)\<rparr>)),
      k_timer_stop = apsnd (\<lambda>v. v\<lparr>lv_timer := None\<rparr>)\<rparr>"

definition sim_pin :: "app_sim sensor_gpio" where
  "sim_pin = \<lparr>sn_device_is_ready = (\<lambda>w. True), sn_pin_configure_dt = (\<lambda>w. (0, w)),
     gpio_pin_get_dt = (\<lambda>(x, v). case x of [] \<Rightarrow> (0, x, v) | l # ls \<Rightarrow> (l, ls, v))\<rparr>"

definition sim_app :: "app_sim app_api" where
  "sim_app = \<lparr>ap_sensor = example_sensor_api sim_pin, ap_blink = blink_gpio_led_api sim_led2,
     ap_sensor_ready = (\<lambda>w. True), ap_blink_ready = (\<lambda>w. True), ap_sleep_ms = (\<lambda>n w. w)\<rparr>"

lemma sim_led2_ok: "led_ok sim_led2 snd"
  by (auto simp: led_ok_def sim_led2_def)

lemma sim_app_keeps: "app_keeps_timer sim_app snd"
  by (auto simp: app_keeps_timer_def sim_app_def example_sensor_api_def example_sensor_sample_fetch_def
      sim_pin_def Let_def split: prod.splits list.splits)

definition sim_a :: "int list \<Rightarrow> app_sim app_sys" where
  "sim_a levels = \<lparr>ap_period = 1000, ap_last_val1 = 0, ap_data = \<lparr>sn_state = 0\<rparr>,
     ap_w = (levels, \<lparr>lv_lit = False, lv_timer = None\<rparr>)\<rparr>"

lemma sim_app_boot: "app_boot sim_app \<lparr>sn_state = 0\<rparr> (levels, sim_lit) = Inr (sim_a levels)"
  by (simp add: app_boot_def sim_app_def blink_off_def blink_set_period_ms_def blink_gpio_led_api_def
      blink_gpio_led_set_period_ms_def sim_led2_def sim_a_def sim_lit_def)

lemma sim_app_run:
  "\<exists>a'. app_loop sim_app 4 (sim_a [1, 1, 0, 1]) = ([900, 800], Inr a') \<and> ap_period a' = 800"
proof -
  have four: "4 = Suc (Suc (Suc (Suc 0)))" by simp
  show ?thesis
    unfolding four
    by (simp add: app_round_def sim_app_def example_sensor_api_def example_sensor_sample_fetch_def
        example_sensor_channel_get_def sim_pin_def sim_a_def next_period_def blink_set_period_ms_def
        blink_gpio_led_api_def blink_gpio_led_set_period_ms_def sim_led2_def)
qed

lemma sim_app_inputs: "app_inputs sim_app \<lparr>sn_state = 0\<rparr> 4 ([1, 1, 0, 1], sim_lit) = [1, 1, 0, 1]"
proof -
  have four: "4 = Suc (Suc (Suc (Suc 0)))" by simp
  show ?thesis
    unfolding four app_inputs_def sim_app_boot sum.case
    by (simp add: app_sample_def app_round_def sim_app_def example_sensor_api_def
        example_sensor_sample_fetch_def example_sensor_channel_get_def sim_pin_def sim_a_def next_period_def
        blink_set_period_ms_def blink_gpio_led_api_def blink_gpio_led_set_period_ms_def sim_led2_def)
qed

theorem app_period_cycle_witness:
  "\<exists>a'. app_main sim_app \<lparr>sn_state = 0\<rparr> 4 ([1, 1, 0, 1], sim_lit) = ([900, 800], Inr a') \<and>
    app_inputs sim_app \<lparr>sn_state = 0\<rparr> 4 ([1, 1, 0, 1], sim_lit) = [1, 1, 0, 1] \<and>
    map unat [900, 800 :: u32] = map (\<lambda>i. 1000 - 100 * (i mod 11)) [1..<1 + rising_edges 0 [1, 1, 0, 1]]"
proof -
  obtain a' where "app_loop sim_app 4 (sim_a [1, 1, 0, 1]) = ([900, 800], Inr a')"
    using sim_app_run by blast
  then have run: "app_main sim_app \<lparr>sn_state = 0\<rparr> 4 ([1, 1, 0, 1], sim_lit) = ([900, 800], Inr a')"
    by (simp add: app_main_def sim_app_boot)
  show ?thesis using app_period_cycle [OF run] run unfolding sim_app_inputs by blast
qed

theorem app_led_lifecycle_witness:
  "\<exists>w1 a'. dv_init (BLINK_GPIO_LED_DEFINE \<lparr>bn_gpio = sim_led2, bn_blink_period_ms = Some 1000\<rparr>) ([1, 1, 0, 1], sim_lit) = (0, w1) \<and>
    led_running snd w1 = Some 1000 \<and>
    app_main sim_app \<lparr>sn_state = 0\<rparr> 4 w1 = ([900, 800], Inr a') \<and> led_running snd (ap_w a') = Some 800"
proof -
  let ?node = "\<lparr>bn_gpio = sim_led2, bn_blink_period_ms = Some 1000\<rparr>"
  let ?w = "([1, 1, 0, 1] :: int list, \<lparr>lv_lit = False, lv_timer = Some (1000, 1000)\<rparr>)"
  have led: "dv_init (BLINK_GPIO_LED_DEFINE ?node) ([1, 1, 0, 1], sim_lit) = (0, ?w)"
    by (simp add: BLINK_GPIO_LED_DEFINE_def blink_gpio_led_init_def sim_led2_def sim_lit_def)
  have sensor: "dv_init (EXAMPLE_SENSOR_INIT sim_pin) ?w = (0, ?w)"
    by (simp add: EXAMPLE_SENSOR_INIT_def example_sensor_init_def sim_pin_def)
  have api: "ap_blink sim_app = dv_api (BLINK_GPIO_LED_DEFINE ?node)"
    "ap_sensor sim_app = dv_api (EXAMPLE_SENSOR_INIT sim_pin)"
    "ap_blink_ready sim_app ?w \<longleftrightarrow> (0 :: int) = 0" "ap_sensor_ready sim_app ?w \<longleftrightarrow> (0 :: int) = 0"
    by (simp_all add: sim_app_def BLINK_GPIO_LED_DEFINE_def EXAMPLE_SENSOR_INIT_def)
  have "app_boot sim_app \<lparr>sn_state = 0\<rparr> ?w = Inr (sim_a [1, 1, 0, 1])"
    by (simp add: app_boot_def sim_app_def blink_off_def blink_set_period_ms_def blink_gpio_led_api_def
        blink_gpio_led_set_period_ms_def sim_led2_def sim_a_def)
  then obtain a' where run: "app_main sim_app \<lparr>sn_state = 0\<rparr> 4 ?w = ([900, 800], Inr a')"
    using sim_app_run by (auto simp: app_main_def)
  have ok: "led_ok (bn_gpio ?node) snd" using sim_led2_ok by simp
  from app_led_lifecycle [OF ok led sensor api sim_app_keeps refl run] led run show ?thesis by auto
qed

theorem sensor_error_hides_edge_witness:
  "example_sensor_sample_fetch sim_pin SENSOR_CHAN_ALL \<lparr>sn_state = 0\<rparr> ([- 5, 1], \<lparr>lv_lit = False, lv_timer = None\<rparr>) =
      (0, \<lparr>sn_state = - 5\<rparr>, [1], \<lparr>lv_lit = False, lv_timer = None\<rparr>) \<and>
    (\<exists>a1 a'. app_loop sim_app 1 (sim_a [- 5, 1]) = ([], Inr a1) \<and> ap_last_val1 a1 = - 5 \<and>
      app_loop sim_app 2 (sim_a [- 5, 1]) = ([], Inr a') \<and> ap_last_val1 a' = 1)"
proof -
  have "ap_sensor sim_app = example_sensor_api sim_pin" "ap_last_val1 (sim_a [- 5, 1]) = 0"
    and "gpio_pin_get_dt sim_pin (ap_w (sim_a [- 5, 1])) = (- 5, [1], snd (ap_w (sim_a [- 5, 1])))"
    and "(- 5 :: int) < 0"
    and "gpio_pin_get_dt sim_pin (ap_sleep_ms sim_app 100 ([1], snd (ap_w (sim_a [- 5, 1])))) =
      (1, [], snd (ap_w (sim_a [- 5, 1])))"
    by (simp_all add: sim_app_def sim_pin_def sim_a_def)
  note s = sensor_error_hides_edge [OF this]
  from conjunct1 [OF s] have "example_sensor_sample_fetch sim_pin SENSOR_CHAN_ALL \<lparr>sn_state = 0\<rparr> ([- 5, 1], \<lparr>lv_lit = False, lv_timer = None\<rparr>) =
      (0, \<lparr>sn_state = - 5\<rparr>, [1], \<lparr>lv_lit = False, lv_timer = None\<rparr>)" by (simp add: sim_a_def)
  then show ?thesis using s by blast
qed

end
