(* ===== verification/CanService.thy ===== *)
theory CanService
  imports Prelude
begin

text \<open>
  The CAN service, \<^verbatim>\<open>ATS-M7/src/can_service.c\<close>: acceptance filters that feed a message
  queue, and validated sending of standard and extended frames. Zephyr's CAN driver and
  message queue are the fields of \<open>can_api\<close>; \<open>can_ok\<close> is their documented behaviour on
  the table of installed filters and on the frames sent.
\<close>

section \<open>The platform interface\<close>

record can_filter =
  flt_id :: u32
  flt_mask :: u32
  flt_flags :: u8

record can_frame =
  frm_id :: u32
  frm_dlc :: u8
  frm_flags :: u8
  frm_data :: "u8 list"

datatype can_state = CAN_STATE_ERROR_ACTIVE | CAN_STATE_ERROR_WARNING | CAN_STATE_ERROR_PASSIVE
  | CAN_STATE_BUS_OFF | CAN_STATE_STOPPED | CAN_STATE_OTHER

record can_bus_err_cnt =
  tx_err_cnt :: u8
  rx_err_cnt :: u8

record 'w can_api =
  can_device_is_ready :: "'w \<Rightarrow> bool"
  can_set_state_change_callback :: "'w \<Rightarrow> 'w"
  can_stop :: "'w \<Rightarrow> int \<times> 'w"
  can_set_mode :: "'w \<Rightarrow> int \<times> 'w"  \<comment> \<open>\<open>CAN_MODE_NORMAL\<close>\<close>
  can_set_bitrate :: "u32 \<Rightarrow> 'w \<Rightarrow> int \<times> 'w"
  can_add_rx_filter_msgq :: "can_filter \<Rightarrow> 'w \<Rightarrow> int \<times> 'w"
  can_remove_rx_filter :: "int \<Rightarrow> 'w \<Rightarrow> 'w"
  k_msgq_purge :: "'w \<Rightarrow> 'w"
  can_start :: "'w \<Rightarrow> int \<times> 'w"
  can_get_core_clock :: "'w \<Rightarrow> int \<times> u32 \<times> 'w"
  can_send :: "can_frame \<Rightarrow> 'w \<Rightarrow> int \<times> 'w"
  k_msgq_get :: "s64 \<Rightarrow> 'w \<Rightarrow> int \<times> can_frame option \<times> 'w"
  can_bytes_to_dlc :: "u8 \<Rightarrow> u8"
  CAN_BITRATE :: u32

abbreviation (input) CAN_STD_ID_MASK :: u32 where "CAN_STD_ID_MASK \<equiv> 0x7FF"
abbreviation (input) CAN_EXT_ID_MASK :: u32 where "CAN_EXT_ID_MASK \<equiv> 0x1FFFFFFF"
abbreviation (input) CAN_MAX_DLC :: usize where "CAN_MAX_DLC \<equiv> 8"
abbreviation (input) CAN_FRAME_IDE :: u8 where "CAN_FRAME_IDE \<equiv> 1"
abbreviation (input) CAN_FILTER_IDE :: u8 where "CAN_FILTER_IDE \<equiv> 1"

section \<open>State and operations\<close>

record can_svc =
  can_rx_filter_std_id :: int
  can_rx_filter_ext_id :: int

definition can_svc0 :: can_svc where
  "can_svc0 = \<lparr>can_rx_filter_std_id = - 1, can_rx_filter_ext_id = - 1\<rparr>"

definition can_remove_all_filters :: "'w can_api \<Rightarrow> can_svc \<Rightarrow> 'w \<Rightarrow> can_svc \<times> 'w" where
  "can_remove_all_filters api s w =
     (let (s1, w1) =
            (if can_rx_filter_std_id s \<ge> 0
             then (s\<lparr>can_rx_filter_std_id := - 1\<rparr>, can_remove_rx_filter api (can_rx_filter_std_id s) w)
             else (s, w)) in
      if can_rx_filter_ext_id s1 \<ge> 0
      then (s1\<lparr>can_rx_filter_ext_id := - 1\<rparr>, can_remove_rx_filter api (can_rx_filter_ext_id s1) w1)
      else (s1, w1))"

definition can_service_set_rx_filter_all :: "'w can_api \<Rightarrow> can_svc \<Rightarrow> 'w \<Rightarrow> int \<times> can_svc \<times> 'w" where
  "can_service_set_rx_filter_all api s w =
     (let std_all = \<lparr>flt_id = 0, flt_mask = 0, flt_flags = 0\<rparr>;
          ext_all = \<lparr>flt_id = 0, flt_mask = 0, flt_flags = CAN_FILTER_IDE\<rparr>;
          (s1, w1) = can_remove_all_filters api s w;
          w2 = k_msgq_purge api w1;
          (ret, w3) = can_add_rx_filter_msgq api std_all w2 in
      if ret < 0 then (ret, s1, w3)
      else
        let s2 = s1\<lparr>can_rx_filter_std_id := ret\<rparr>;
            (ext_ret, w4) = can_add_rx_filter_msgq api ext_all w3 in
        (0, if ext_ret \<ge> 0 then s2\<lparr>can_rx_filter_ext_id := ext_ret\<rparr> else s2, w4))"

definition can_state_name :: "can_state \<Rightarrow> string" where
  "can_state_name st =
     (case st of
        CAN_STATE_ERROR_ACTIVE \<Rightarrow> ''error-active''
      | CAN_STATE_ERROR_WARNING \<Rightarrow> ''error-warning''
      | CAN_STATE_ERROR_PASSIVE \<Rightarrow> ''error-passive''
      | CAN_STATE_BUS_OFF \<Rightarrow> ''bus-off''
      | CAN_STATE_STOPPED \<Rightarrow> ''stopped''
      | CAN_STATE_OTHER \<Rightarrow> ''unknown'')"

text \<open>The printed line: state name and error counters.\<close>

definition can_state_change_cb :: "can_state \<Rightarrow> can_bus_err_cnt \<Rightarrow> string \<times> u8 \<times> u8" where
  "can_state_change_cb st err_cnt = (can_state_name st, tx_err_cnt err_cnt, rx_err_cnt err_cnt)"

definition can_service_send_internal ::
  "'w can_api \<Rightarrow> u32 \<Rightarrow> u8 \<Rightarrow> u8 list option \<Rightarrow> usize \<Rightarrow> 'w \<Rightarrow> int \<times> 'w" where
  "can_service_send_internal api ident flags data len w =
     (if data = None \<and> len > 0 then (- EINVAL, w)
      else if len > CAN_MAX_DLC then (- EINVAL, w)
      else if flags AND CAN_FRAME_IDE \<noteq> 0 \<and> ident > CAN_EXT_ID_MASK then (- EINVAL, w)
      else if flags AND CAN_FRAME_IDE = 0 \<and> ident > CAN_STD_ID_MASK then (- EINVAL, w)
      else
        let zero = replicate 8 0;
            frame = \<lparr>frm_id = ident, frm_dlc = can_bytes_to_dlc api (ucast len), frm_flags = flags,
              frm_data = (if len > 0 then mem_write zero 0 (take (unat len) (the data)) else zero)\<rparr> in
        can_send api frame w)"

definition can_service_init :: "'w can_api \<Rightarrow> can_svc \<Rightarrow> 'w \<Rightarrow> int \<times> can_svc \<times> 'w" where
  "can_service_init api s w =
     (if \<not> can_device_is_ready api w then (- ENODEV, s, w)
      else
        let w1 = can_set_state_change_callback api w;
            (ret, w2) = can_stop api w1 in
        if ret \<noteq> 0 \<and> ret \<noteq> - EALREADY then (ret, s, w2)
        else
          let (ret, w3) = can_set_mode api w2 in
          if ret \<noteq> 0 then (ret, s, w3)
          else
            let (ret, w4) = can_set_bitrate api (CAN_BITRATE api) w3 in
            if ret \<noteq> 0 then (ret, s, w4)
            else
              let (ret, s1, w5) = can_service_set_rx_filter_all api s w4 in
              if ret \<noteq> 0 then (ret, s1, w5)
              else
                let (ret, w6) = can_start api w5 in
                if ret \<noteq> 0 then (ret, s1, w6)
                else
                  let (ret, core_clk, w7) = can_get_core_clock api w6 in
                  (0, s1, w7))"

definition can_service_set_rx_filter ::
  "'w can_api \<Rightarrow> u32 \<Rightarrow> u32 \<Rightarrow> u8 \<Rightarrow> can_svc \<Rightarrow> 'w \<Rightarrow> int \<times> can_svc \<times> 'w" where
  "can_service_set_rx_filter api ident msk flags s w =
     (if flags AND CAN_FILTER_IDE \<noteq> 0 \<and> (ident > CAN_EXT_ID_MASK \<or> msk > CAN_EXT_ID_MASK)
        then (- EINVAL, s, w)
      else if flags AND CAN_FILTER_IDE = 0 \<and> (ident > CAN_STD_ID_MASK \<or> msk > CAN_STD_ID_MASK)
        then (- EINVAL, s, w)
      else
        let filter = \<lparr>flt_id = ident, flt_mask = msk, flt_flags = flags\<rparr>;
            (s1, w1) = can_remove_all_filters api s w;
            w2 = k_msgq_purge api w1;
            (filter_id, w3) = can_add_rx_filter_msgq api filter w2 in
        if filter_id < 0 then (filter_id, s1, w3)
        else if flags AND CAN_FILTER_IDE \<noteq> 0 then (0, s1\<lparr>can_rx_filter_ext_id := filter_id\<rparr>, w3)
        else (0, s1\<lparr>can_rx_filter_std_id := filter_id\<rparr>, w3))"

definition can_service_send :: "'w can_api \<Rightarrow> u32 \<Rightarrow> u8 list option \<Rightarrow> usize \<Rightarrow> 'w \<Rightarrow> int \<times> 'w" where
  "can_service_send api ident data len w = can_service_send_internal api ident 0 data len w"

definition can_service_send_ext :: "'w can_api \<Rightarrow> u32 \<Rightarrow> u8 list option \<Rightarrow> usize \<Rightarrow> 'w \<Rightarrow> int \<times> 'w" where
  "can_service_send_ext api ident data len w =
     can_service_send_internal api ident CAN_FRAME_IDE data len w"

definition can_service_read :: "'w can_api \<Rightarrow> bool \<Rightarrow> s64 \<Rightarrow> 'w \<Rightarrow> int \<times> can_frame option \<times> 'w" where
  "can_service_read api nonnull timeout w =
     (if \<not> nonnull then (- EINVAL, None, w) else k_msgq_get api timeout w)"

section \<open>The documented controller\<close>

text \<open>The installed filters by number, and the frames sent.\<close>

definition can_ok :: "'w can_api \<Rightarrow> ('w \<Rightarrow> int \<rightharpoonup> can_filter) \<Rightarrow> ('w \<Rightarrow> can_frame list) \<Rightarrow> bool" where
  "can_ok api flt sent \<longleftrightarrow>
     (\<forall>f w r w'. can_add_rx_filter_msgq api f w = (r, w') \<longrightarrow> sent w' = sent w \<and>
        (if r < 0 then flt w' = flt w else r \<notin> dom (flt w) \<and> flt w' = (flt w)(r \<mapsto> f))) \<and>
     (\<forall>i w. flt (can_remove_rx_filter api i w) = (flt w)(i := None) \<and>
        sent (can_remove_rx_filter api i w) = sent w) \<and>
     (\<forall>w. flt (k_msgq_purge api w) = flt w \<and> sent (k_msgq_purge api w) = sent w) \<and>
     (\<forall>w. flt (can_set_state_change_callback api w) = flt w) \<and>
     (\<forall>w r w'. can_stop api w = (r, w') \<longrightarrow> flt w' = flt w) \<and>
     (\<forall>w r w'. can_set_mode api w = (r, w') \<longrightarrow> flt w' = flt w) \<and>
     (\<forall>b w r w'. can_set_bitrate api b w = (r, w') \<longrightarrow> flt w' = flt w) \<and>
     (\<forall>w r w'. can_start api w = (r, w') \<longrightarrow> flt w' = flt w) \<and>
     (\<forall>w r c w'. can_get_core_clock api w = (r, c, w') \<longrightarrow> flt w' = flt w) \<and>
     (\<forall>f w r w'. can_send api f w = (r, w') \<longrightarrow> flt w' = flt w \<and>
        sent w' = (if r = 0 then sent w @ [f] else sent w))"

lemma can_okD:
  assumes "can_ok api flt sent"
  shows "can_add_rx_filter_msgq api f w = (r, w') \<Longrightarrow>
      if r < 0 then flt w' = flt w else r \<notin> dom (flt w) \<and> flt w' = (flt w)(r \<mapsto> f)"
    and "flt (can_remove_rx_filter api i w) = (flt w)(i := None)"
    and "flt (k_msgq_purge api w) = flt w" "flt (can_set_state_change_callback api w) = flt w"
    and "can_stop api w = (r, w') \<Longrightarrow> flt w' = flt w"
    and "can_set_mode api w = (r, w') \<Longrightarrow> flt w' = flt w"
    and "can_set_bitrate api b w = (r, w') \<Longrightarrow> flt w' = flt w"
    and "can_start api w = (r, w') \<Longrightarrow> flt w' = flt w"
    and "can_get_core_clock api w = (r, c, w') \<Longrightarrow> flt w' = flt w"
    and "can_send api fr w = (r, w') \<Longrightarrow> sent w' = (if r = 0 then sent w @ [fr] else sent w)"
  using assms unfolding can_ok_def by meson+

section \<open>Filter bookkeeping\<close>

text \<open>The service knows every filter it installed: none is leaked in the controller.\<close>

definition filters_known :: "can_svc \<Rightarrow> (int \<rightharpoonup> can_filter) \<Rightarrow> bool" where
  "filters_known s m \<longleftrightarrow>
     dom m = {i. 0 \<le> i \<and> (i = can_rx_filter_std_id s \<or> i = can_rx_filter_ext_id s)}"

lemma remove_all:
  assumes ok: "can_ok api flt sent" and known: "filters_known s (flt w)"
    and run: "can_remove_all_filters api s w = (s', w')"
  shows "flt w' = Map.empty \<and> \<not> 0 \<le> can_rx_filter_std_id s' \<and> \<not> 0 \<le> can_rx_filter_ext_id s'"
proof -
  have k: "flt w i = None" if "\<not> (0 \<le> i \<and> (i = can_rx_filter_std_id s \<or> i = can_rx_filter_ext_id s))" for i
    using known that unfolding filters_known_def by blast
  have "flt w' i = None" for i
    using run k [of i] by (auto simp: can_remove_all_filters_def can_okD(2) [OF ok] split: if_splits)
  then show ?thesis
    using run by (auto simp: can_remove_all_filters_def split: if_splits)
qed

lemma set_all:
  assumes ok: "can_ok api flt sent" and known: "filters_known s (flt w)"
    and run: "can_service_set_rx_filter_all api s w = (r, s', w')"
  shows "filters_known s' (flt w') \<and>
    (r = 0 \<longrightarrow> (\<exists>i. flt w' i = Some \<lparr>flt_id = 0, flt_mask = 0, flt_flags = 0\<rparr>))"
proof -
  let ?std = "\<lparr>flt_id = 0, flt_mask = 0, flt_flags = 0\<rparr> :: can_filter"
  let ?ext = "\<lparr>flt_id = 0, flt_mask = 0, flt_flags = CAN_FILTER_IDE\<rparr> :: can_filter"
  obtain s1 w1 where rm: "can_remove_all_filters api s w = (s1, w1)"
    by (cases "can_remove_all_filters api s w")
  obtain r1 w3 where a1: "can_add_rx_filter_msgq api ?std (k_msgq_purge api w1) = (r1, w3)"
    by (cases "can_add_rx_filter_msgq api ?std (k_msgq_purge api w1)")
  obtain r2 w4 where a2: "can_add_rx_filter_msgq api ?ext w3 = (r2, w4)"
    by (cases "can_add_rx_filter_msgq api ?ext w3")
  note none = remove_all [OF ok known rm]
  have w3: "if r1 < 0 then flt w3 = Map.empty else flt w3 = [r1 \<mapsto> ?std]"
    using can_okD(1) [OF ok a1] none by (simp add: can_okD(3) [OF ok] split: if_splits)
  have w4: "if r2 < 0 then flt w4 = flt w3 else r2 \<notin> dom (flt w3) \<and> flt w4 = (flt w3)(r2 \<mapsto> ?ext)"
    using can_okD(1) [OF ok a2] .
  show ?thesis
  proof (cases "r1 < 0")
    case True
    then show ?thesis using run none w3
      by (auto simp: can_service_set_rx_filter_all_def rm a1 filters_known_def Let_def)
  next
    case False
    then show ?thesis using run none w3 w4
      by (auto simp: can_service_set_rx_filter_all_def rm a1 a2 filters_known_def Let_def split: if_splits)
  qed
qed

lemma can_init_filters:
  assumes ok: "can_ok api flt sent" and known: "filters_known s (flt w)"
    and init: "can_service_init api s w = (r, s', w')"
  shows "filters_known s' (flt w') \<and>
    (r = 0 \<longrightarrow> (\<exists>i. flt w' i = Some \<lparr>flt_id = 0, flt_mask = 0, flt_flags = 0\<rparr>))"
proof -
  obtain r2 w2 where stop: "can_stop api (can_set_state_change_callback api w) = (r2, w2)"
    by (cases "can_stop api (can_set_state_change_callback api w)")
  obtain r3 w3 where mode: "can_set_mode api w2 = (r3, w3)" by (cases "can_set_mode api w2")
  obtain r4 w4 where rate: "can_set_bitrate api (CAN_BITRATE api) w3 = (r4, w4)"
    by (cases "can_set_bitrate api (CAN_BITRATE api) w3")
  obtain r5 s5 w5 where all: "can_service_set_rx_filter_all api s w4 = (r5, s5, w5)"
    by (cases "can_service_set_rx_filter_all api s w4")
  obtain r6 w6 where start: "can_start api w5 = (r6, w6)" by (cases "can_start api w5")
  obtain r7 c w7 where clk: "can_get_core_clock api w6 = (r7, c, w7)" by (cases "can_get_core_clock api w6")
  have f2: "flt w2 = flt w" using can_okD(5) [OF ok stop] can_okD(4) [OF ok] by simp
  have f3: "flt w3 = flt w" using can_okD(6) [OF ok mode] f2 by simp
  have f4: "flt w4 = flt w" using can_okD(7) [OF ok rate] f3 by simp
  have f7: "flt w7 = flt w5" "flt w6 = flt w5" using can_okD(9) [OF ok clk] can_okD(8) [OF ok start] by simp_all
  note set = set_all [OF ok known [folded f4] all]
  consider "r \<noteq> 0" "s' = s" "flt w' = flt w" | "s' = s5" "flt w' = flt w5" "r = 0 \<longrightarrow> r5 = 0"
    using init f2 f3 f4 f7
    by (auto simp: can_service_init_def stop mode rate all start clk Let_def split: if_splits)
  then show ?thesis
    using known set by cases simp_all
qed

section \<open>Properties\<close>

text \<open>
  C29. No acceptance filter is ever leaked: initialisation and every change of the filter,
  failed ones included, leave exactly the filters installed whose numbers the service
  still holds and will remove; after a successful initialisation standard frames are
  received.
\<close>

theorem can_filters_never_leak:
  assumes ok: "can_ok api flt sent" and known: "filters_known s (flt w)"
    and init: "can_service_init api s w = (r1, s1, w1)"
    and set: "can_service_set_rx_filter api ident msk flags s w = (r2, s2, w2)"
  shows "filters_known s1 (flt w1) \<and> filters_known s2 (flt w2) \<and>
    (r1 = 0 \<longrightarrow> (\<exists>i. flt w1 i = Some \<lparr>flt_id = 0, flt_mask = 0, flt_flags = 0\<rparr>))"
proof -
  have "filters_known s1 (flt w1) \<and>
    (r1 = 0 \<longrightarrow> (\<exists>i. flt w1 i = Some \<lparr>flt_id = 0, flt_mask = 0, flt_flags = 0\<rparr>))"
    using can_init_filters [OF ok known init] .
  moreover have "filters_known s2 (flt w2)"
  proof -
    obtain s3 w3 where rm: "can_remove_all_filters api s w = (s3, w3)"
      by (cases "can_remove_all_filters api s w")
    let ?f = "\<lparr>flt_id = ident, flt_mask = msk, flt_flags = flags\<rparr>"
    obtain i w4 where a: "can_add_rx_filter_msgq api ?f (k_msgq_purge api w3) = (i, w4)"
      by (cases "can_add_rx_filter_msgq api ?f (k_msgq_purge api w3)")
    note none = remove_all [OF ok known rm]
    show ?thesis
      using set known none can_okD(1) [OF ok a]
      by (auto simp: can_service_set_rx_filter_def rm a Let_def can_okD(3) [OF ok] filters_known_def split: if_splits)
  qed
  ultimately show ?thesis by blast
qed

text \<open>
  C31. Changing the filter replaces what is received: on success exactly the requested
  filter is installed. A request out of the identifier range changes nothing, and a request
  the controller refuses leaves no filter at all: the previous one is lost.
\<close>

theorem can_set_filter_replaces:
  assumes ok: "can_ok api flt sent" and known: "filters_known s (flt w)"
    and set: "can_service_set_rx_filter api ident msk flags s w = (r, s', w')"
  shows "let limit = (if flags AND CAN_FILTER_IDE \<noteq> 0 then CAN_EXT_ID_MASK else CAN_STD_ID_MASK) in
    if ident > limit \<or> msk > limit then r = - EINVAL \<and> s' = s \<and> w' = w
    else if r = 0 then ran (flt w') = {\<lparr>flt_id = ident, flt_mask = msk, flt_flags = flags\<rparr>}
    else flt w' = Map.empty"
proof -
  obtain s3 w3 where rm: "can_remove_all_filters api s w = (s3, w3)"
    by (cases "can_remove_all_filters api s w")
  let ?f = "\<lparr>flt_id = ident, flt_mask = msk, flt_flags = flags\<rparr>"
  obtain i w4 where a: "can_add_rx_filter_msgq api ?f (k_msgq_purge api w3) = (i, w4)"
    by (cases "can_add_rx_filter_msgq api ?f (k_msgq_purge api w3)")
  note none = remove_all [OF ok known rm]
  have w4: "if i < 0 then flt w4 = Map.empty else flt w4 = [i \<mapsto> ?f]"
    using can_okD(1) [OF ok a] none by (simp add: can_okD(3) [OF ok] split: if_splits)
  show ?thesis
    using set w4 by (auto simp: can_service_set_rx_filter_def rm a Let_def split: if_splits)
qed

text \<open>
  C30. Only valid frames reach the bus, and every valid call sends one: with at most 8 bytes, a
  data pointer unless the length is 0, and an identifier in the range of the format, exactly
  the frame with that identifier, the extended flag of the call and the caller's data padded
  with zeros is passed on, and sent when the call returns 0; a call with any other arguments,
  a null pointer with a length among them, returns \<open>-EINVAL\<close> and sends nothing.
\<close>

theorem can_sends_valid_frames:
  assumes ok: "can_ok api flt sent"
    and std: "can_service_send api ident data len w = (r1, w1)"
    and ext: "can_service_send_ext api ident data len w = (r2, w2)"
    and data: "\<And>d. data = Some d \<Longrightarrow> unat len \<le> length d"
  shows "let bytes = (case data of None \<Rightarrow> [] | Some d \<Rightarrow> take (unat len) d);
      frame = (\<lambda>ide. \<lparr>frm_id = ident, frm_dlc = can_bytes_to_dlc api (ucast len), frm_flags = ide,
        frm_data = bytes @ replicate (8 - length bytes) 0\<rparr>);
      valid = len \<le> 8 \<and> (data \<noteq> None \<or> len = 0) in
    (if valid \<and> ident \<le> CAN_STD_ID_MASK then sent w1 = (if r1 = 0 then sent w @ [frame 0] else sent w)
     else r1 = - EINVAL \<and> w1 = w) \<and>
    (if valid \<and> ident \<le> CAN_EXT_ID_MASK then sent w2 = (if r2 = 0 then sent w @ [frame CAN_FRAME_IDE] else sent w)
     else r2 = - EINVAL \<and> w2 = w)"
proof -
  define bytes where "bytes = (case data of None \<Rightarrow> [] | Some d \<Rightarrow> take (unat len) d)"
  define valid where "valid \<longleftrightarrow> len \<le> 8 \<and> (data \<noteq> None \<or> len = 0)"
  define frame where "frame ide = \<lparr>frm_id = ident, frm_dlc = can_bytes_to_dlc api (ucast len), frm_flags = ide,
    frm_data = bytes @ replicate (8 - length bytes) 0\<rparr>" for ide
  have pad: "(if 0 < len then mem_write (replicate 8 0) 0 (take (unat len) (the data)) else replicate 8 0) =
      bytes @ replicate (8 - length bytes) 0" if "valid"
    using that data
    by (cases data) (auto simp: valid_def bytes_def mem_write_def word_le_nat_alt word_gt_0 min_def)
  have s: "if valid \<and> ident \<le> CAN_STD_ID_MASK then can_send api (frame 0) w = (r1, w1) else r1 = - EINVAL \<and> w1 = w"
  proof (cases "valid \<and> ident \<le> CAN_STD_ID_MASK")
    case True
    then have v: "\<not> len > 8" "\<not> ident > CAN_STD_ID_MASK" "(data = None \<and> 0 < len) = False"
      by (auto simp: valid_def not_less)
    show ?thesis using std True
      by (simp add: can_service_send_def can_service_send_internal_def Let_def pad frame_def v)
  qed (use std in \<open>auto simp: can_service_send_def can_service_send_internal_def valid_def not_le word_gt_0 split: if_splits\<close>)
  have e: "if valid \<and> ident \<le> CAN_EXT_ID_MASK then can_send api (frame CAN_FRAME_IDE) w = (r2, w2)
      else r2 = - EINVAL \<and> w2 = w"
  proof (cases "valid \<and> ident \<le> CAN_EXT_ID_MASK")
    case True
    then have v: "\<not> len > 8" "\<not> ident > CAN_EXT_ID_MASK" "(data = None \<and> 0 < len) = False"
      by (auto simp: valid_def not_less)
    show ?thesis using ext True
      by (simp add: can_service_send_ext_def can_service_send_internal_def Let_def pad frame_def v)
  qed (use ext in \<open>auto simp: can_service_send_ext_def can_service_send_internal_def valid_def not_le word_gt_0 split: if_splits\<close>)
  have "if valid \<and> ident \<le> CAN_STD_ID_MASK then sent w1 = (if r1 = 0 then sent w @ [frame 0] else sent w)
      else r1 = - EINVAL \<and> w1 = w"
    using s can_okD(10) [OF ok, of "frame 0" w r1 w1] by presburger
  moreover have "if valid \<and> ident \<le> CAN_EXT_ID_MASK
      then sent w2 = (if r2 = 0 then sent w @ [frame CAN_FRAME_IDE] else sent w)
      else r2 = - EINVAL \<and> w2 = w"
    using e can_okD(10) [OF ok, of "frame CAN_FRAME_IDE" w r2 w2] by presburger
  ultimately show ?thesis unfolding Let_def valid_def bytes_def frame_def by blast
qed

section \<open>Witnesses\<close>

text \<open>A controller with two filter slots and a log of the frames sent.\<close>

type_synonym can_sim = "can_filter option \<times> can_filter option \<times> can_frame list"

definition sim_flt :: "can_sim \<Rightarrow> int \<rightharpoonup> can_filter" where
  "sim_flt w i = (if i = 0 then fst w else if i = 1 then fst (snd w) else None)"

definition sim_can :: "can_sim can_api" where
  "sim_can =
     \<lparr>can_device_is_ready = (\<lambda>w. True), can_set_state_change_callback = id, can_stop = (\<lambda>w. (- EALREADY, w)),
      can_set_mode = (\<lambda>w. (0, w)), can_set_bitrate = (\<lambda>b w. (0, w)),
      can_add_rx_filter_msgq = (\<lambda>f (a, b, x).
        if a = None then (0, Some f, b, x) else if b = None then (1, a, Some f, x) else (- ENOSPC, a, b, x)),
      can_remove_rx_filter = (\<lambda>i (a, b, x). (if i = 0 then None else a, if i = 1 then None else b, x)),
      k_msgq_purge = id, can_start = (\<lambda>w. (0, w)), can_get_core_clock = (\<lambda>w. (0, 80000000, w)),
      can_send = (\<lambda>f (a, b, x). (0, a, b, x @ [f])),
      k_msgq_get = (\<lambda>t w. (- 11, None, w)), can_bytes_to_dlc = id, CAN_BITRATE = 500000\<rparr>"

lemma sim_can_ok: "can_ok sim_can sim_flt (snd \<circ> snd)"
  by (auto simp: can_ok_def sim_can_def sim_flt_def fun_eq_iff split: if_splits)

definition sim_can_w :: can_sim where
  "sim_can_w = (Some \<lparr>flt_id = 5, flt_mask = 0x7FF, flt_flags = 0\<rparr>, None, [])"

definition sim_can_s :: can_svc where
  "sim_can_s = \<lparr>can_rx_filter_std_id = 0, can_rx_filter_ext_id = - 1\<rparr>"

lemma sim_can_known: "filters_known sim_can_s (sim_flt sim_can_w)"
  by (auto simp: filters_known_def sim_can_s_def sim_flt_def sim_can_w_def dom_def split: if_splits)

theorem can_filters_never_leak_witness:
  "\<exists>s1 w1 s2 w2. can_service_init sim_can sim_can_s sim_can_w = (0, s1, w1) \<and>
    can_service_set_rx_filter sim_can 0x1ABCDE 0x1FFFFF 1 sim_can_s sim_can_w = (0, s2, w2) \<and>
    filters_known s1 (sim_flt w1) \<and> filters_known s2 (sim_flt w2)"
proof -
  obtain s1 w1 where init: "can_service_init sim_can sim_can_s sim_can_w = (0, s1, w1)"
    by (simp add: can_service_init_def can_service_set_rx_filter_all_def can_remove_all_filters_def
        sim_can_def sim_can_s_def sim_can_w_def)
  obtain s2 w2 where set: "can_service_set_rx_filter sim_can 0x1ABCDE 0x1FFFFF 1 sim_can_s sim_can_w = (0, s2, w2)"
    by (simp add: can_service_set_rx_filter_def can_remove_all_filters_def
        sim_can_def sim_can_s_def sim_can_w_def)
  show ?thesis using can_filters_never_leak [OF sim_can_ok sim_can_known init set] init set by blast
qed

theorem can_set_filter_replaces_witness:
  "\<exists>s' w'. can_service_set_rx_filter sim_can 0x123 0x7FF 0 sim_can_s sim_can_w = (0, s', w') \<and>
    ran (sim_flt w') = {\<lparr>flt_id = 0x123, flt_mask = 0x7FF, flt_flags = 0\<rparr>}"
proof -
  obtain s' w' where set: "can_service_set_rx_filter sim_can 0x123 0x7FF 0 sim_can_s sim_can_w = (0, s', w')"
    by (simp add: can_service_set_rx_filter_def can_remove_all_filters_def
        sim_can_def sim_can_s_def sim_can_w_def)
  show ?thesis using can_set_filter_replaces [OF sim_can_ok sim_can_known set] set by simp
qed

theorem can_sends_valid_frames_witness:
  "\<exists>w2. can_service_send_ext sim_can 0x800 (Some [1, 2, 3]) 3 sim_can_w = (0, w2) \<and>
    map frm_data (snd (snd w2)) = [[1, 2, 3, 0, 0, 0, 0, 0]] \<and>
    can_service_send sim_can 0x800 (Some [1, 2, 3]) 3 sim_can_w = (- EINVAL, sim_can_w) \<and>
    can_service_send sim_can 1 None 3 sim_can_w = (- EINVAL, sim_can_w)"
proof -
  obtain w2 where ext: "can_service_send_ext sim_can 0x800 (Some [1, 2, 3]) 3 sim_can_w = (0, w2)"
    by (simp add: can_service_send_ext_def can_service_send_internal_def sim_can_def sim_can_w_def)
  obtain r1 w1 where std: "can_service_send sim_can 0x800 (Some [1, 2, 3]) 3 sim_can_w = (r1, w1)"
    by (cases "can_service_send sim_can 0x800 (Some [1, 2, 3]) 3 sim_can_w")
  obtain r3 w3 r4 w4 where null: "can_service_send sim_can 1 None 3 sim_can_w = (r3, w3)"
    "can_service_send_ext sim_can 1 None 3 sim_can_w = (r4, w4)"
    by (cases "can_service_send sim_can 1 None 3 sim_can_w", cases "can_service_send_ext sim_can 1 None 3 sim_can_w")
  have five: "replicate 5 (0 :: u8) = [0, 0, 0, 0, 0]" by (simp add: numeral_eq_Suc)
  have sent: "snd (snd sim_can_w) = []" by (simp add: sim_can_w_def)
  have "unat (3 :: usize) \<le> length d" if "Some [1, 2, 3 :: u8] = Some d" for d using that by auto
  from can_sends_valid_frames [OF sim_can_ok std ext this]
    can_sends_valid_frames [OF sim_can_ok null, unfolded Let_def, simplified] sent std ext null
  show ?thesis by (simp add: Let_def five)
qed

end
