(* ===== verification/QspiService.thy ===== *)
theory QspiService
  imports Prelude
begin

text \<open>
  The older QSPI test service, \<^verbatim>\<open>ATS-M7/src/qspi_service.c\<close>: appends padded records to
  the first 4 KiB of the flash and starts over with an erase when the window is full.
  Zephyr's flash driver is \<open>qspi_api\<close>. A call with undefined behaviour in C, the copy past
  the end of the 64-byte buffer or the division by a zero block size, is the value \<open>None\<close>.
\<close>

section \<open>The platform interface\<close>

record 'w qspi_api =
  qs_device_is_ready :: "'w \<Rightarrow> bool"
  qs_write_block_size :: "'w \<Rightarrow> usize"
  qs_page_info :: "u32 \<Rightarrow> 'w \<Rightarrow> int \<times> usize"
  qs_read :: "u32 \<Rightarrow> usize \<Rightarrow> 'w \<Rightarrow> int \<times> u8 list \<times> 'w"
  qs_write :: "u32 \<Rightarrow> u8 list \<Rightarrow> usize \<Rightarrow> 'w \<Rightarrow> int \<times> 'w"
  qs_erase :: "u32 \<Rightarrow> u32 \<Rightarrow> 'w \<Rightarrow> int \<times> 'w"

section \<open>State and operations\<close>

abbreviation (input) QSPI_BASE_OFF :: u32 where "QSPI_BASE_OFF \<equiv> 0"
abbreviation (input) QSPI_REGION_SIZE :: u32 where "QSPI_REGION_SIZE \<equiv> 4096"
abbreviation (input) QSPI_BUF_SIZE :: nat where "QSPI_BUF_SIZE \<equiv> 64"  \<comment> \<open>\<^verbatim>\<open>RX_BUF_SIZE\<close>\<close>

record qspi_svc =
  qspi_erase_size :: u32
  qspi_write_block :: u32
  qspi_write_off :: u32

definition qspi_svc0 :: qspi_svc where
  "qspi_svc0 = \<lparr>qspi_erase_size = 0, qspi_write_block = 0, qspi_write_off = 0\<rparr>"

text \<open>The printed lines: an address with the bytes there, or that a read failed.\<close>

datatype qspi_line = QspiLine u32 "u8 list" | QspiReadFailed

partial_function (option) qspi_dump_loop ::
  "'w qspi_api \<Rightarrow> u32 \<Rightarrow> usize \<Rightarrow> usize \<Rightarrow> qspi_line list \<Rightarrow> 'w \<Rightarrow> (qspi_line list \<times> 'w) option" where
  "qspi_dump_loop api off len i out w =
     (if i < len then
        (case qs_read api (off + i) (if len - i > 16 then 16 else len - i) w of (r, d, w1) \<Rightarrow>
         if r \<noteq> 0 then Some (out @ [QspiReadFailed], w1)
         else qspi_dump_loop api off len (i + 16) (out @ [QspiLine (off + i) d]) w1)
      else Some (out, w))"

definition qspi_service_dump :: "'w qspi_api \<Rightarrow> u32 \<Rightarrow> usize \<Rightarrow> 'w \<Rightarrow> (qspi_line list \<times> 'w) option" where
  "qspi_service_dump api off len w = qspi_dump_loop api off len 0 [] w"

definition qspi_service_init :: "'w qspi_api \<Rightarrow> qspi_svc \<Rightarrow> 'w \<Rightarrow> int \<times> qspi_svc" where
  "qspi_service_init api s w =
     (if \<not> qs_device_is_ready api w then (- ENODEV, s)
      else
        let s1 = s\<lparr>qspi_write_block := qs_write_block_size api w\<rparr>;
            (ret, page_size) = qs_page_info api QSPI_BASE_OFF w in
        if ret \<noteq> 0 then (- EIO, s1)
        else (0, s1\<lparr>qspi_erase_size := page_size, qspi_write_off := QSPI_BASE_OFF\<rparr>))"

definition qspi_service_erase :: "'w qspi_api \<Rightarrow> qspi_svc \<Rightarrow> 'w \<Rightarrow> int \<times> 'w" where
  "qspi_service_erase api s w = qs_erase api QSPI_BASE_OFF (qspi_erase_size s) w"

definition qspi_padded :: "usize \<Rightarrow> u32 \<Rightarrow> usize" where
  "qspi_padded len block =
     (if len mod block \<noteq> 0 then ((len + block - 1) div block) * block else len)"

definition qspi_service_write ::
  "'w qspi_api \<Rightarrow> u8 list \<Rightarrow> usize \<Rightarrow> qspi_svc \<Rightarrow> 'w \<Rightarrow> (int \<times> qspi_svc \<times> 'w) option" where
  "qspi_service_write api data len s w =
     (if unat len > QSPI_BUF_SIZE then None
      else if qspi_write_block s = 0 then None
      else
        let padded = qspi_padded len (qspi_write_block s) in
        if unat padded > QSPI_BUF_SIZE then None
        else
          let tmp = take (unat len) data @ replicate (unat padded - unat len) 0xFF;
              (s1, w1) =
                (if qspi_write_off s + padded > QSPI_BASE_OFF + QSPI_REGION_SIZE
                 then (s\<lparr>qspi_write_off := QSPI_BASE_OFF\<rparr>, snd (qspi_service_erase api s w))
                 else (s, w));
              (ret, w2) = qs_write api (qspi_write_off s1) tmp padded w1 in
          if ret \<noteq> 0 then Some (- EIO, s1, w2)
          else Some (0, s1\<lparr>qspi_write_off := qspi_write_off s1 + padded\<rparr>, w2))"

section \<open>The documented flash\<close>

definition qspi_ok :: "'w qspi_api \<Rightarrow> ('w \<Rightarrow> nat \<Rightarrow> u8) \<Rightarrow> bool" where
  "qspi_ok api mem \<longleftrightarrow>
     (\<forall>off buf n w r w'. qs_write api off buf n w = (r, w') \<longrightarrow>
        (\<forall>i. i \<notin> {unat off ..< unat off + unat n} \<longrightarrow> mem w' i = mem w i) \<and>
        (r = 0 \<longrightarrow> (\<forall>i < unat n. mem w (unat off + i) = 255 \<longrightarrow> mem w' (unat off + i) = buf ! i))) \<and>
     (\<forall>off n w r w'. qs_erase api off n w = (r, w') \<longrightarrow>
        (\<forall>i. i \<notin> {unat off ..< unat off + unat n} \<longrightarrow> mem w' i = mem w i) \<and>
        (r = 0 \<longrightarrow> (\<forall>i \<in> {unat off ..< unat off + unat n}. mem w' i = 255)))"

lemma qspi_write_keeps:
  "qspi_ok api mem \<Longrightarrow> qs_write api off buf n w = (r, w') \<Longrightarrow> i < unat off \<or> unat off + unat n \<le> i \<Longrightarrow>
    mem w' i = mem w i"
proof -
  assume "qspi_ok api mem" "qs_write api off buf n w = (r, w')"
  then have "\<forall>i. i \<notin> {unat off ..< unat off + unat n} \<longrightarrow> mem w' i = mem w i"
    unfolding qspi_ok_def by blast
  moreover assume "i < unat off \<or> unat off + unat n \<le> i"
  ultimately show ?thesis by auto
qed

lemma qspi_write_stores:
  "qspi_ok api mem \<Longrightarrow> qs_write api off buf n w = (0, w') \<Longrightarrow> i < unat n \<Longrightarrow> mem w (unat off + i) = 255 \<Longrightarrow>
    mem w' (unat off + i) = buf ! i"
  by (simp add: qspi_ok_def)

lemma qspi_erase_erases:
  "qspi_ok api mem \<Longrightarrow> qs_erase api off n w = (0, w') \<Longrightarrow> i \<in> {unat off ..< unat off + unat n} \<Longrightarrow> mem w' i = 255"
  by (simp add: qspi_ok_def)

section \<open>Padding\<close>

lemma ceil_div_mult: "(b * k + b - 1) div b = k" if "0 < b" for b k :: nat
proof -
  have "b * k + b - 1 = (b - 1) + k * b" using that by (simp add: mult.commute)
  moreover have "((b - 1) + k * b) div b = k" using that by (subst div_mult_self1) simp_all
  ultimately show ?thesis by (simp only:)
qed

lemma qspi_padded_nat:
  assumes "0 < unat block" and "unat len + unat block \<le> 2 ^ 32"
  shows "unat (qspi_padded len block) = (unat len + unat block - 1) div unat block * unat block"
proof (cases "len mod block = 0")
  case True
  then have "unat len mod unat block = 0" by (metis unat_mod unat_0)
  then obtain k where k: "unat len = unat block * k" by (metis mod_0_imp_dvd dvdE)
  have "(unat block * k + unat block - 1) div unat block = k"
    using assms(1) ceil_div_mult [of "unat block" k] by simp
  then show ?thesis using True k by (simp add: qspi_padded_def mult.commute)
next
  case False
  have sum: "unat (len + block - 1) = unat len + unat block - 1"
  proof -
    have "unat (block - 1) = unat block - 1" using assms(1) unat_minus_one [of block] by (auto simp: unat_gt_0)
    then have "unat (len + (block - 1)) = unat len + (unat block - 1)"
      using assms by (simp add: unat_word_ariths(1))
    then show ?thesis using assms(1) by (simp add: add_diff_eq)
  qed
  have "(unat len + unat block - 1) div unat block * unat block \<le> unat len + unat block - 1" by simp
  then have "(unat len + unat block - 1) div unat block * unat block < 2 ^ 32" using assms by linarith
  then have "unat ((len + block - 1) div block * block) = (unat len + unat block - 1) div unat block * unat block"
    unfolding unat_word_ariths(2) unat_div_distrib sum by (intro mod_less) simp
  then show ?thesis using False by (simp only: qspi_padded_def if_True simp_thms)
qed

lemma qspi_padded_bounds:
  assumes "0 < unat block" and "unat block dvd (64 :: nat)" and "unat len \<le> 64"
  shows "unat len \<le> unat (qspi_padded len block) \<and> unat (qspi_padded len block) \<le> 64 \<and>
    unat block dvd unat (qspi_padded len block)"
proof -
  let ?b = "unat block" and ?n = "unat len"
  have b: "?b \<le> 64" using assms(2) dvd_imp_le by fastforce
  have p: "unat (qspi_padded len block) = (?n + ?b - 1) div ?b * ?b"
    using assms b by (intro qspi_padded_nat) simp_all
  have "?n \<le> (?n + ?b - 1) div ?b * ?b"
  proof -
    have "(?n + ?b - 1) div ?b * ?b + (?n + ?b - 1) mod ?b = ?n + ?b - 1" by simp
    moreover have "(?n + ?b - 1) mod ?b < ?b" using assms(1) by simp
    ultimately show ?thesis by linarith
  qed
  moreover have "(?n + ?b - 1) div ?b \<le> 64 div ?b"
  proof -
    obtain k where k: "(64 :: nat) = ?b * k" using assms(2) by (rule dvdE)
    have "(?n + ?b - 1) div ?b < Suc k" using assms k by (simp add: div_less_iff_less_mult algebra_simps)
    moreover have "64 div ?b = k" using k assms(1) by (metis nonzero_mult_div_cancel_left not_gr_zero)
    ultimately show ?thesis by simp
  qed
  then have "(?n + ?b - 1) div ?b * ?b \<le> 64"
    by (metis assms(2) dvd_div_mult_self mult_le_mono1)
  ultimately show ?thesis using p by simp
qed

section \<open>Properties\<close>

text \<open>
  The service is up: its write offset is inside the window, the erase block covers the
  window, and everything from the offset to the end of the window is erased.
\<close>

definition qspi_up :: "qspi_svc \<Rightarrow> (nat \<Rightarrow> u8) \<Rightarrow> bool" where
  "qspi_up s mem \<longleftrightarrow> 0 < unat (qspi_write_block s) \<and> unat (qspi_write_block s) dvd 64 \<and>
     unat (qspi_write_off s) \<le> 4096 \<and> 4096 \<le> unat (qspi_erase_size s) \<and>
     (\<forall>i \<in> {unat (qspi_write_off s) ..< 4096}. mem i = 255)"

text \<open>What a write does before it counts the offset on: maybe an erase, then one program.\<close>

lemma qspi_write_call:
  assumes run: "qspi_service_write api data len s w = Some (0, s', w')"
    and "qspi_write_block s \<noteq> 0" and "unat len \<le> 64"
    and p: "p = qspi_padded len (qspi_write_block s)" "unat p \<le> 64"
    and s1: "s1 = (if 4096 < qspi_write_off s + p then s\<lparr>qspi_write_off := QSPI_BASE_OFF\<rparr> else s)"
    and w1: "w1 = (if 4096 < qspi_write_off s + p then snd (qspi_service_erase api s w) else w)"
  shows "qs_write api (qspi_write_off s1) (take (unat len) data @ replicate (unat p - unat len) 255) p w1 = (0, w')"
    and "s' = s1\<lparr>qspi_write_off := qspi_write_off s1 + p\<rparr>"
  using assms unfolding qspi_service_write_def Let_def by (simp_all split: if_splits prod.splits)

lemma qspi_room_erased:
  assumes ok: "qspi_ok api mem" and up: "qspi_up s (mem w)"
    and erased: "wrap \<Longrightarrow> fst (qspi_service_erase api s w) = 0"
    and w1: "w1 = (if wrap then snd (qspi_service_erase api s w) else w)"
    and off: "off = (if wrap then 0 else unat (qspi_write_off s))" and i: "off \<le> i" "i < 4096"
  shows "mem w1 i = 255"
proof (cases wrap)
  case True
  obtain w2 where e: "qs_erase api QSPI_BASE_OFF (qspi_erase_size s) w = (0, w2)"
    using erased [OF True] unfolding qspi_service_erase_def by (metis prod.collapse)
  then have "w1 = w2" using True by (simp add: w1 qspi_service_erase_def)
  then show ?thesis using qspi_erase_erases [OF ok e, of i] up i by (simp add: qspi_up_def)
next
  case False
  then show ?thesis using up i by (simp add: w1 off qspi_up_def)
qed

lemma qspi_write_none:
  assumes "qspi_up s m"
  shows "qspi_service_write api data len s w = None \<longleftrightarrow> 64 < unat len"
proof -
  have u: "0 < unat (qspi_write_block s)" "unat (qspi_write_block s) dvd 64" using assms by (simp_all add: qspi_up_def)
  then have "qspi_write_block s \<noteq> 0" by auto
  then show ?thesis
    using qspi_padded_bounds [OF u, of len]
    by (auto simp: qspi_service_write_def Let_def not_less split: prod.splits if_splits)
qed

text \<open>
  Where a record goes: \<open>wrap\<close> tells that the window is full, \<open>off\<close> is the offset it is
  programmed at, and \<open>w1\<close> the flash at that time, after the erase if there was one.
\<close>

lemma qspi_write_stored:
  assumes ok: "qspi_ok api mem" and up: "qspi_up s (mem w)"
    and run: "qspi_service_write api data len s w = Some (0, s', w')" and len: "unat len \<le> length data"
    and n: "n = unat (qspi_padded len (qspi_write_block s))" and wrap: "wrap \<longleftrightarrow> 4096 < unat (qspi_write_off s) + n"
    and off: "off = (if wrap then 0 else unat (qspi_write_off s))"
    and w1: "w1 = (if wrap then snd (qspi_service_erase api s w) else w)"
    and rec: "rec = take (unat len) data @ replicate (n - unat len) 255"
  shows "off + n \<le> 4096" and "unat (qspi_write_off s') = off + n"
    and "\<And>i. i < off \<or> off + n \<le> i \<Longrightarrow> mem w' i = mem w1 i"
    and "\<And>i. i < n \<Longrightarrow> mem w1 (off + i) = 255 \<Longrightarrow> mem w' (off + i) = rec ! i"
    and "wrap \<longrightarrow> fst (qspi_service_erase api s w) = 0 \<Longrightarrow>
      qspi_up s' (mem w') \<and> map (mem w') [off ..< off + n] = rec"
proof -
  let ?p = "qspi_padded len (qspi_write_block s)" and ?o = "unat (qspi_write_off s)"
  have u: "0 < unat (qspi_write_block s)" "unat (qspi_write_block s) dvd 64" "?o \<le> 4096"
    "4096 \<le> unat (qspi_erase_size s)" using up by (simp_all add: qspi_up_def)
  have nz: "qspi_write_block s \<noteq> 0" using u(1) by auto
  note pad = qspi_padded_bounds [OF u(1,2)]
  have l64: "unat len \<le> 64" using qspi_write_none [OF up, of api data len w] run by (metis option.distinct(1) not_less)
  have n64: "n \<le> 64" "unat len \<le> n" using pad [OF l64] by (simp_all add: n)
  have lrec: "length rec = n" using n64 len by (simp add: rec)
  have sum: "unat (qspi_write_off s + ?p) = ?o + n" using u(3) n64 by (simp add: unat_word_ariths(1) n)
  have wrap': "(4096 < qspi_write_off s + ?p) = wrap" using sum by (simp add: word_less_nat_alt wrap)
  define s1 where "s1 = (if wrap then s\<lparr>qspi_write_off := QSPI_BASE_OFF\<rparr> else s)"
  show fits: "off + n \<le> 4096" using n64 by (auto simp: off wrap)
  have off1: "unat (qspi_write_off s1) = off" by (simp add: s1_def off)
  note call = qspi_write_call [OF run nz l64 refl n64(1) [unfolded n] s1_def [folded wrap'] w1 [folded wrap']]
  note wr = call(1) [folded n, folded rec] and s' = call(2)
  show off': "unat (qspi_write_off s') = off + n" using off1 s' n64 fits by (simp add: unat_word_ariths(1) n)
  show kept: "mem w' i = mem w1 i" if "i < off \<or> off + n \<le> i" for i
    using qspi_write_keeps [OF ok wr, of i] that off1 by (auto simp: n)
  show stored: "mem w' (off + i) = rec ! i" if "i < n" "mem w1 (off + i) = 255" for i
    using qspi_write_stores [OF ok wr, of i] that off1 by (simp add: n)
  assume e: "wrap \<longrightarrow> fst (qspi_service_erase api s w) = 0"
  note erased = qspi_room_erased [OF ok up mp [OF e] w1 off]
  have "map (mem w') [off ..< off + n] = rec"
    using stored lrec erased fits by (intro nth_equalityI) simp_all
  moreover have "qspi_up s' (mem w')"
    using u s' off' fits kept erased by (auto simp: qspi_up_def s1_def)
  ultimately show "qspi_up s' (mem w') \<and> map (mem w') [off ..< off + n] = rec" by simp
qed

text \<open>
  C35. On a flash whose write block divides the buffer, a record longer than the 64-byte buffer
  is undefined behaviour, every other one is written or refused with \<open>-EIO\<close> and the offset not
  counted on. A record is programmed at the offset, or at the start of the window after an
  erase when it does not fit any more, always inside the window; the bytes around it are left
  alone. Without an erase, or when the erase succeeded, it is stored there as a whole, padded
  with \<open>0xFF\<close>, behind the earlier records, and the service is ready for the next one. When the
  erase failed the call still goes on: it programs over the old data and returns 0, and only
  the bytes that happened to be erased are those of the record.
\<close>

theorem qspi_write_appends:
  assumes ok: "qspi_ok api mem" and up: "qspi_up s (mem w)" and len: "unat len \<le> length data"
    and n: "n = unat (qspi_padded len (qspi_write_block s))" and wrap: "wrap \<longleftrightarrow> 4096 < unat (qspi_write_off s) + n"
    and off: "off = (if wrap then 0 else unat (qspi_write_off s))"
    and w1: "w1 = (if wrap then snd (qspi_service_erase api s w) else w)"
    and rec: "rec = take (unat len) data @ replicate (n - unat len) 255"
  shows "case qspi_service_write api data len s w of
      None \<Rightarrow> 64 < unat len
    | Some (r, s', w') \<Rightarrow> unat len \<le> 64 \<and>
        (r \<noteq> 0 \<longrightarrow> r = - EIO \<and> unat (qspi_write_off s') = off) \<and>
        (r = 0 \<longrightarrow> off + n \<le> 4096 \<and> unat (qspi_write_off s') = off + n \<and>
          (\<forall>i. i < off \<or> off + n \<le> i \<longrightarrow> mem w' i = mem w1 i) \<and>
          (if wrap \<and> fst (qspi_service_erase api s w) \<noteq> 0
           then \<forall>i < n. mem w1 i = 255 \<longrightarrow> mem w' i = rec ! i
           else qspi_up s' (mem w') \<and> map (mem w') [off ..< off + n] = rec))"
proof (cases "qspi_service_write api data len s w")
  case None
  then show ?thesis using qspi_write_none [OF up, of api data len w] by simp
next
  case (Some x)
  obtain r s' w' where x: "x = (r, s', w')" by (cases x)
  have l64: "unat len \<le> 64" using qspi_write_none [OF up, of api data len w] Some by (metis option.distinct(1) not_less)
  show ?thesis
  proof (cases "r = 0")
    case True
    note st = qspi_write_stored [OF ok up Some [unfolded x True] len n wrap off w1 rec]
    have "\<forall>i < n. mem w1 i = 255 \<longrightarrow> mem w' i = rec ! i" if wrap using st(4) that off by simp
    then show ?thesis using st(1-3,5) l64 Some x True by auto
  next
    case False
    have u: "0 < unat (qspi_write_block s)" "unat (qspi_write_block s) dvd 64" "unat (qspi_write_off s) \<le> 4096"
      using up by (simp_all add: qspi_up_def)
    have "n \<le> 64" using qspi_padded_bounds [OF u(1,2) l64] by (simp add: n)
    then have "unat (qspi_write_off s + qspi_padded len (qspi_write_block s)) = unat (qspi_write_off s) + n"
      using u(3) by (simp add: unat_word_ariths(1) n)
    then have "(4096 < qspi_write_off s + qspi_padded len (qspi_write_block s)) = wrap"
      by (simp add: word_less_nat_alt wrap)
    then have "r = - EIO \<and> unat (qspi_write_off s') = off"
      using Some False by (auto simp: x qspi_service_write_def Let_def off split: if_splits prod.splits)
    then show ?thesis using l64 Some x False by simp
  qed
qed

text \<open>
  A dump of a range that is not within 16 bytes of the size of the address type ends,
  and prints consecutive lines of at most 16 bytes that cover the range, up to the first
  read that fails.
\<close>

theorem qspi_dump_ends:
  assumes "unat len \<le> 2 ^ 32 - 16"
  shows "\<exists>out w'. qspi_service_dump api off len w = Some (out, w') \<and>
    (\<forall>k < length out. out ! k = QspiReadFailed \<and> Suc k = length out \<or>
       (\<exists>d. out ! k = QspiLine (off + of_nat (16 * k)) d)) \<and>
    (QspiReadFailed \<notin> set out \<longrightarrow> length out = (unat len + 15) div 16)"
proof -
  define good where "good acc \<longleftrightarrow> (\<forall>k < length acc. \<exists>d. acc ! k = QspiLine (off + of_nat (16 * k)) d)"
    for acc
  have "\<exists>out w'. qspi_dump_loop api off len i acc w = Some (out, w') \<and>
      (good out \<and> length out = (unat len + 15) div 16 \<or>
       (\<exists>acc'. good acc' \<and> out = acc' @ [QspiReadFailed]))"
    if "unat i = 16 * length acc" "good acc" "unat i < unat len + 16" for i acc w
    using that
  proof (induction "unat len + 16 - unat i" arbitrary: i acc w rule: less_induct)
    case less
    show ?case
    proof (cases "i < len")
      case True
      obtain r d w1 where rd: "qs_read api (off + i) (if len - i > 16 then 16 else len - i) w = (r, d, w1)"
        by (cases "qs_read api (off + i) (if len - i > 16 then 16 else len - i) w")
      show ?thesis
      proof (cases "r = 0")
        case r: True
        have lt: "unat i < unat len" using True by (simp add: word_less_nat_alt)
        then have i: "unat (i + 16) = unat i + 16" using assms by (simp add: unat_word_ariths(1))
        have "of_nat (16 * length acc) = i" using less.prems(1) by (metis of_nat_unat ucast_id)
        then have "good (acc @ [QspiLine (off + i) d])"
          using less.prems(2) by (auto simp: good_def nth_append less_Suc_eq)
        moreover have "unat (i + 16) = 16 * length (acc @ [QspiLine (off + i) d])"
          using i less.prems(1) by simp
        moreover have "unat len + 16 - unat (i + 16) < unat len + 16 - unat i" using i lt by simp
        ultimately show ?thesis
          using less.hyps [of "i + 16" "acc @ [QspiLine (off + i) d]" w1] i lt rd True r
          by (subst qspi_dump_loop.simps) simp
      next
        case False
        then show ?thesis using rd True less.prems(2) by (subst qspi_dump_loop.simps) auto
      qed
    next
      case False
      then have "unat len \<le> 16 * length acc" "16 * length acc < unat len + 16"
        using less.prems by (simp_all add: word_less_nat_alt)
      then have "length acc = (unat len + 15) div 16" by linarith
      then show ?thesis using False less.prems(2) by (subst qspi_dump_loop.simps) simp
    qed
  qed
  from this [of 0 "[]" w] obtain out w' where run: "qspi_service_dump api off len w = Some (out, w')"
    and out: "good out \<and> length out = (unat len + 15) div 16 \<or> (\<exists>acc'. good acc' \<and> out = acc' @ [QspiReadFailed])"
    by (auto simp: qspi_service_dump_def good_def)
  show ?thesis
  proof (rule exI [of _ out], rule exI [of _ w'], intro conjI run)
    show "\<forall>k < length out. out ! k = QspiReadFailed \<and> Suc k = length out \<or>
        (\<exists>d. out ! k = QspiLine (off + of_nat (16 * k)) d)"
      using out
    proof (elim disjE exE conjE)
      fix acc' assume "good acc'" "out = acc' @ [QspiReadFailed]"
      then show ?thesis unfolding good_def by (auto simp: nth_append less_Suc_eq simp del: of_nat_mult)
    qed (auto simp: good_def)
    show "QspiReadFailed \<notin> set out \<longrightarrow> length out = (unat len + 15) div 16"
      using out by auto
  qed
qed

section \<open>Witnesses\<close>

text \<open>A flash as a memory: programming clears bits, erasing sets a range to \<open>0xFF\<close>.\<close>

definition sim_qspi :: "(nat \<Rightarrow> u8) qspi_api" where
  "sim_qspi =
     \<lparr>qs_device_is_ready = (\<lambda>w. True), qs_write_block_size = (\<lambda>w. 4), qs_page_info = (\<lambda>off w. (0, 65536)),
      qs_read = (\<lambda>off n w. (0, map w [unat off ..< unat off + unat n], w)),
      qs_write = (\<lambda>off d n w. (0, \<lambda>i. if unat off \<le> i \<and> i < unat off + unat n
        then and (w i) (d ! (i - unat off)) else w i)),
      qs_erase = (\<lambda>off n w. (0, \<lambda>i. if unat off \<le> i \<and> i < unat off + unat n then 255 else w i))\<rparr>"

lemma and_255: "and (255 :: u8) x = x"
proof -
  have "(255 :: u8) = - 1" by simp
  then show ?thesis by (simp only: and.left_neutral)
qed

lemma sim_qspi_ok: "qspi_ok sim_qspi (\<lambda>w. w)"
  by (auto simp: qspi_ok_def sim_qspi_def and_255)

definition sim_qspi_s :: qspi_svc where
  "sim_qspi_s = \<lparr>qspi_erase_size = 65536, qspi_write_block = 4, qspi_write_off = 4092\<rparr>"

lemma sim_qspi_up: "qspi_up sim_qspi_s (\<lambda>i. 255)"
  by (simp add: qspi_up_def sim_qspi_s_def)

text \<open>The same flash with an erase that fails and leaves the old data.\<close>

definition sim_qspi_worn :: "(nat \<Rightarrow> u8) qspi_api" where
  "sim_qspi_worn = sim_qspi\<lparr>qs_erase := \<lambda>off n w. (- EIO, w)\<rparr>"

definition sim_old :: "nat \<Rightarrow> u8" where
  "sim_old i = (if i = 1 then 0xF0 else 255)"

lemma sim_worn_ok: "qspi_ok sim_qspi_worn (\<lambda>w. w)"
  by (auto simp: qspi_ok_def sim_qspi_worn_def sim_qspi_def and_255)

lemma sim_old_up: "qspi_up sim_qspi_s sim_old"
  by (simp add: qspi_up_def sim_qspi_s_def sim_old_def)

theorem qspi_write_appends_witness:
  "(\<exists>s' w'. qspi_service_write sim_qspi [1, 2, 3, 4, 5] 5 sim_qspi_s sim_old = Some (0, s', w') \<and>
     qspi_up s' w' \<and> map w' [0 ..< 8] = [1, 2, 3, 4, 5] @ replicate 3 255) \<and>
   (\<exists>s' w'. qspi_service_write sim_qspi_worn [1, 2, 3, 4, 5] 5 sim_qspi_s sim_old = Some (0, s', w') \<and>
     unat (qspi_write_off s') = 8 \<and> w' 0 = 1 \<and> w' 1 = 0)"
proof (rule conjI)
  have pad: "qspi_padded 5 4 = 8" by (simp add: qspi_padded_def)
  let ?rec = "take (unat (5 :: usize)) [1, 2, 3, 4, 5] @ replicate (8 - unat (5 :: usize)) 255 :: u8 list"
  have len: "unat (5 :: usize) \<le> length [1, 2, 3, 4, 5 :: u8]" by simp
  have n: "8 = unat (qspi_padded 5 (qspi_write_block sim_qspi_s))" by (simp add: pad sim_qspi_s_def)
  have wrap: "True \<longleftrightarrow> 4096 < unat (qspi_write_off sim_qspi_s) + 8" by (simp add: sim_qspi_s_def)
  have off: "0 = (if True then 0 else unat (qspi_write_off sim_qspi_s))" by simp
  have up: "qspi_up sim_qspi_s ((\<lambda>w. w) sim_old)" using sim_old_up .
  note call = qspi_write_appends [where mem = "\<lambda>w. w" and n = 8 and wrap = True and off = 0,
      OF _ up len n wrap off refl refl]
  obtain s' w' where run: "qspi_service_write sim_qspi [1, 2, 3, 4, 5] 5 sim_qspi_s sim_old = Some (0, s', w')"
    by (simp add: qspi_service_write_def pad sim_qspi_s_def qspi_service_erase_def sim_qspi_def Let_def)
  have "fst (qspi_service_erase sim_qspi sim_qspi_s sim_old) = 0" by (simp add: qspi_service_erase_def sim_qspi_def)
  then show "\<exists>s' w'. qspi_service_write sim_qspi [1, 2, 3, 4, 5] 5 sim_qspi_s sim_old = Some (0, s', w') \<and>
     qspi_up s' w' \<and> map w' [0 ..< 8] = [1, 2, 3, 4, 5] @ replicate 3 255"
    using call [OF sim_qspi_ok] run by simp
  let ?w = "\<lambda>i. if i < 8 then and (sim_old i) (?rec ! i) else sim_old i"
  have run: "qspi_service_write sim_qspi_worn [1, 2, 3, 4, 5] 5 sim_qspi_s sim_old =
      Some (0, sim_qspi_s\<lparr>qspi_write_off := 8\<rparr>, ?w)"
    by (simp add: qspi_service_write_def pad sim_qspi_s_def qspi_service_erase_def sim_qspi_worn_def sim_qspi_def Let_def
        fun_eq_iff)
  have "?w 1 = 0" by (simp add: sim_old_def)
  moreover have "?w 0 = 1"
    using call [OF sim_worn_ok] run
    by (simp add: sim_old_def qspi_service_erase_def sim_qspi_worn_def)
  ultimately show "\<exists>s' w'. qspi_service_write sim_qspi_worn [1, 2, 3, 4, 5] 5 sim_qspi_s sim_old = Some (0, s', w') \<and>
     unat (qspi_write_off s') = 8 \<and> w' 0 = 1 \<and> w' 1 = 0"
    using run by (intro exI conjI) (assumption | simp)+
qed

theorem qspi_dump_ends_witness:
  "\<exists>out w'. qspi_service_dump sim_qspi 0x1000 40 (\<lambda>i. of_nat i) = Some (out, w') \<and>
    (QspiReadFailed \<notin> set out \<longrightarrow> length out = 3)"
proof -
  have "unat (40 :: usize) \<le> 2 ^ 32 - 16" by simp
  from qspi_dump_ends [OF this, where api = sim_qspi and off = "0x1000" and w = "\<lambda>i. of_nat i"] show ?thesis by auto
qed

end
