(* ===== verification/Spec2Isabelle.thy ===== *)
theory Spec2Isabelle
  imports ModbusExchange ModbusInterleaved ModbusProgress FlashSelfTest FlashIdent FalStore PointsDb
    ExampleApp CanService QspiService
begin

text \<open>
  \<^bold>\<open>Verification library of the Zephyr firmware in this repository.\<close>

  The repository holds two firmwares for one board. The controller \<^verbatim>\<open>ATS-M7\<close> is a Modbus
  RTU server on RS485 whose registers and coils are kept in a FlashDB store on a QSPI
  flash. The example application, \<^verbatim>\<open>app\<close> (and \<^verbatim>\<open>ATS\<close>, the same file), blinks an LED
  with a period that a sensor changes, through two drivers of the repository. This root
  theory imports every other one; each of them opens with what it holds.

  \<^bold>\<open>Parts of the controller and how they interact.\<close>

  \<^item> \<^verbatim>\<open>main.c\<close> (theory \<open>AtsMain\<close>): \<open>ats_boot\<close>, \<open>ats_loop\<close>, \<open>ats_main\<close>. It initialises the flash
    port, prints the identification of the chip, runs the flash self test, starts the
    Modbus service and then runs its periodic task with a sleep of 1 ms. \<open>AtsSystem\<close> puts
    the boot and the loop together, from reset on.
  \<^item> \<^verbatim>\<open>modbus_service.c\<close> (\<open>ModbusService\<close>): assembles frames from the RS485 byte stream
    (\<open>mb_absorb\<close>, \<open>modbus_rx_poll\<close>), checks their CRC and submits them to the server of
    Zephyr (\<open>modbus_submit_frame\<close>), sends the responses (\<open>mb_frame\<close>, \<open>modbus_raw_tx_cb\<close>),
    offers the register callbacks (\<open>mbs_cbs\<close>) and counts the heartbeat
    (\<open>modbus_service_tick\<close>). The file statics are the record \<open>mb_state\<close>; \<open>mb_sys\<close> puts them
    next to the state of the services below. \<open>ModbusThreads\<close> is the running controller: the
    main thread somewhere in its periodic task (\<open>main_pc\<close>), the server on the system work
    queue, somewhere in \<open>rs485_write\<close> (\<open>write_pc\<close>), and the hardware, interleaved call by
    call (\<open>sys_step\<close>); in \<open>ModbusSystem\<close> a call is one step (\<open>mb_step\<close>).
  \<^item> \<^verbatim>\<open>usart_service.c\<close> (\<open>Rs485\<close>): half-duplex RS485 over an interrupt-driven UART with two
    DMA buffers, a ring and a semaphore: \<open>rs485_init\<close>, \<open>rs485_write\<close>, \<open>rs485_read\<close> and the
    callback \<open>uart_cb\<close>. The hardware is a source of events (\<open>hw_event\<close>) that run between
    the statements of both threads; \<open>rs_lstep\<close> is the interleaved step relation, labelled
    with who made the step, and \<open>rs_step\<close> the same without labels.
  \<^item> \<^verbatim>\<open>modbus_points_db.c\<close> (\<open>PointsDb\<close>): four holding registers and two coils as keys of
    the store, with their defaults and error codes.
  \<^item> \<^verbatim>\<open>fal_stub_zephyr.c\<close>, \<^verbatim>\<open>fal.h\<close> (\<open>FalStub\<close>): the flash abstraction that FlashDB calls, one
    device and one partition on top of the flash port. \<open>FalStore\<close> has its calls as events
    (\<open>fal_step\<close>) and the abstract store (\<open>store_step\<close>).
  \<^item> \<^verbatim>\<open>flashdb_port_zephyr.c\<close>: the partition of the flash with range-checked read, write
    and erase (\<open>FlashPort\<close>), its self test (\<open>FlashSelfTest\<close>) and the two identification
    dumps (\<open>FlashIdent\<close>).
  \<^item> \<^verbatim>\<open>can_service.c\<close> (\<open>CanService\<close>) and \<^verbatim>\<open>qspi_service.c\<close> (\<open>QspiService\<close>): two services of
    the same source directory that the build does not compile at present.

  \<^bold>\<open>Parts of the example application.\<close> \<open>ExampleApp\<close> holds \<^verbatim>\<open>main.c\<close> (\<open>app_boot\<close>,
  \<open>app_round\<close>, \<open>app_loop\<close>, \<open>app_main\<close>), the sensor driver \<^verbatim>\<open>example_sensor.c\<close> and the
  custom library; \<open>BlinkClass\<close> the driver class \<^verbatim>\<open>blink.h\<close>, \<open>BlinkGpioLed\<close> its driver
  \<^verbatim>\<open>gpio_led.c\<close>.

  \<^bold>\<open>How the code is modelled.\<close>

  \<^item> A C function is a HOL function of the same name. It takes the statics of its file as a
    record and the rest of the world as a value of an arbitrary type \<open>'w\<close>, and returns the
    result, what it stores through its pointers, and both states.
  \<^item> Zephyr, FlashDB and the hardware are not in the repository. Every function of them that
    a file calls is a field of a record (\<open>flash_api\<close>, \<open>fdb_api\<close>, \<open>rs_api\<close>, \<open>mb_api\<close>,
    \<open>led_api\<close>, \<open>can_api\<close>, \<open>qspi_api\<close>, ...), an arbitrary function on \<open>'w\<close>. What the code relies
    on is a named predicate on a view of \<open>'w\<close>: \<open>flash_ok\<close> (a NOR flash as a memory),
    \<open>flash_keeps\<close> and \<open>flash_asks_keep\<close> (all calls of the flash driver, or those that open the
    partition and identify the chip, leave a view of the world alone),
    \<open>fdb_ok\<close> (a key-value map), \<open>rs_ok\<close> (pins, semaphore, UART and ring as \<open>rs_line\<close>, with
    the frames sent and the frames aborted),
    \<open>arrivals\<close> and \<open>clock_runs\<close> (what a loop needs to end), \<open>clock_forward\<close> (time does not
    go back), \<open>tx_completes\<close>, \<open>tx_reliable\<close> (no transmission is aborted), \<open>inbox_ok\<close>,
    \<open>codec_ok\<close>, \<open>stack_ok\<close>, \<open>modbus_server\<close> (the server of Zephyr, for requests of one
    holding register: \<open>ModbusExchange\<close>), \<open>led_ok\<close>, \<open>can_ok\<close>, \<open>qspi_ok\<close>. A concrete platform
    (\<open>sim_flash\<close>, \<open>sim_fdb\<close>, \<open>sim_rs\<close>, \<open>sim_mb\<close>, \<open>sim_led\<close>, \<open>sim_can\<close>, \<open>sim_qspi\<close>) satisfies each of them; the
    witnesses evaluate there.
  \<^item> \<open>size_t\<close>, \<open>off_t\<close>, \<open>uint8_t\<close>, \<open>uint16_t\<close>, \<open>uint32_t\<close> and \<open>int64_t\<close> are words of their
    width (the target has 32-bit pointers), with wrap-around and signed comparison where
    the code has them; results and error codes are integers, \<open>errno\<close> values as in Zephyr.
    Two exceptions are naturals: the fill count \<open>mb_rx_len\<close> of the frame buffer, which the
    invariant bounds by the size of the buffer, and that size, \<open>MODBUS_BUFFER_SIZE\<close>, a constant
    of the configuration; the range of that option in Zephyr is 64 to 256, so the truncated subtraction of
    \<open>modbus_raw_tx_cb\<close> is the one of the code. The DLC of a CAN frame is what Zephyr's
    \<open>can_bytes_to_dlc\<close> returns, a parameter about which nothing is assumed.
  \<^item> A call that may block or loop forever is a \<open>partial_function (option)\<close>: \<open>None\<close> is not
    returning, and that the code returns is a property of its own (\<open>rs485_write_returns\<close>,
    \<open>rs485_read_returns\<close>, \<open>ats_main_runs\<close>). In \<open>QspiService\<close> \<open>None\<close> is undefined behaviour.
    The two endless loops of the programs are cut off after an arbitrary number \<open>n\<close> of
    rounds, and their properties hold for every \<open>n\<close>. No other bound or fuel is used.
  \<^item> Reads through null pointers, log output and statistics printed on the console are left
    out, but for the lines of the identification dumps, the announced LED periods, the CAN
    state line and the QSPI dump.

  \<^bold>\<open>Interfaces.\<close> Six locales state the contracts between parts, each interpreted on the
  definitions of the part that provides it: \<open>partition_io\<close> (a range-checked partition;
  \<open>port\<close> and \<open>fal\<close>), \<open>point_bank\<close> (an array of points; \<open>holding\<close> and \<open>coil\<close>), \<open>byte_source\<close>
  (a non-blocking byte stream and its polling loop; \<open>rs485\<close>), \<open>blink_driver\<close> (the driver
  class; \<open>gpio_led\<close>), \<open>trace_refinement\<close> (a step relation that refines an abstract one;
  \<open>threads\<close>, \<open>service\<close>, \<open>stream\<close> and \<open>fal_store\<close>; the sublocale \<open>io\<close> gives it for every
  partition of \<open>partition_io\<close>), \<open>platform_part\<close> (the serial side as a part of a larger world; \<open>pair_part\<close>
  and \<open>board_part\<close>).

  \<^bold>\<open>What the lemmas show.\<close>

  \<^item> Flash: the range check is exact and no request outside the partition reaches the
    driver; erase, program and read back return the data at the level of the port and of
    FAL; over any sequence of calls FAL is a NOR flash of the size of the partition
    (\<open>FalStore\<close>); the SFDP header loop finds the first usable table; the outcome of the dump
    on every branch, DWORD 15 included.
  \<^item> Points: read after write, exact error codes, and what the getters return after an
    initialisation: the defaults on an empty store, what is stored on another.
  \<^item> RS485: in every interleaving DE is high while a frame is on the line and low outside
    \<open>rs485_write\<close>; a call that returns 0 sent the caller's bytes, once, unless the hardware
    aborted exactly them; the DMA buffers alternate while
    reception is not disabled; all calls return on a platform that makes progress; the
    functions are runs of the step relation. \<open>Rs485Stream\<close>: from the wire to the readers the
    service refines a queue of 512 bytes, so that bytes are received in order and are lost
    only when the ring is full.
  \<^item> Modbus: in every interleaving of the main thread, the server and the hardware, the server
    gets successive contiguous pieces of the received stream, complete frames with a matching
    CRC, the stream being the bytes on the wire as long as the ring does not overflow
    (\<open>ModbusStream\<close>, on top of \<open>Rs485Stream\<close>); a complete request is with the server after three rounds of the
    main thread (\<open>ModbusProgress\<close>); and (\<open>ModbusInterleaved\<close>) its calls refine a register file,
    the invariants hold, a register or coil written is read back until it is written again,
    and the bus carries the frames of its answers only. \<open>call_thread_run\<close> and \<open>calls_run\<close>
    (\<open>ModbusThreads\<close>) carry the functions over to that relation. The response callback sends
    exactly its frame; a request of one holding register gets exactly
    one frame in answer, with the value or the echo the protocol asks for
    (\<open>ModbusExchange\<close>).
  \<^item> Controller: what a boot may have touched by the stage where it stops, flash contents and
    serial hardware included, the rate of the heartbeat from both
    sides, and that the program, from reset on, never blocks and keeps the system in order
    (\<open>AtsSystem\<close>).
  \<^item> CAN: no filter is leaked and only valid frames are sent. QSPI: records are appended
    within the window, and what is left of one after an erase that failed. Application: one
    period is announced for each rising edge of the sampled input, in a closed form, and the
    LED follows it, from the initialisation of the devices on.
  \<^item> Some properties state what the code does where that is not what it means to do:
    \<open>ats_boot_wipes_first_block\<close>, \<open>fal_init_never_retries\<close>, \<open>rs485_restart_reuses_buffer\<close>,
    \<open>modbus_noise_is_kept\<close>, \<open>sensor_error_hides_edge\<close>, \<open>can_set_filter_replaces\<close>,
    \<open>points_db_init_points\<close> (no default for a missing key), \<open>qspi_write_appends\<close> (the result of
    the erase is ignored), \<open>rs485_write_outcome\<close> (an aborted frame is not reported).

  \<^bold>\<open>Not modelled.\<close> FlashDB (a submodule) and Zephyr, which are parameters; the CubeMX file
  \<^verbatim>\<open>boards/vendor/ats_stm32h745/temp.c\<close>, which is generated and not compiled; devicetree,
  Kconfig, build files, scripts and documentation; the kernel's device start-up, of which only
  the effect is assumed (\<open>app_led_lifecycle\<close>). In \<open>sys_step\<close> a callback on the point database
  is one step: only the server uses the database, and it does so under a mutex, so a reset in
  the middle of a write to the flash is not represented, and since every boot erases the first
  block of the partition (\<open>ats_boot_wipes_first_block\<close>) nothing is claimed about what survives
  a restart. That the
  calls return, and so that the rounds of the main loop end (\<open>ats_main_runs\<close>), and the whole
  exchange of a request and its answer (\<open>ModbusExchange\<close>) are about sequences of calls, in
  which only the hardware runs within a call; nothing is assumed or shown of the scheduler.
\<close>

end
